(* ===== verification/Net_Prelude.thy ===== *)
theory Net_Prelude
  imports Main "HOL-Library.Word"
begin

section \<open>Prelude: results, memory, scripts of system calls\<close>

text \<open>
  What every component of the library uses:
  \<^item> \<open>fault\<close> and \<open>'a res\<close>: the outcome of code that may run into undefined behaviour
    (a null or dangling pointer, an index outside an array, an uninitialised function
    pointer), a failed \<open>assert\<close>, or the end of the fuel of a bounded loop;
  \<^item> \<open>deref\<close>, \<open>store\<close>, \<open>delete\<close>: the memory of C++ objects of one type, a partial map
    from addresses; \<open>None\<close> as a pointer is \<open>nullptr\<close>;
  \<^item> the generic facts about lists and folds that several components share;
  \<^item> the interface of an event loop: a handler that keeps an invariant, run over the
    events one \<open>epoll_wait\<close> after the other returns;
  \<^item> the interface of a transition system of threads, that of one whose runs end, that
    of one that follows a simpler one, and that of a refinement of operations.
\<close>

subsection \<open>Results\<close>

datatype fault =
    Null_deref        \<comment> \<open>dereference of \<open>nullptr\<close>\<close>
  | Dangling          \<comment> \<open>dereference or \<open>delete\<close> of an object that does not exist\<close>
  | Out_of_bounds     \<comment> \<open>array index outside the array\<close>
  | Uninitialised     \<comment> \<open>use of a member that was never written\<close>
  | Bad_function_call \<comment> \<open>call of an empty \<open>std::function\<close>\<close>
  | Assert_failed     \<comment> \<open>\<open>assert\<close> does not hold\<close>
  | No_return         \<comment> \<open>control flows off the end of a function that returns a value\<close>
  | Out_of_fuel       \<comment> \<open>the bound given for a loop was too small\<close>

type_synonym 'a res = "fault + 'a"

fun rbind :: "'a res \<Rightarrow> ('a \<Rightarrow> 'b res) \<Rightarrow> 'b res" where
  "rbind (Inl f) k = Inl f"
| "rbind (Inr x) k = k x"

lemma rbind_eq_Inr [simp]:
  "rbind m k = Inr y \<longleftrightarrow> (\<exists>x. m = Inr x \<and> k x = Inr y)"
  by (cases m) auto

lemma rbind_assoc: "rbind (rbind m k) l = rbind m (\<lambda>x. rbind (k x) l)"
  by (cases m) auto

lemma rbind_cong:
  "m = m' \<Longrightarrow> (\<And>x. m' = Inr x \<Longrightarrow> k x = k' x) \<Longrightarrow> rbind m k = rbind m' k'"
  by (cases m') auto

lemma rbind_Inr_right [simp]: "rbind m Inr = m"
  by (cases m) auto

subsection \<open>Memory\<close>

type_synonym addr = nat
type_synonym ptr = "addr option"

definition deref :: "(addr \<rightharpoonup> 'n) \<Rightarrow> ptr \<Rightarrow> 'n res" where
  "deref h p =
     (case p of None \<Rightarrow> Inl Null_deref
      | Some a \<Rightarrow> (case h a of None \<Rightarrow> Inl Dangling | Some n \<Rightarrow> Inr n))"

definition store :: "(addr \<rightharpoonup> 'n) \<Rightarrow> ptr \<Rightarrow> ('n \<Rightarrow> 'n) \<Rightarrow> (addr \<rightharpoonup> 'n) res" where
  \<comment> \<open>\<open>p->field = e\<close>: the function given writes the field\<close>
  "store h p f =
     (case p of None \<Rightarrow> Inl Null_deref
      | Some a \<Rightarrow> (case h a of None \<Rightarrow> Inl Dangling | Some n \<Rightarrow> Inr (h(a \<mapsto> f n))))"

definition delete :: "(addr \<rightharpoonup> 'n) \<Rightarrow> ptr \<Rightarrow> (addr \<rightharpoonup> 'n) res" where
  \<comment> \<open>\<open>delete p\<close>: nothing for \<open>nullptr\<close>, undefined for an object already deleted\<close>
  "delete h p =
     (case p of None \<Rightarrow> Inr h
      | Some a \<Rightarrow> (case h a of None \<Rightarrow> Inl Dangling | Some n \<Rightarrow> Inr (h(a := None))))"

named_theorems mem_simps "evaluation of memory accesses"

lemma deref_simps [simp, mem_simps]:
  "deref h None = Inl Null_deref"
  "h a = Some n \<Longrightarrow> deref h (Some a) = Inr n"
  "h a = None \<Longrightarrow> deref h (Some a) = Inl Dangling"
  by (auto simp: deref_def)

lemma store_simps [simp, mem_simps]:
  "store h None f = Inl Null_deref"
  "h a = Some n \<Longrightarrow> store h (Some a) f = Inr (h(a \<mapsto> f n))"
  "h a = None \<Longrightarrow> store h (Some a) f = Inl Dangling"
  by (auto simp: store_def)

lemma delete_simps [simp, mem_simps]:
  "delete h None = Inr h"
  "h a = Some n \<Longrightarrow> delete h (Some a) = Inr (h(a := None))"
  "h a = None \<Longrightarrow> delete h (Some a) = Inl Dangling"
  by (auto simp: delete_def)

subsection \<open>Arrays\<close>

definition index_array :: "'a list \<Rightarrow> int \<Rightarrow> 'a res" where
  "index_array xs i =
     (if 0 \<le> i \<and> nat i < length xs then Inr (xs ! nat i) else Inl Out_of_bounds)"

definition write_array :: "'a list \<Rightarrow> int \<Rightarrow> 'a \<Rightarrow> 'a list res" where
  "write_array xs i v =
     (if 0 \<le> i \<and> nat i < length xs then Inr (xs[nat i := v]) else Inl Out_of_bounds)"

lemma index_array_nat [simp]:
  "i < length xs \<Longrightarrow> index_array xs (int i) = Inr (xs ! i)"
  by (simp add: index_array_def)

lemma write_array_nat [simp]:
  "i < length xs \<Longrightarrow> write_array xs (int i) v = Inr (xs[i := v])"
  by (simp add: write_array_def)

lemma index_array_before [simp]:
  "1 \<le> i \<Longrightarrow> i \<le> length xs \<Longrightarrow> index_array xs (int i - 1) = Inr (xs ! (i - 1))"
  using index_array_nat[of "i - 1" xs] by (simp add: of_nat_diff)

lemma write_array_before [simp]:
  "1 \<le> i \<Longrightarrow> i \<le> length xs \<Longrightarrow> write_array xs (int i - 1) v = Inr (xs[i - 1 := v])"
  using write_array_nat[of "i - 1" xs v] by (simp add: of_nat_diff)

lemma index_array_cases:
  "index_array xs i = Inr x \<longleftrightarrow> 0 \<le> i \<and> nat i < length xs \<and> x = xs ! nat i"
  by (auto simp: index_array_def)

subsection \<open>Generic facts about lists\<close>

lemma takeWhile_dropWhile_insert_mset:
  "set (takeWhile P xs @ a # dropWhile P xs) = insert a (set xs)"
  by (metis Un_insert_right list.simps(15) set_append takeWhile_dropWhile_id)

lemma distinct_insert_middle:
  "distinct (xs @ ys) \<Longrightarrow> a \<notin> set xs \<union> set ys \<Longrightarrow> distinct (xs @ a # ys)"
  by auto

lemma filter_absent:
  "a \<notin> set xs \<Longrightarrow> filter (\<lambda>x. x \<noteq> a) xs = xs"
  "a \<notin> set xs \<Longrightarrow> filter (\<lambda>x. x = a) xs = []"
  by (induction xs) auto

lemma map_key_cong:
  "(\<And>x. x \<in> set xs \<Longrightarrow> f x = g x) \<Longrightarrow> map f xs = map g xs"
  by simp

lemma fold_filter: "fold f (filter P xs) s = fold (\<lambda>x s. if P x then f x s else s) xs s"
  by (induction xs arbitrary: s) auto

subsection \<open>The interface of an event loop\<close>

text \<open>
  Every server of the program is a loop \<open>while (...) { n = epoll_wait(...); for (i < n)
  handle(events[i]); }\<close>. What the loop relies on is that one call of the handler keeps
  the component's invariant; then any number of batches keep it. A handler may fault;
  the contract says it does not, from a state where the invariant holds and for an event
  the kernel can deliver.
\<close>

fun run_events :: "('e \<Rightarrow> 's \<Rightarrow> 's res) \<Rightarrow> 'e list \<Rightarrow> 's \<Rightarrow> 's res" where
  "run_events h [] s = Inr s"
| "run_events h (e # es) s = rbind (h e s) (run_events h es)"

lemma run_events_append:
  "run_events h (es @ fs) s = rbind (run_events h es s) (run_events h fs)"
  by (induction es arbitrary: s) (simp_all add: rbind_assoc cong: rbind_cong)

locale event_handler =
  fixes handle :: "'e \<Rightarrow> 's \<Rightarrow> 's res"
    and inv :: "'s \<Rightarrow> bool"
    and ok :: "'e \<Rightarrow> 's \<Rightarrow> bool"
  assumes handle_total: "inv s \<Longrightarrow> ok e s \<Longrightarrow> \<exists>t. handle e s = Inr t"
    and handle_inv: "inv s \<Longrightarrow> ok e s \<Longrightarrow> handle e s = Inr t \<Longrightarrow> inv t"
begin

fun all_ok :: "'e list \<Rightarrow> 's \<Rightarrow> bool" where
  "all_ok [] s = True"
| "all_ok (e # es) s = (ok e s \<and> (\<forall>t. handle e s = Inr t \<longrightarrow> all_ok es t))"

lemma run_total_inv:
  "inv s \<Longrightarrow> all_ok es s \<Longrightarrow> \<exists>t. run_events handle es s = Inr t \<and> inv t"
proof (induction es arbitrary: s)
  case Nil
  then show ?case by simp
next
  case (Cons e es)
  then obtain t where t: "handle e s = Inr t"
    using handle_total by force
  with Cons have "inv t" and "all_ok es t"
    using handle_inv by auto
  with Cons.IH t show ?case by simp
qed

lemma run_inv:
  "inv s \<Longrightarrow> all_ok es s \<Longrightarrow> run_events handle es s = Inr t \<Longrightarrow> inv t"
  using run_total_inv by force

end

subsection \<open>The interface of a transition system\<close>

text \<open>
  Threads that interleave are a step function on labels, \<open>None\<close> where the label is not
  enabled. A component promises that its steps keep an invariant; then every run does.
\<close>

fun run_labels :: "('l \<Rightarrow> 's \<Rightarrow> 's option) \<Rightarrow> 'l list \<Rightarrow> 's \<Rightarrow> 's option" where
  "run_labels step [] s = Some s"
| "run_labels step (l # ls) s = Option.bind (step l s) (run_labels step ls)"

locale transition_system =
  fixes step :: "'l \<Rightarrow> 's \<Rightarrow> 's option"
    and inv :: "'s \<Rightarrow> bool"
  assumes step_inv: "inv s \<Longrightarrow> step l s = Some t \<Longrightarrow> inv t"
begin

lemma run_labels_inv: "inv s \<Longrightarrow> run_labels step ls s = Some t \<Longrightarrow> inv t"
  by (induction ls arbitrary: s) (auto simp: Option.bind_eq_Some_conv intro: step_inv)

end

text \<open>
  A component that also promises a weight which every step of a class of labels lowers: then
  all runs of these labels are finite, whatever the order, and from every state some run of
  them ends where none of them is enabled.
\<close>

locale terminating_system = transition_system step inv
  for step :: "'l \<Rightarrow> 's \<Rightarrow> 's option" and inv :: "'s \<Rightarrow> bool" +
  fixes counts :: "'l \<Rightarrow> bool"
    and weight :: "'s \<Rightarrow> nat"
  assumes step_weight: "inv s \<Longrightarrow> counts l \<Longrightarrow> step l s = Some t \<Longrightarrow> weight t < weight s"
begin

lemma run_weight:
  "inv s \<Longrightarrow> list_all counts ls \<Longrightarrow> run_labels step ls s = Some t \<Longrightarrow> length ls + weight t \<le> weight s"
proof (induction ls arbitrary: s)
  case (Cons l ls)
  then obtain u where u: "step l s = Some u" "run_labels step ls u = Some t"
    by (auto simp: Option.bind_eq_Some_conv)
  with Cons have "weight u < weight s" "length ls + weight t \<le> weight u"
    using step_weight step_inv by auto
  then show ?case by simp
qed simp

lemma run_settles:
  "inv s \<Longrightarrow> \<exists>ls t. list_all counts ls \<and> run_labels step ls s = Some t \<and> (\<forall>l. counts l \<longrightarrow> step l t = None)"
proof (induction s rule: measure_induct_rule[of weight])
  case (less s)
  show ?case
  proof (cases "\<exists>l t. counts l \<and> step l s = Some t")
    case True
    then obtain l u where l: "counts l" "step l s = Some u" by blast
    with less obtain ls t where "list_all counts ls" "run_labels step ls u = Some t" "\<forall>l. counts l \<longrightarrow> step l t = None"
      using step_weight step_inv by blast
    with l show ?thesis by (intro exI[of _ "l # ls"] exI[of _ t]) simp
  next
    case False
    then have "\<forall>l. counts l \<longrightarrow> step l s = None" by (metis option.exhaust)
    then show ?thesis by (intro exI[of _ "[]"] exI[of _ s]) simp
  qed
qed

end

text \<open>
  A system whose steps are, seen through an abstraction, steps of a simpler one or nothing: the
  label and the state say which operation of the specification a step performs, if any. Then
  every run performs a run of the specification.
\<close>

fun performed :: "('l \<Rightarrow> 's \<Rightarrow> 's option) \<Rightarrow> ('l \<Rightarrow> 's \<Rightarrow> 'o option) \<Rightarrow> 'l list \<Rightarrow> 's \<Rightarrow> 'o list" where
  "performed step op [] s = []"
| "performed step op (l # ls) s =
     (case op l s of None \<Rightarrow> [] | Some c \<Rightarrow> [c]) @
     (case step l s of None \<Rightarrow> [] | Some t \<Rightarrow> performed step op ls t)"

locale step_refinement = transition_system step inv
  for step :: "'l \<Rightarrow> 's \<Rightarrow> 's option" and inv :: "'s \<Rightarrow> bool" +
  fixes spec :: "'o \<Rightarrow> 'a \<Rightarrow> 'a option"
    and abs :: "'s \<Rightarrow> 'a"
    and op :: "'l \<Rightarrow> 's \<Rightarrow> 'o option"
  assumes silent: "inv s \<Longrightarrow> step l s = Some t \<Longrightarrow> op l s = None \<Longrightarrow> abs t = abs s"
    and visible: "inv s \<Longrightarrow> step l s = Some t \<Longrightarrow> op l s = Some c \<Longrightarrow> spec c (abs s) = Some (abs t)"
begin

lemma run_refines:
  "inv s \<Longrightarrow> run_labels step ls s = Some t \<Longrightarrow> run_labels spec (performed step op ls s) (abs s) = Some (abs t)"
proof (induction ls arbitrary: s)
  case (Cons l ls)
  then obtain u where u: "step l s = Some u" "run_labels step ls u = Some t" "inv u"
    by (auto simp: Option.bind_eq_Some_conv intro: step_inv)
  with Cons.IH have "run_labels spec (performed step op ls u) (abs u) = Some (abs t)" by blast
  with u(1) Cons.prems(1) show ?case
    by (cases "op l s") (simp_all add: silent visible)
qed simp

end

subsection \<open>The interface of a refinement\<close>

text \<open>
  A component promises that its operations follow an abstract specification: from a state
  that represents the abstract value \<open>v\<close>, an operation that is legal in \<open>v\<close> returns, and the
  new state represents the specified value. The promise then holds for whole histories.
\<close>

locale simulation =
  fixes exec :: "'o \<Rightarrow> 's \<Rightarrow> 's res"
    and spec :: "'o \<Rightarrow> 'a \<Rightarrow> 'a"
    and rel :: "'s \<Rightarrow> 'a \<Rightarrow> bool"
    and legal :: "'o \<Rightarrow> 'a \<Rightarrow> bool"
  assumes sim: "rel s v \<Longrightarrow> legal c v \<Longrightarrow> \<exists>t. exec c s = Inr t \<and> rel t (spec c v)"
begin

fun legal_run :: "'o list \<Rightarrow> 'a \<Rightarrow> bool" where
  "legal_run [] v = True"
| "legal_run (c # cs) v = (legal c v \<and> legal_run cs (spec c v))"

lemma run_sim:
  "rel s v \<Longrightarrow> legal_run cs v \<Longrightarrow> \<exists>t. run_events exec cs s = Inr t \<and> rel t (fold spec cs v)"
proof (induction cs arbitrary: s v)
  case (Cons c cs)
  then obtain t where "exec c s = Inr t" "rel t (spec c v)"
    using sim by fastforce
  with Cons show ?case by fastforce
qed simp

end

end
