(* ===== verification/Dlist_Heap.thy ===== *)
theory Dlist_Heap
  imports Net_Prelude
begin

section \<open>Doubly linked lists in memory\<close>

text \<open>
  Both timer containers of the program (the sorted list of \<open>linux_server/cpt_11_2_1.h\<close>,
  the time wheel of \<open>linux_server/time_wheel.h\<close> and \<open>linux_server/cpt_11_4_1.h\<close>) thread
  their timers through a \<open>prev\<close> and a \<open>next\<close> pointer. The two pointer members are the
  record \<open>dl_node\<close>, which the timers of each container extend by their own members, so
  that the facts about pointer surgery are proved once.

  \<open>dseg h p xs n\<close>: the objects at the addresses \<open>xs\<close> are linked in this order, the first
  one's \<open>prev\<close> is \<open>p\<close> and the last one's \<open>next\<close> is \<open>n\<close>.
\<close>

record dl_node =
  nd_prev :: ptr
  nd_next :: ptr

definition headp :: "addr list \<Rightarrow> ptr \<Rightarrow> ptr" where
  "headp xs n = (case xs of [] \<Rightarrow> n | a # _ \<Rightarrow> Some a)"

definition lastp :: "ptr \<Rightarrow> addr list \<Rightarrow> ptr" where
  "lastp p xs = (if xs = [] then p else Some (last xs))"

lemma headp_simps [simp]:
  "headp [] n = n" "headp (a # xs) n = Some a"
  by (simp_all add: headp_def)

lemma lastp_simps [simp]:
  "lastp p [] = p" "lastp p (a # xs) = lastp (Some a) xs" "lastp p (xs @ [a]) = Some a"
  by (simp_all add: lastp_def)

lemma headp_append [simp]: "headp (xs @ ys) n = headp xs (headp ys n)"
  by (cases xs) auto

lemma lastp_append [simp]: "lastp p (xs @ ys) = lastp (lastp p xs) ys"
  by (simp add: lastp_def)

lemma headp_None_iff [simp]: "headp xs None = None \<longleftrightarrow> xs = []"
  by (cases xs) auto

lemma headp_nonempty: "xs \<noteq> [] \<Longrightarrow> headp xs n = Some (hd xs)"
  by (cases xs) auto

lemma headp_Some_iff: "headp xs None = Some a \<longleftrightarrow> (\<exists>ys. xs = a # ys)"
  by (cases xs) auto

fun dseg :: "(addr \<rightharpoonup> 'x dl_node_scheme) \<Rightarrow> ptr \<Rightarrow> addr list \<Rightarrow> ptr \<Rightarrow> bool" where
  "dseg h p [] n \<longleftrightarrow> True"
| "dseg h p (a # xs) n \<longleftrightarrow>
     (case h a of None \<Rightarrow> False
      | Some nd \<Rightarrow> nd_prev nd = p \<and> nd_next nd = headp xs n \<and> dseg h (Some a) xs n)"

lemma dseg_append [simp]:
  "dseg h p (xs @ ys) n \<longleftrightarrow> dseg h p xs (headp ys n) \<and> dseg h (lastp p xs) ys n"
  by (induction xs arbitrary: p) (auto split: option.splits)

lemma dseg_Cons_iff:
  "dseg h p (a # xs) n \<longleftrightarrow>
     (\<exists>nd. h a = Some nd \<and> nd_prev nd = p \<and> nd_next nd = headp xs n \<and> dseg h (Some a) xs n)"
  by (auto split: option.splits)

lemma dseg_alloc: "dseg h p xs n \<Longrightarrow> a \<in> set xs \<Longrightarrow> h a \<noteq> None"
  by (induction xs arbitrary: p) (auto split: option.splits)

lemma dseg_frame [simp]:
  "a \<notin> set xs \<Longrightarrow> dseg (h(a := v)) p xs n = dseg h p xs n"
  by (induction xs arbitrary: p) (auto split: option.splits)

lemma dseg_at:
  assumes "dseg m None (xs @ a # ys) None"
  obtains t where "m a = Some t" "nd_prev t = lastp None xs" "nd_next t = headp ys None"
  using assms by (auto split: option.splits)

lemma dseg_same_pointers:
  "h a = Some nd \<Longrightarrow> nd_prev nd' = nd_prev nd \<Longrightarrow> nd_next nd' = nd_next nd \<Longrightarrow>
   dseg (h(a \<mapsto> nd')) p xs n = dseg h p xs n"
  by (induction xs arbitrary: p) (auto split: option.splits)

lemma dseg_cong:
  "(\<And>a. a \<in> set xs \<Longrightarrow> h a = h' a) \<Longrightarrow> dseg h p xs n = dseg h' p xs n"
  by (induction xs arbitrary: p) (auto split: option.splits)

subsection \<open>Writing one pointer member\<close>

definition set_next :: "(addr \<rightharpoonup> 'x dl_node_scheme) \<Rightarrow> ptr \<Rightarrow> ptr \<Rightarrow> (addr \<rightharpoonup> 'x dl_node_scheme) res" where
  "set_next h p q = store h p (\<lambda>nd. nd\<lparr>nd_next := q\<rparr>)"

definition set_prev :: "(addr \<rightharpoonup> 'x dl_node_scheme) \<Rightarrow> ptr \<Rightarrow> ptr \<Rightarrow> (addr \<rightharpoonup> 'x dl_node_scheme) res" where
  "set_prev h p q = store h p (\<lambda>nd. nd\<lparr>nd_prev := q\<rparr>)"

definition upd_next :: "(addr \<rightharpoonup> 'x dl_node_scheme) \<Rightarrow> addr \<Rightarrow> ptr \<Rightarrow> (addr \<rightharpoonup> 'x dl_node_scheme)" where
  "upd_next h a q = h(a := map_option (\<lambda>nd. nd\<lparr>nd_next := q\<rparr>) (h a))"

definition upd_prev :: "(addr \<rightharpoonup> 'x dl_node_scheme) \<Rightarrow> addr \<Rightarrow> ptr \<Rightarrow> (addr \<rightharpoonup> 'x dl_node_scheme)" where
  "upd_prev h a q = h(a := map_option (\<lambda>nd. nd\<lparr>nd_prev := q\<rparr>) (h a))"

lemma set_next_Some [simp, mem_simps]:
  "h a \<noteq> None \<Longrightarrow> set_next h (Some a) q = Inr (upd_next h a q)"
  by (auto simp: set_next_def upd_next_def)

lemma set_prev_Some [simp, mem_simps]:
  "h a \<noteq> None \<Longrightarrow> set_prev h (Some a) q = Inr (upd_prev h a q)"
  by (auto simp: set_prev_def upd_prev_def)

lemma set_None [simp, mem_simps]:
  "set_next h None q = Inl Null_deref" "set_prev h None q = Inl Null_deref"
  by (simp_all add: set_next_def set_prev_def)

lemma upd_at [simp]:
  "upd_next h a q a = map_option (\<lambda>nd. nd\<lparr>nd_next := q\<rparr>) (h a)"
  "upd_prev h a q a = map_option (\<lambda>nd. nd\<lparr>nd_prev := q\<rparr>) (h a)"
  "b \<noteq> a \<Longrightarrow> upd_next h a q b = h b"
  "b \<noteq> a \<Longrightarrow> upd_prev h a q b = h b"
  by (auto simp: upd_next_def upd_prev_def)

lemma upd_None_iff [simp]:
  "upd_next h a q b = None \<longleftrightarrow> h b = None"
  "upd_prev h a q b = None \<longleftrightarrow> h b = None"
  by (auto simp: upd_next_def upd_prev_def)

lemma upd_same:
  "h a = Some nd \<Longrightarrow> nd_prev nd = q \<Longrightarrow> upd_prev h a q = h"
  "h a = Some nd \<Longrightarrow> nd_next nd = q \<Longrightarrow> upd_next h a q = h"
  by (auto simp: upd_prev_def upd_next_def fun_eq_iff)

lemma upd_delete_commute:
  "b \<noteq> a \<Longrightarrow> upd_prev (h(a := None)) b q = (upd_prev h b q)(a := None)"
  "b \<noteq> a \<Longrightarrow> upd_next (h(a := None)) b q = (upd_next h b q)(a := None)"
  by (auto simp: upd_prev_def upd_next_def fun_eq_iff)

lemma dom_upd [simp]:
  "dom (upd_next h a q) = dom h" "dom (upd_prev h a q) = dom h"
  by (auto simp: dom_def)

lemma dseg_upd_frame [simp]:
  "a \<notin> set xs \<Longrightarrow> dseg (upd_next h a q) p xs n = dseg h p xs n"
  "a \<notin> set xs \<Longrightarrow> dseg (upd_prev h a q) p xs n = dseg h p xs n"
  by (simp_all add: upd_next_def upd_prev_def)

subsection \<open>The members that are no pointers of the list\<close>

definition payload :: "(addr \<rightharpoonup> 'x dl_node_scheme) \<Rightarrow> addr \<Rightarrow> 'x option" where
  "payload h a = map_option dl_node.more (h a)"

lemma payload_upd [simp]:
  "payload (upd_next h a q) = payload h" "payload (upd_prev h a q) = payload h"
  by (auto simp: payload_def upd_next_def upd_prev_def fun_eq_iff option.map_comp comp_def)

lemma payload_None_iff [simp]: "payload h a = None \<longleftrightarrow> h a = None"
  by (simp add: payload_def)

lemma payload_fun_upd_None [simp]: "payload (h(a := None)) = (payload h)(a := None)"
  by (auto simp: payload_def fun_eq_iff)

subsection \<open>Pointer surgery\<close>

lemma dseg_retarget_last:
  assumes "dseg h p (xs @ [a]) n" and "a \<notin> set xs"
  shows "dseg (upd_next h a m) p (xs @ [a]) m"
  using assms by (auto split: option.splits)

lemma dseg_retarget_hd:
  assumes "dseg h p (a # xs) n" and "a \<notin> set xs"
  shows "dseg (upd_prev h a q) q (a # xs) n"
  using assms by (auto split: option.splits)

text \<open>\<open>a\<close> goes between \<open>xs\<close> (not empty, last element \<open>l\<close>) and \<open>ys\<close>.\<close>

definition link_between :: "(addr \<rightharpoonup> 'x dl_node_scheme) \<Rightarrow> addr list \<Rightarrow> addr \<Rightarrow> addr list \<Rightarrow> (addr \<rightharpoonup> 'x dl_node_scheme)" where
  "link_between h xs a ys =
     (let h1 = (if xs = [] then h else upd_next h (last xs) (Some a));
          h2 = upd_next (upd_prev h1 a (lastp None xs)) a (headp ys None)
      in (case ys of [] \<Rightarrow> h2 | y # _ \<Rightarrow> upd_prev h2 y (Some a)))"

definition unlink :: "(addr \<rightharpoonup> 'x dl_node_scheme) \<Rightarrow> addr list \<Rightarrow> addr list \<Rightarrow> (addr \<rightharpoonup> 'x dl_node_scheme)" where
  "unlink h xs ys =
     (let h1 = (if xs = [] then h else upd_next h (last xs) (headp ys None))
      in (case ys of [] \<Rightarrow> h1 | y # _ \<Rightarrow> upd_prev h1 y (lastp None xs)))"

lemma payload_link_between [simp]: "payload (link_between h xs a ys) = payload h"
  by (auto simp: link_between_def Let_def split: list.splits)

lemma payload_unlink [simp]: "payload (unlink h xs ys) = payload h"
  by (auto simp: unlink_def Let_def split: list.splits)

lemma unlink_None_iff [simp]: "unlink h xs ys b = None \<longleftrightarrow> h b = None"
  by (metis payload_None_iff payload_unlink)

lemma link_between_None_iff [simp]: "link_between h xs a ys b = None \<longleftrightarrow> h b = None"
  by (metis payload_None_iff payload_link_between)

lemma upd_last_other:
  "xs \<noteq> [] \<Longrightarrow> b \<notin> set xs \<Longrightarrow> upd_next h (last xs) q b = h b"
  by (metis last_in_set upd_at(3))

lemma last_not_in:
  "xs \<noteq> [] \<Longrightarrow> set xs \<inter> set ys = {} \<Longrightarrow> last xs \<notin> set ys"
  by (meson disjoint_iff last_in_set)

lemma dom_pointer_update [simp]:
  "dom (link_between h xs a ys) = dom h" "dom (unlink h xs ys) = dom h"
  by (simp_all add: dom_def del: not_None_eq)

lemma link_between_other:
  "b \<noteq> a \<Longrightarrow> b \<notin> set xs \<Longrightarrow> b \<notin> set ys \<Longrightarrow> link_between h xs a ys b = h b"
  by (auto simp: upd_last_other link_between_def Let_def split: list.splits)

lemma unlink_other:
  "b \<notin> set xs \<Longrightarrow> b \<notin> set ys \<Longrightarrow> unlink h xs ys b = h b"
  by (auto simp: upd_last_other unlink_def Let_def split: list.splits)

lemma dseg_upd_next_snoc:
  assumes "dseg h p xs n" and "distinct xs" and "xs \<noteq> []"
  shows "dseg (upd_next h (last xs) m) p xs m"
proof -
  obtain ys a where xs: "xs = ys @ [a]"
    using assms(3) by (metis append_butlast_last_id)
  then show ?thesis
    using dseg_retarget_last[of h p ys a n m] assms by simp
qed

lemma dseg_link_between:
  assumes d: "dseg h None (xs @ ys) None" and dist: "distinct (xs @ ys)"
    and a: "a \<notin> set xs" "a \<notin> set ys" "h a \<noteq> None"
  shows "dseg (link_between h xs a ys) None (xs @ a # ys) None"
proof -
  let ?h1 = "if xs = [] then h else upd_next h (last xs) (Some a)"
  let ?h2 = "upd_next (upd_prev ?h1 a (lastp None xs)) a (headp ys None)"
  have last: "xs \<noteq> [] \<Longrightarrow> last xs \<notin> set ys" "xs \<noteq> [] \<Longrightarrow> last xs \<noteq> a"
    using dist a(1) last_not_in[of xs ys] by auto
  have 1: "dseg ?h1 None xs (Some a)"
    using d dist dseg_upd_next_snoc[of h None xs "headp ys None" "Some a"] by auto
  have 2: "dseg ?h1 (lastp None xs) ys None"
    using d last by auto
  have 3: "?h2 a \<noteq> None" "nd_prev (the (?h2 a)) = lastp None xs"
    "nd_next (the (?h2 a)) = headp ys None"
    using a(3) by (auto simp: upd_next_def upd_prev_def)
  show ?thesis
  proof (cases ys)
    case Nil
    with 1 2 3 a show ?thesis
      by (auto simp: link_between_def Let_def split: option.splits)
  next
    case (Cons y zs)
    have y: "y \<notin> set xs" "y \<noteq> a" "y \<notin> set zs" using dist a Cons by auto
    have "dseg ?h2 (lastp None xs) (y # zs) None"
      using 2 a(2) unfolding Cons by (simp del: dseg.simps(2))
    then have "dseg (upd_prev ?h2 y (Some a)) (Some a) ys None"
      using y(3) unfolding Cons by (rule dseg_retarget_hd)
    with 1 3 a y Cons show ?thesis
      by (auto simp: link_between_def Let_def dseg_Cons_iff simp del: dseg.simps(2))
  qed
qed

lemma dseg_unlink:
  assumes d: "dseg h None (xs @ a # ys) None" and dist: "distinct (xs @ a # ys)"
  shows "dseg (unlink h xs ys) None (xs @ ys) None"
proof -
  let ?h1 = "if xs = [] then h else upd_next h (last xs) (headp ys None)"
  have last: "xs \<noteq> [] \<Longrightarrow> last xs \<notin> set ys"
    using dist last_not_in[of xs ys] by auto
  have 1: "dseg ?h1 None xs (headp ys None)"
    using d dist dseg_upd_next_snoc[of h None xs "Some a" "headp ys None"] by auto
  have 2: "dseg ?h1 (Some a) ys None"
    using d last by (auto split: option.splits)
  show ?thesis
  proof (cases ys)
    case Nil
    with 1 show ?thesis by (auto simp: unlink_def Let_def)
  next
    case (Cons y zs)
    have y: "y \<notin> set xs" "y \<notin> set zs" using dist Cons by auto
    have "dseg (upd_prev ?h1 y (lastp None xs)) (lastp None xs) ys None"
      using 2 y(2) unfolding Cons by (rule dseg_retarget_hd)
    with 1 y Cons show ?thesis
      by (auto simp: unlink_def Let_def simp del: dseg.simps(2))
  qed
qed

end
