(* ===== verification/Timer_Store.thy ===== *)
theory Timer_Store
  imports Net_Prelude
begin

section \<open>The interface of a timer container\<close>

text \<open>
  What a server relies on, whichever container it uses: operations that follow the
  container's specification (the \<open>simulation\<close> it extends), and an account of the timer
  objects in memory. \<open>live\<close> are the addresses of the objects that exist, \<open>timers\<close> those of
  the abstract value; an operation makes the objects \<open>arrives\<close> and destroys \<open>leaves\<close>.
  The ascending list and the time wheel both provide it.
\<close>

locale timer_store = simulation exec spec rel legal
  for exec :: "'o \<Rightarrow> 's \<Rightarrow> 's res" and spec :: "'o \<Rightarrow> 'a \<Rightarrow> 'a"
    and rel :: "'s \<Rightarrow> 'a \<Rightarrow> bool" and legal :: "'o \<Rightarrow> 'a \<Rightarrow> bool" +
  fixes live :: "'s \<Rightarrow> addr set"
    and timers :: "'a \<Rightarrow> addr set"
    and arrives :: "'o \<Rightarrow> addr set"
    and leaves :: "'o \<Rightarrow> 'a \<Rightarrow> addr set"
  assumes live_rel: "rel s v \<Longrightarrow> live s = timers v"
    and timers_spec: "rel s v \<Longrightarrow> legal c v \<Longrightarrow>
      timers (spec c v) = (timers v \<union> arrives c) - leaves c v"
begin

fun gone :: "'o list \<Rightarrow> 'a \<Rightarrow> addr set" where
  "gone [] v = {}"
| "gone (c # cs) v = leaves c v \<union> gone cs (spec c v)"

lemma step_timers:
  assumes "rel s v" and "legal_run (c # cs) v"
  obtains t where "rel t (spec c v)" "legal_run cs (spec c v)"
    "timers (spec c v) = (timers v \<union> arrives c) - leaves c v"
  using assms sim timers_spec by fastforce

lemma run_live:
  assumes "rel s v" and "legal_run cs v"
  shows "\<exists>t. run_events exec cs s = Inr t \<and> rel t (fold spec cs v) \<and> live t = timers (fold spec cs v)"
  using run_sim[OF assms] live_rel by blast

text \<open>No object is lost: what existed or was made is either alive or was destroyed.\<close>

lemma run_no_leak:
  assumes "rel s v" and "legal_run cs v"
  shows "timers v \<union> (\<Union>c \<in> set cs. arrives c) \<subseteq> timers (fold spec cs v) \<union> gone cs v"
  using assms
proof (induction cs arbitrary: s v)
  case (Cons c cs)
  obtain t where "rel t (spec c v)" "legal_run cs (spec c v)"
    "timers (spec c v) = (timers v \<union> arrives c) - leaves c v"
    using Cons.prems by (rule step_timers)
  with Cons.IH[of t "spec c v"] show ?case by auto
qed simp

lemma run_nothing_new:
  assumes "rel s v" and "legal_run cs v"
  shows "timers (fold spec cs v) \<subseteq> timers v \<union> (\<Union>c \<in> set cs. arrives c)"
  using assms
proof (induction cs arbitrary: s v)
  case (Cons c cs)
  obtain t where "rel t (spec c v)" "legal_run cs (spec c v)"
    "timers (spec c v) = (timers v \<union> arrives c) - leaves c v"
    using Cons.prems by (rule step_timers)
  with Cons.IH[of t "spec c v"] show ?case by auto
qed simp

end

subsection \<open>Callbacks that are logged\<close>

text \<open>
  A callback is a function of the code, named by a number, applied to the client it was
  registered for. The interpretations run the containers with callbacks that record these
  two; \<open>fire\<close> of the containers is the same for any callback.
\<close>

type_synonym call_log = "(nat \<times> nat option) list"

definition log_call :: "nat \<Rightarrow> nat option \<Rightarrow> call_log \<Rightarrow> call_log res" where
  "log_call f u w = Inr (w @ [(f, u)])"

end
