(* ===== verification/Sort_Timer_List.thy ===== *)
theory Sort_Timer_List
  imports Dlist_Heap Timer_Store
begin

section \<open>The ascending timer list (\<open>linux_server/cpt_11_2_1.h\<close>)\<close>

text \<open>
  \<open>class Sort_timer_list\<close>: timers in a doubly linked list between \<open>_head\<close> and \<open>_tail\<close>,
  ascending by \<open>_expire\<close>. The state record holds the two pointers and the memory of the
  \<open>Util_timer\<close> objects; every operation is translated statement by statement, with a
  fault wherever the code would dereference a null or a dead pointer. The loops over
  \<open>_next\<close> carry fuel; the correctness lemmas say how much is enough (the number of
  timers), so they are statements about runs that return.

  A timer's callback is a number that names the function stored in the \<open>std::function\<close>
  member (\<open>None\<close> is the empty one); \<open>call\<close> says what each function does to the rest of
  the world. A callback does not touch the list, as \<open>cb_func\<close> of \<open>cpt_11_2_2.h\<close> does not.
\<close>

subsection \<open>Objects and state\<close>

record util_timer = dl_node +
  expire :: int
  m_callback :: "nat option"
  user_data :: "nat option"

definition new_util_timer :: "int \<Rightarrow> nat option \<Rightarrow> nat option \<Rightarrow> util_timer" where
  \<comment> \<open>the constructor clears the pointers; its callers write the other members\<close>
  "new_util_timer e cb u =
     \<lparr>nd_prev = None, nd_next = None, expire = e, m_callback = cb, user_data = u\<rparr>"

record sort_timer_list =
  mem :: "addr \<rightharpoonup> util_timer"
  head :: ptr
  tail :: ptr

definition Sort_timer_list :: "(addr \<rightharpoonup> util_timer) \<Rightarrow> sort_timer_list" where
  "Sort_timer_list m = \<lparr>mem = m, head = None, tail = None\<rparr>"

subsection \<open>Operations\<close>

fun insert_walk :: "nat \<Rightarrow> sort_timer_list \<Rightarrow> ptr \<Rightarrow> ptr \<Rightarrow> ptr \<Rightarrow> sort_timer_list res" where
  "insert_walk 0 s timer prev tmp = Inl Out_of_fuel"
| "insert_walk (Suc n) s timer prev tmp =
     (if tmp \<noteq> None then
        rbind (deref (mem s) timer) (\<lambda>t.
        rbind (deref (mem s) tmp) (\<lambda>x.
          if expire t < expire x then
            rbind (set_next (mem s) prev timer) (\<lambda>m1.
            rbind (set_prev m1 timer prev) (\<lambda>m2.
            rbind (set_next m2 timer tmp) (\<lambda>m3.
            rbind (set_prev m3 tmp timer) (\<lambda>m4.
              Inr (s\<lparr>mem := m4\<rparr>)))))
          else insert_walk n s timer tmp (nd_next x)))
      else
        rbind (set_next (mem s) prev timer) (\<lambda>m1.
        rbind (set_prev m1 timer prev) (\<lambda>m2.
        rbind (set_next m2 timer None) (\<lambda>m3.
          Inr (s\<lparr>mem := m3, tail := timer\<rparr>)))))"

definition add_timer_from :: "nat \<Rightarrow> sort_timer_list \<Rightarrow> ptr \<Rightarrow> ptr \<Rightarrow> sort_timer_list res" where
  \<comment> \<open>\<open>add_timer(timer, lst_head)\<close>\<close>
  "add_timer_from fuel s timer lst_head =
     rbind (deref (mem s) lst_head) (\<lambda>p. insert_walk fuel s timer lst_head (nd_next p))"

definition add_timer :: "nat \<Rightarrow> sort_timer_list \<Rightarrow> ptr \<Rightarrow> sort_timer_list res" where
  "add_timer fuel s timer =
     (if timer = None then Inr s
      else if head s = None then Inr (s\<lparr>head := timer, tail := timer\<rparr>)
      else
        rbind (deref (mem s) timer) (\<lambda>t.
        rbind (deref (mem s) (head s)) (\<lambda>h.
          if expire t < expire h then
            rbind (set_next (mem s) timer (head s)) (\<lambda>m1.
            rbind (set_prev m1 (head s) timer) (\<lambda>m2.
              Inr (s\<lparr>mem := m2, head := timer\<rparr>)))
          else add_timer_from fuel s timer (head s))))"

definition invoke :: "(nat \<Rightarrow> nat option \<Rightarrow> 'w \<Rightarrow> 'w res) \<Rightarrow> util_timer \<Rightarrow> 'w \<Rightarrow> 'w res" where
  "invoke call t w =
     (case m_callback t of None \<Rightarrow> Inl Bad_function_call | Some f \<Rightarrow> call f (user_data t) w)"

fun tick_loop :: "nat \<Rightarrow> (nat \<Rightarrow> nat option \<Rightarrow> 'w \<Rightarrow> 'w res) \<Rightarrow> int \<Rightarrow> ptr \<Rightarrow> sort_timer_list \<Rightarrow> 'w
    \<Rightarrow> (sort_timer_list \<times> 'w) res" where
  "tick_loop 0 call cur tmp s w = Inl Out_of_fuel"
| "tick_loop (Suc n) call cur tmp s w =
     (if tmp = None then Inr (s, w)
      else rbind (deref (mem s) tmp) (\<lambda>t.
        if cur < expire t then Inr (s, w)
        else
          rbind (invoke call t w) (\<lambda>w'.
          rbind (if nd_next t = None then Inr (mem s) else set_prev (mem s) (nd_next t) None) (\<lambda>m1.
          rbind (delete m1 tmp) (\<lambda>m2.
            tick_loop n call cur (nd_next t) (s\<lparr>mem := m2, head := nd_next t\<rparr>) w')))))"

definition tick :: "nat \<Rightarrow> (nat \<Rightarrow> nat option \<Rightarrow> 'w \<Rightarrow> 'w res) \<Rightarrow> int \<Rightarrow> sort_timer_list \<Rightarrow> 'w
    \<Rightarrow> (sort_timer_list \<times> 'w) res" where
  \<comment> \<open>\<open>cur\<close> is what \<open>time(nullptr)\<close> returns\<close>
  "tick fuel call cur s w =
     (if head s = None then Inr (s, w) else tick_loop fuel call cur (head s) s w)"

definition adjust_timer :: "nat \<Rightarrow> sort_timer_list \<Rightarrow> ptr \<Rightarrow> sort_timer_list res" where
  "adjust_timer fuel s timer =
     (if timer = None then Inr s
      else rbind (deref (mem s) timer) (\<lambda>t.
        if nd_next t = None then Inr s
        else rbind (deref (mem s) (nd_next t)) (\<lambda>x.
          if expire t < expire x then Inr s
          else if timer = head s then
            rbind (set_prev (mem s) (nd_next t) None) (\<lambda>m1.
            rbind (set_next m1 timer None) (\<lambda>m2.
              add_timer_from fuel (s\<lparr>mem := m2, head := nd_next t\<rparr>) timer (nd_next t)))
          else
            rbind (set_next (mem s) (nd_prev t) (nd_next t)) (\<lambda>m1.
            rbind (set_prev m1 (nd_next t) (nd_prev t)) (\<lambda>m2.
              add_timer_from fuel (s\<lparr>mem := m2\<rparr>) timer (nd_next t))))))"

definition del_timer :: "sort_timer_list \<Rightarrow> ptr \<Rightarrow> sort_timer_list res" where
  "del_timer s timer =
     (if timer = None then Inr s
      else if timer = head s \<and> timer = tail s then
        rbind (delete (mem s) timer) (\<lambda>m1. Inr (s\<lparr>mem := m1, head := None, tail := None\<rparr>))
      else if timer = head s then
        rbind (deref (mem s) (head s)) (\<lambda>h.
        rbind (set_prev (mem s) (nd_next h) None) (\<lambda>m1.
        rbind (delete m1 timer) (\<lambda>m2. Inr (s\<lparr>mem := m2, head := nd_next h\<rparr>))))
      else if timer = tail s then
        rbind (deref (mem s) (tail s)) (\<lambda>l.
        rbind (set_next (mem s) (nd_prev l) None) (\<lambda>m1.
        rbind (delete m1 timer) (\<lambda>m2. Inr (s\<lparr>mem := m2, tail := nd_prev l\<rparr>))))
      else
        rbind (deref (mem s) timer) (\<lambda>t.
        rbind (set_next (mem s) (nd_prev t) (nd_next t)) (\<lambda>m1.
        rbind (set_prev m1 (nd_next t) (nd_prev t)) (\<lambda>m2.
        rbind (delete m2 timer) (\<lambda>m3. Inr (s\<lparr>mem := m3\<rparr>))))))"

fun destroy_loop :: "nat \<Rightarrow> ptr \<Rightarrow> sort_timer_list \<Rightarrow> sort_timer_list res" where
  "destroy_loop 0 tmp s = Inl Out_of_fuel"
| "destroy_loop (Suc n) tmp s =
     (if tmp = None then Inr s
      else rbind (deref (mem s) tmp) (\<lambda>t.
        rbind (delete (mem s) tmp) (\<lambda>m1.
          destroy_loop n (nd_next t) (s\<lparr>mem := m1, head := nd_next t\<rparr>))))"

definition destroy :: "nat \<Rightarrow> sort_timer_list \<Rightarrow> sort_timer_list res" where
  \<comment> \<open>\<open>~Sort_timer_list()\<close>\<close>
  "destroy fuel s = destroy_loop fuel (head s) s"

subsection \<open>The abstract list\<close>

text \<open>
  \<open>tl_rep s as\<close>: the list of \<open>s\<close> holds the timers at \<open>as\<close>, in this order. \<open>_tail\<close> points
  to the last one unless the list is empty: \<open>tick\<close> leaves it dangling then, and the next
  \<open>add_timer\<close> overwrites it.
\<close>

definition tl_rep :: "sort_timer_list \<Rightarrow> addr list \<Rightarrow> bool" where
  "tl_rep s as \<longleftrightarrow>
     distinct as \<and> dseg (mem s) None as None \<and> head s = headp as None \<and>
     (as \<noteq> [] \<longrightarrow> tail s = Some (last as))"

definition key :: "(addr \<rightharpoonup> util_timer) \<Rightarrow> addr \<Rightarrow> int" where
  "key m a = expire (the (m a))"

definition insert_after :: "(addr \<Rightarrow> int) \<Rightarrow> addr \<Rightarrow> addr list \<Rightarrow> addr list" where
  \<comment> \<open>behind every timer that does not expire later: equal timers keep their order of arrival\<close>
  "insert_after k a as =
     takeWhile (\<lambda>b. \<not> k a < k b) as @ a # dropWhile (\<lambda>b. \<not> k a < k b) as"

definition ascending :: "sort_timer_list \<Rightarrow> addr list \<Rightarrow> bool" where
  "ascending s as \<longleftrightarrow> sorted (map (key (mem s)) as)"

subsection \<open>Keys, payloads and the insertion point\<close>

lemma more_expire: "dl_node.more (n :: util_timer) = dl_node.more n' \<Longrightarrow> expire n = expire n'"
  by (cases n; cases n') simp

lemma key_payload: "payload m a = payload m' a \<Longrightarrow> key m a = key m' a"
  by (cases "m a"; cases "m' a"; simp add: payload_def key_def; erule more_expire)

lemma key_payload_eq: "payload m = payload m' \<Longrightarrow> key m = key m'"
  by (rule ext, rule key_payload) simp

lemma key_pointer_update [simp]:
  "key (upd_prev m b q) = key m" "key (upd_next m b q) = key m"
  "key (link_between m xs a ys) = key m" "key (unlink m xs ys) = key m"
  by (rule key_payload_eq, simp)+

lemma key_Some [simp]: "m a = Some t \<Longrightarrow> key m a = expire t"
  by (simp add: key_def)

lemma insert_after_simps [simp]:
  "insert_after k a [] = [a]"
  "insert_after k a (b # bs) = (if k a < k b then a # b # bs else b # insert_after k a bs)"
  by (simp_all add: insert_after_def)

lemma set_insert_after [simp]: "set (insert_after k a as) = insert a (set as)"
  by (induction as) auto

lemma length_insert_after [simp]: "length (insert_after k a as) = Suc (length as)"
  by (induction as) auto

lemma distinct_insert_after: "distinct as \<Longrightarrow> a \<notin> set as \<Longrightarrow> distinct (insert_after k a as)"
  by (induction as) auto

lemma sorted_insert_after: "sorted (map k as) \<Longrightarrow> sorted (map k (insert_after k a as))"
  by (induction as) (auto simp: not_less)

lemma insert_after_append:
  "(\<forall>x \<in> set xs. \<not> k a < k x) \<Longrightarrow> insert_after k a (xs @ ys) = xs @ insert_after k a ys"
  by (induction xs) simp_all

lemma insert_after_cong:
  "k a = k' a \<Longrightarrow> (\<And>x. x \<in> set as \<Longrightarrow> k x = k' x) \<Longrightarrow> insert_after k a as = insert_after k' a as"
  by (induction as) auto

lemma insert_after_between:
  "(\<forall>x \<in> set xs. \<not> k a < k x) \<Longrightarrow> (\<forall>y \<in> set ys. k a < k y) \<Longrightarrow>
   insert_after k a (xs @ ys) = xs @ a # ys"
  using insert_after_append[of xs k a "[]"]
  by (cases ys) (simp_all add: insert_after_append)

subsection \<open>The insertion loop\<close>

lemma insert_walk_correct:
  assumes "dseg (mem s) None (xs @ p # ys) None" and "distinct (xs @ p # ys)"
    and "a \<notin> set (xs @ p # ys)" and "mem s a = Some t" and "length ys < fuel"
  shows "\<exists>us vs. ys = us @ vs \<and> insert_after (key (mem s)) a ys = us @ a # vs \<and>
    insert_walk fuel s (Some a) (Some p) (headp ys None) =
      Inr (s\<lparr>mem := link_between (mem s) (xs @ p # us) a vs,
             tail := (if vs = [] then Some a else tail s)\<rparr>)"
  using assms
proof (induction ys arbitrary: xs p fuel)
  case Nil
  then obtain n where fuel: "fuel = Suc n" by (cases fuel) auto
  have alloc: "mem s p \<noteq> None" "mem s a \<noteq> None" "p \<noteq> a"
    using Nil by (auto split: option.splits)
  then show ?case
    by (auto simp: fuel link_between_def)
next
  case (Cons y ys)
  then obtain n where fuel: "fuel = Suc n" by (cases fuel) auto
  obtain x where x: "mem s y = Some x" "nd_next x = headp ys None"
    using Cons.prems(1) by (auto split: option.splits)
  have alloc: "mem s p \<noteq> None" "mem s a \<noteq> None" "p \<noteq> a" "y \<noteq> a" "y \<noteq> p"
    using Cons.prems by (auto split: option.splits)
  show ?case
  proof (cases "expire t < expire x")
    case True
    with alloc x Cons.prems(4) show ?thesis
      by (intro exI[of _ "[]"] exI[of _ "y # ys"]) (auto simp: fuel link_between_def)
  next
    case False
    from Cons.IH[of "xs @ [p]" y n] Cons.prems fuel
    obtain us vs where 1: "ys = us @ vs" "insert_after (key (mem s)) a ys = us @ a # vs"
      and 2: "insert_walk n s (Some a) (Some y) (headp ys None) =
        Inr (s\<lparr>mem := link_between (mem s) ((xs @ [p]) @ y # us) a vs,
               tail := (if vs = [] then Some a else tail s)\<rparr>)"
      by auto
    from False x Cons.prems(4) 1 2 show ?thesis
      by (intro exI[of _ "y # us"] exI[of _ vs]) (auto simp: fuel)
  qed
qed

subsection \<open>Correctness of the operations\<close>

lemma add_timer_from_correct:
  assumes "dseg (mem s) None (xs @ p # ys) None" and "distinct (xs @ p # ys)"
    and "a \<notin> set (xs @ p # ys)" and "mem s a = Some t" and "length ys < fuel"
    and "tail s = lastp (Some p) ys"
  shows "\<exists>s'. add_timer_from fuel s (Some a) (Some p) = Inr s' \<and>
    dseg (mem s') None (xs @ p # insert_after (key (mem s)) a ys) None \<and>
    head s' = head s \<and> tail s' = lastp (Some p) (insert_after (key (mem s)) a ys) \<and>
    payload (mem s') = payload (mem s) \<and>
    (\<forall>b. b \<notin> set (a # xs @ p # ys) \<longrightarrow> mem s' b = mem s b)"
proof -
  obtain n where n: "mem s p = Some n" "nd_next n = headp ys None"
    using assms(1) by (auto split: option.splits)
  obtain us vs where ys: "ys = us @ vs" "insert_after (key (mem s)) a ys = us @ a # vs"
    and w: "insert_walk fuel s (Some a) (Some p) (headp ys None) =
      Inr (s\<lparr>mem := link_between (mem s) (xs @ p # us) a vs,
             tail := (if vs = [] then Some a else tail s)\<rparr>)"
    using insert_walk_correct[OF assms(1-5)] by blast
  have d: "dseg (link_between (mem s) (xs @ p # us) a vs) None ((xs @ p # us) @ a # vs) None"
    using assms ys(1) by (intro dseg_link_between) auto
  have f: "\<forall>b. b \<notin> set (a # xs @ p # ys) \<longrightarrow>
      link_between (mem s) (xs @ p # us) a vs b = mem s b"
    using ys(1) by (auto intro: link_between_other)
  have t: "(if vs = [] then Some a else tail s) = lastp (Some p) (us @ a # vs)"
    using assms(6) ys(1) by (simp add: lastp_def)
  from n w d f t ys(2) show ?thesis
    by (simp add: add_timer_from_def del: dseg.simps(2) dseg_append)
qed

lemma add_timer_correct:
  assumes "tl_rep s as" and "a \<notin> set as" and "mem s a = Some t"
    and "nd_prev t = None" "nd_next t = None" and "length as \<le> fuel"
  shows "\<exists>s'. add_timer fuel s (Some a) = Inr s' \<and> tl_rep s' (insert_after (key (mem s)) a as) \<and>
    payload (mem s') = payload (mem s) \<and>
    (\<forall>b. b \<notin> set (a # as) \<longrightarrow> mem s' b = mem s b)"
proof (cases as)
  case Nil
  with assms show ?thesis
    by (auto simp: add_timer_def tl_rep_def)
next
  case (Cons p ys)
  note as = Cons
  then obtain x where x: "mem s p = Some x" and pa: "p \<noteq> a"
    using assms(1,2) by (auto simp: tl_rep_def split: option.splits)
  show ?thesis
  proof (cases "expire t < expire x")
    case True
    have "dseg (link_between (mem s) [] a as) None ([] @ a # as) None"
      using assms as by (intro dseg_link_between) (auto simp: tl_rep_def)
    moreover have "link_between (mem s) [] a as = upd_prev (upd_next (mem s) a (Some p)) p (Some a)"
      using assms(3,4) as by (simp add: link_between_def upd_same)
    ultimately show ?thesis
      using True assms x as pa by (auto simp: add_timer_def tl_rep_def simp del: dseg.simps)
  next
    case False
    from assms as have "dseg (mem s) None ([] @ p # ys) None" "distinct ([] @ p # ys)"
      "a \<notin> set ([] @ p # ys)" "length ys < fuel" "tail s = lastp (Some p) ys" "head s = Some p"
      by (auto simp: tl_rep_def lastp_def)
    with add_timer_from_correct[of s "[]" p ys a t fuel] assms(3) False x as assms(1,2)
    show ?thesis
      by (auto simp: add_timer_def tl_rep_def distinct_insert_after lastp_def
          simp del: dseg.simps dseg_append split: if_splits)
  qed
qed

lemma lastp_None_Some: "xs \<noteq> [] \<Longrightarrow> lastp p xs = Some (last xs)"
  by (simp add: lastp_def)

lemma unlink_Cons:
  "unlink h [] (y # ys) = upd_prev h y None"
  "xs \<noteq> [] \<Longrightarrow> unlink h xs (y # ys) = upd_prev (upd_next h (last xs) (Some y)) y (Some (last xs))"
  "unlink h [] [] = h"
  "xs \<noteq> [] \<Longrightarrow> unlink h xs [] = upd_next h (last xs) None"
  by (simp_all add: unlink_def lastp_def)

lemma tl_rep_head_iff: "tl_rep s (xs @ a # ys) \<Longrightarrow> head s = Some a \<longleftrightarrow> xs = []"
  by (cases xs) (auto simp: tl_rep_def)

lemma tl_rep_tail_iff: "tl_rep s (xs @ a # ys) \<Longrightarrow> tail s = Some a \<longleftrightarrow> ys = []"
  by (cases ys rule: rev_cases) (auto simp: tl_rep_def)

lemma tl_rep_alloc: "tl_rep s as \<Longrightarrow> b \<in> set as \<Longrightarrow> \<exists>t. mem s b = Some t"
  using dseg_alloc by (fastforce simp: tl_rep_def)

text \<open>What both branches of \<open>adjust_timer\<close> do once the timer is taken out.\<close>

lemma reinsert_correct:
  assumes "dseg (mem s) None (xs @ p # ys) None" and "distinct (xs @ p # ys)"
    and "a \<notin> set (xs @ p # ys)" and "mem s a = Some t" and "length ys < fuel"
    and "tail s = lastp (Some p) ys" and "head s = headp (xs @ p # ys) None"
    and "\<forall>x \<in> set (xs @ [p]). \<not> key (mem s) a < key (mem s) x"
  shows "\<exists>s'. add_timer_from fuel s (Some a) (Some p) = Inr s' \<and>
    tl_rep s' (insert_after (key (mem s)) a (xs @ p # ys)) \<and> payload (mem s') = payload (mem s) \<and>
    (\<forall>b. b \<notin> set (a # xs @ p # ys) \<longrightarrow> mem s' b = mem s b)"
proof -
  have eq: "insert_after (key (mem s)) a (xs @ p # ys) = xs @ p # insert_after (key (mem s)) a ys"
    using assms(8) by (simp add: insert_after_append)
  have dist: "distinct (xs @ p # insert_after (key (mem s)) a ys)"
    using assms(2,3) by (auto simp: distinct_insert_after)
  obtain s' where s': "add_timer_from fuel s (Some a) (Some p) = Inr s'"
    "dseg (mem s') None (xs @ p # insert_after (key (mem s)) a ys) None"
    "head s' = head s" "tail s' = lastp (Some p) (insert_after (key (mem s)) a ys)"
    "payload (mem s') = payload (mem s)"
    "\<forall>b. b \<notin> set (a # xs @ p # ys) \<longrightarrow> mem s' b = mem s b"
    using add_timer_from_correct[OF assms(1-6)] by blast
  have "tl_rep s' (insert_after (key (mem s)) a (xs @ p # ys))"
    unfolding eq tl_rep_def using s'(2-4) dist assms(7)
    by (simp add: lastp_def del: dseg.simps dseg_append)
  with s' show ?thesis by blast
qed

text \<open>The list without the timer \<open>a\<close> that \<open>adjust_timer\<close> inserts again.\<close>

definition detached :: "sort_timer_list \<Rightarrow> addr list \<Rightarrow> addr \<Rightarrow> addr list \<Rightarrow> sort_timer_list" where
  "detached s xs a ys =
     s\<lparr>mem := (if xs = [] then upd_next (unlink (mem s) xs ys) a None else unlink (mem s) xs ys),
       head := headp (xs @ ys) None\<rparr>"

lemma detached_payload: "payload (mem (detached s xs a ys)) = payload (mem s)"
  by (simp add: detached_def)

lemma adjust_detaches:
  assumes rep: "tl_rep s (xs @ a # y # zs)" and t: "mem s a = Some t" "mem s y = Some x" and later: "\<not> expire t < expire x"
  shows "adjust_timer fuel s (Some a) = add_timer_from fuel (detached s xs a (y # zs)) (Some a) (Some y)"
proof -
  have d: "dseg (mem s) None (xs @ a # y # zs) None" and ay: "a \<noteq> y" "y \<notin> set xs" "a \<notin> set zs" "a \<notin> set xs"
    using rep by (auto simp: tl_rep_def)
  obtain t0 where "mem s a = Some t0" "nd_prev t0 = lastp None xs" "nd_next t0 = headp (y # zs) None"
    using d by (rule dseg_at)
  then have t': "nd_prev t = lastp None xs" "nd_next t = Some y"
    using t(1) by auto
  show ?thesis
  proof (cases "xs = []")
    case True
    with later t t' rep ay show ?thesis
      by (simp add: adjust_timer_def detached_def unlink_Cons tl_rep_def)
  next
    case xs: False
    then have head: "detached s xs a (y # zs) = s\<lparr>mem := unlink (mem s) xs (y # zs)\<rparr>"
      using rep by (cases s; cases xs) (simp_all add: detached_def tl_rep_def)
    from xs have "mem s (last xs) \<noteq> None" using dseg_alloc[OF d, of "last xs"] by simp
    with xs later t t' ay tl_rep_head_iff[OF rep] show ?thesis
      by (simp add: adjust_timer_def head unlink_Cons lastp_None_Some del: not_None_eq)
  qed
qed

lemma detached_rep:
  assumes rep: "tl_rep s (xs @ a # y # zs)"
  shows "dseg (mem (detached s xs a (y # zs))) None (xs @ y # zs) None"
    and "tail (detached s xs a (y # zs)) = lastp (Some y) zs"
    and "b \<notin> set (xs @ a # y # zs) \<Longrightarrow> mem (detached s xs a (y # zs)) b = mem s b"
    and "mem s a \<noteq> None \<Longrightarrow> mem (detached s xs a (y # zs)) a \<noteq> None"
proof -
  have d: "dseg (mem s) None (xs @ a # y # zs) None" and dist: "distinct (xs @ a # y # zs)"
    using rep by (simp_all add: tl_rep_def)
  have "dseg (unlink (mem s) xs (y # zs)) None (xs @ y # zs) None" by (rule dseg_unlink[OF d dist])
  then show "dseg (mem (detached s xs a (y # zs))) None (xs @ y # zs) None"
    using dist by (cases "xs = []") (simp_all add: detached_def del: dseg.simps(2))
  show "tail (detached s xs a (y # zs)) = lastp (Some y) zs"
    using rep by (simp add: detached_def tl_rep_def lastp_def)
  show "b \<notin> set (xs @ a # y # zs) \<Longrightarrow> mem (detached s xs a (y # zs)) b = mem s b"
    by (auto simp: detached_def unlink_other)
  show "mem s a \<noteq> None \<Longrightarrow> mem (detached s xs a (y # zs)) a \<noteq> None"
    by (simp add: detached_def del: not_None_eq)
qed

lemma adjust_timer_correct:
  assumes rep: "tl_rep s (xs @ a # ys)" and before: "\<forall>x \<in> set xs. \<not> key (mem s) a < key (mem s) x"
    and fuel: "length ys \<le> fuel"
  shows "\<exists>s'. adjust_timer fuel s (Some a) = Inr s' \<and>
    tl_rep s' (insert_after (key (mem s)) a (xs @ ys)) \<and> payload (mem s') = payload (mem s) \<and>
    (\<forall>b. b \<notin> set (xs @ a # ys) \<longrightarrow> mem s' b = mem s b)"
proof -
  have d: "dseg (mem s) None (xs @ a # ys) None" and dist: "distinct (xs @ a # ys)"
    using rep by (simp_all add: tl_rep_def)
  obtain t where t: "mem s a = Some t" "nd_prev t = lastp None xs" "nd_next t = headp ys None"
    using d by (rule dseg_at)
  show ?thesis
  proof (cases ys)
    case Nil
    with t rep before insert_after_between[of xs "key (mem s)" a "[]"] show ?thesis
      by (auto simp: adjust_timer_def)
  next
    case (Cons y zs)
    then have "dseg (mem s) None ((xs @ [a]) @ y # zs) None" using d by simp
    then obtain x where x: "mem s y = Some x" by (rule dseg_at)
    show ?thesis
    proof (cases "expire t < expire x")
      case True
      have "insert_after (key (mem s)) a (xs @ ys) = xs @ a # ys"
        using True t x before Cons by (simp add: insert_after_append)
      with True t x Cons rep show ?thesis by (auto simp: adjust_timer_def)
    next
      case False
      let ?s2 = "detached s xs a (y # zs)"
      note rep2 = detached_rep[OF rep[unfolded Cons]]
      have k: "key (mem ?s2) = key (mem s)" using key_payload_eq[OF detached_payload] .
      obtain t2 where t2: "mem ?s2 a = Some t2" using rep2(4) t(1) by auto
      have "\<forall>z \<in> set (xs @ [y]). \<not> key (mem ?s2) a < key (mem ?s2) z" using before False t x by (auto simp: k)
      then obtain s' where s': "add_timer_from fuel ?s2 (Some a) (Some y) = Inr s'"
        "tl_rep s' (insert_after (key (mem ?s2)) a (xs @ y # zs))" "payload (mem s') = payload (mem ?s2)"
        "\<forall>b. b \<notin> set (a # xs @ y # zs) \<longrightarrow> mem s' b = mem ?s2 b"
        using reinsert_correct[OF rep2(1) _ _ t2 _ rep2(2), of fuel] dist fuel Cons by (auto simp: detached_def)
      then show ?thesis
        using adjust_detaches[OF rep[unfolded Cons] t(1) x False, of fuel] k rep2(3) Cons detached_payload[of s xs a ys]
        by (intro exI[of _ s']) auto
    qed
  qed
qed

lemma del_timer_correct:
  assumes rep: "tl_rep s (xs @ a # ys)"
  shows "\<exists>s'. del_timer s (Some a) = Inr s' \<and> tl_rep s' (xs @ ys) \<and>
    mem s' = (unlink (mem s) xs ys)(a := None)"
proof -
  have d: "dseg (mem s) None (xs @ a # ys) None" and dist: "distinct (xs @ a # ys)"
    using rep by (simp_all add: tl_rep_def)
  obtain t where t: "mem s a = Some t" "nd_prev t = lastp None xs" "nd_next t = headp ys None"
    using d by (rule dseg_at)
  let ?m = "(unlink (mem s) xs ys)(a := None)"
  let ?s' = "\<lparr>mem = ?m, head = headp (xs @ ys) None,
    tail = (if ys = [] then (if xs = [] then None else Some (last xs)) else tail s)\<rparr>"
  have ht: "head s = Some a \<longleftrightarrow> xs = []" "tail s = Some a \<longleftrightarrow> ys = []"
    using tl_rep_head_iff[OF rep] tl_rep_tail_iff[OF rep] by auto
  have lx: "xs \<noteq> [] \<Longrightarrow> mem s (last xs) \<noteq> None" "xs \<noteq> [] \<Longrightarrow> a \<noteq> last xs"
    using dseg_alloc[OF d, of "last xs"] dist by auto
  have hy: "ys \<noteq> [] \<Longrightarrow> mem s (hd ys) \<noteq> None" "ys \<noteq> [] \<Longrightarrow> a \<noteq> hd ys"
    using dseg_alloc[OF d, of "hd ys"] dist by (cases ys; auto)+
  obtain u where "unlink (mem s) xs ys a = Some u"
    using t(1) by (metis not_Some_eq unlink_None_iff)
  then have um: "delete (unlink (mem s) xs ys) (Some a) = Inr ?m" by simp
  have heads: "head s = headp xs (Some a)" using rep by (simp add: tl_rep_def)
  have "del_timer s (Some a) = Inr ?s'"
    using t lx hy um ht heads
    by (cases s; cases "xs = []"; cases ys)
      (auto simp: del_timer_def unlink_Cons lastp_def headp_nonempty)
  moreover have "dseg ?m None (xs @ ys) None"
    using dseg_unlink[OF d dist] dist by (auto simp del: dseg_append)
  ultimately show ?thesis
    using dist rep by (auto simp: tl_rep_def simp del: dseg_append headp_append)
qed

subsection \<open>Expiry\<close>

definition expired :: "(addr \<rightharpoonup> util_timer) \<Rightarrow> int \<Rightarrow> addr list \<Rightarrow> addr list" where
  "expired m cur as = takeWhile (\<lambda>a. \<not> cur < key m a) as"

definition pending :: "(addr \<rightharpoonup> util_timer) \<Rightarrow> int \<Rightarrow> addr list \<Rightarrow> addr list" where
  "pending m cur as = dropWhile (\<lambda>a. \<not> cur < key m a) as"

definition fire :: "(nat \<Rightarrow> nat option \<Rightarrow> 'w \<Rightarrow> 'w res) \<Rightarrow> (addr \<rightharpoonup> util_timer) \<Rightarrow> addr list \<Rightarrow> 'w \<Rightarrow> 'w res" where
  \<comment> \<open>the callbacks of the timers at \<open>as\<close>, one after the other\<close>
  "fire call m as w = run_events (\<lambda>a. invoke call (the (m a))) as w"

lemma expired_Cons:
  "expired m cur (a # as) = (if cur < key m a then [] else a # expired m cur as)"
  "pending m cur (a # as) = (if cur < key m a then a # as else pending m cur as)"
  by (simp_all add: expired_def pending_def)

lemma expired_Nil [simp]: "expired m cur [] = []" "pending m cur [] = []"
  by (simp_all add: expired_def pending_def)

lemma expired_pending: "expired m cur as @ pending m cur as = as"
  by (simp add: expired_def pending_def)

lemma expired_sorted:
  "sorted (map (key m) as) \<Longrightarrow> set (expired m cur as) = {a \<in> set as. key m a \<le> cur}"
  by (induction as) (auto simp: expired_Cons)

lemma pending_sorted:
  "sorted (map (key m) as) \<Longrightarrow> set (pending m cur as) = {a \<in> set as. cur < key m a}"
  by (induction as) (auto simp: expired_Cons)

lemma invoke_more:
  "dl_node.more t = dl_node.more t' \<Longrightarrow> invoke call t w = invoke call t' w"
  by (cases t; cases t') (simp add: invoke_def split: option.splits)

lemma invoke_payload: "payload m a = payload m' a \<Longrightarrow> invoke call (the (m a)) w = invoke call (the (m' a)) w"
  by (cases "m a"; cases "m' a"; simp add: payload_def; erule invoke_more)

lemma fire_cong:
  "(\<And>a. a \<in> set as \<Longrightarrow> payload m a = payload m' a) \<Longrightarrow> fire call m as w = fire call m' as w"
proof (induction as arbitrary: w)
  case (Cons a as)
  then show ?case using invoke_payload[of m a m' call w]
    by (auto simp: fire_def intro!: rbind_cong)
qed (simp add: fire_def)

lemma expired_cong:
  "(\<And>a. a \<in> set as \<Longrightarrow> payload m a = payload m' a) \<Longrightarrow>
   expired m cur as = expired m' cur as \<and> pending m cur as = pending m' cur as"
proof (induction as)
  case (Cons a as)
  then have "key m a = key m' a" by (intro key_payload) simp
  with Cons show ?case by (simp add: expired_Cons)
qed simp

lemma tick_loop_correct:
  assumes "tl_rep s as" and "length as < fuel" and "fire call (mem s) (expired (mem s) cur as) w = Inr w'"
  shows "\<exists>s'. tick_loop fuel call cur (head s) s w = Inr (s', w') \<and>
    tl_rep s' (pending (mem s) cur as) \<and>
    (\<forall>a. payload (mem s') a = (if a \<in> set (expired (mem s) cur as) then None else payload (mem s) a))"
  using assms
proof (induction as arbitrary: s w fuel)
  case Nil
  then obtain n where fuel: "fuel = Suc n" by (cases fuel) auto
  from Nil show ?case by (auto simp: fuel tl_rep_def fire_def)
next
  case (Cons a as)
  then obtain n where fuel: "fuel = Suc n" by (cases fuel) auto
  have d: "dseg (mem s) None ([] @ a # as) None" and h: "head s = Some a" and dist: "distinct (a # as)"
    using Cons.prems(1) by (simp_all add: tl_rep_def)
  obtain t where t: "mem s a = Some t" "nd_next t = headp as None"
    using d by (rule dseg_at)
  show ?case
  proof (cases "cur < expire t")
    case True
    with Cons.prems t h show ?thesis
      by (auto simp: fuel expired_Cons fire_def)
  next
    case False
    let ?m = "(unlink (mem s) [] as)(a := None)"
    define s1 where "s1 = s\<lparr>mem := ?m, head := headp as None\<rparr>"
    from Cons.prems(3) False t obtain w1 where w1: "invoke call t w = Inr w1"
      and fr: "fire call (mem s) (expired (mem s) cur as) w1 = Inr w'"
      by (auto simp: fire_def expired_Cons)
    obtain u where u: "unlink (mem s) [] as a = Some u"
      using t(1) by (metis not_Some_eq unlink_None_iff)
    have alloc: "as = b # bs \<Longrightarrow> mem s b \<noteq> None" for b bs
      using dseg_alloc[OF d, of b] by simp
    have step: "tick_loop fuel call cur (head s) s w = tick_loop n call cur (head s1) s1 w1"
      using False t w1 u h alloc
      by (cases as) (auto simp: fuel unlink_Cons s1_def)
    have "dseg (unlink (mem s) [] as) None ([] @ as) None"
      using dseg_unlink[OF d] dist by simp
    then have rep1: "tl_rep s1 as"
      using dist Cons.prems(1) by (auto simp: s1_def tl_rep_def simp del: dseg.simps)
    have pay: "payload (mem s1) b = (if b = a then None else payload (mem s) b)" for b
      by (simp add: s1_def)
    then have eqs: "b \<in> set as \<Longrightarrow> payload (mem s1) b = payload (mem s) b" for b
      using dist by auto
    note ex = expired_cong[OF eqs, of as cur]
    have "set (expired (mem s) cur as) \<subseteq> set as"
      by (auto simp: expired_def dest: set_takeWhileD)
    then have "fire call (mem s1) (expired (mem s1) cur as) w1 = Inr w'"
      using fr ex eqs fire_cong[of "expired (mem s) cur as" "mem s1" "mem s" call w1] by auto
    with Cons.IH[OF rep1, of n w1] Cons.prems(2) fuel obtain s' where
      "tick_loop n call cur (head s1) s1 w1 = Inr (s', w')" "tl_rep s' (pending (mem s1) cur as)"
      "\<forall>b. payload (mem s') b = (if b \<in> set (expired (mem s1) cur as) then None else payload (mem s1) b)"
      by auto
    with False t step ex pay show ?thesis
      by (intro exI[of _ s']) (auto simp: expired_Cons)
  qed
qed

lemma tick_correct:
  assumes "tl_rep s as" and "length as < fuel"
    and "fire call (mem s) (expired (mem s) cur as) w = Inr w'"
  shows "\<exists>s'. tick fuel call cur s w = Inr (s', w') \<and> tl_rep s' (pending (mem s) cur as) \<and>
    (\<forall>a. payload (mem s') a = (if a \<in> set (expired (mem s) cur as) then None else payload (mem s) a))"
proof (cases "head s = None")
  case True
  then have "as = []" using assms(1) by (cases as) (simp_all add: tl_rep_def)
  with True assms show ?thesis by (auto simp: tick_def fire_def)
next
  case False
  then have "tick fuel call cur s w = tick_loop fuel call cur (head s) s w"
    by (simp only: tick_def if_False)
  with tick_loop_correct[OF assms] show ?thesis by (simp only:)
qed

lemma destroy_loop_correct:
  assumes "dseg (mem s) p as None" and "distinct as" and "head s = headp as None" and "length as < fuel"
  shows "\<exists>s'. destroy_loop fuel (head s) s = Inr s' \<and> head s' = None \<and>
    (\<forall>a. mem s' a = (if a \<in> set as then None else mem s a))"
  using assms
proof (induction as arbitrary: s p fuel)
  case Nil
  then obtain n where "fuel = Suc n" by (cases fuel) auto
  with Nil show ?case by simp
next
  case (Cons a as)
  then obtain n where fuel: "fuel = Suc n" by (cases fuel) auto
  obtain t where t: "mem s a = Some t" "nd_next t = headp as None" "dseg (mem s) (Some a) as None"
    using Cons.prems(1) by (auto split: option.splits)
  let ?s1 = "s\<lparr>mem := (mem s)(a := None), head := headp as None\<rparr>"
  have "dseg (mem ?s1) (Some a) as None"
    using t(3) Cons.prems(2) dseg_frame[of a as "mem s" None "Some a" None] by simp
  with Cons.IH[of ?s1 "Some a" n] Cons.prems(2,4) fuel obtain s' where
    "destroy_loop n (head ?s1) ?s1 = Inr s'" "head s' = None"
    "\<forall>b. mem s' b = (if b \<in> set as then None else mem ?s1 b)" by fastforce
  with t Cons.prems(3) show ?case by (intro exI[of _ s']) (auto simp: fuel)
qed

subsection \<open>Histories of operations\<close>

text \<open>
  How the list is used (by \<open>cpt_11_2_2.h\<close>): a timer is made with \<open>new Util_timer\<close>, its
  members are written and it is added; its \<open>_expire\<close> is moved and it is adjusted; it is
  deleted; the list is ticked. \<open>new\<close> returns an address, which is an argument here.
\<close>

datatype tl_op =
    Add addr int "nat option" "nat option"
  | Postpone addr int
  | Remove addr
  | Expire int

fun tl_exec :: "nat \<Rightarrow> (nat \<Rightarrow> nat option \<Rightarrow> 'w \<Rightarrow> 'w res) \<Rightarrow> tl_op \<Rightarrow> sort_timer_list \<times> 'w
    \<Rightarrow> (sort_timer_list \<times> 'w) res" where
  "tl_exec N call (Add a e cb u) (s, w) =
     rbind (add_timer N (s\<lparr>mem := (mem s)(a \<mapsto> new_util_timer e cb u)\<rparr>) (Some a)) (\<lambda>s'. Inr (s', w))"
| "tl_exec N call (Postpone a e) (s, w) =
     rbind (store (mem s) (Some a) (\<lambda>t. t\<lparr>expire := e\<rparr>)) (\<lambda>m.
     rbind (adjust_timer N (s\<lparr>mem := m\<rparr>) (Some a)) (\<lambda>s'. Inr (s', w)))"
| "tl_exec N call (Remove a) (s, w) = rbind (del_timer s (Some a)) (\<lambda>s'. Inr (s', w))"
| "tl_exec N call (Expire cur) (s, w) = tick (Suc N) call cur s w"

text \<open>The specification: a list of timers ascending by the time of expiry.\<close>

datatype timer_view =
  Timer (t_id: addr) (t_expire: int) (t_call: "nat option") (t_data: "nat option")

definition view :: "(addr \<rightharpoonup> util_timer) \<Rightarrow> addr \<Rightarrow> timer_view" where
  "view m a = Timer a (expire (the (m a))) (m_callback (the (m a))) (user_data (the (m a)))"

fun insert_timer :: "timer_view \<Rightarrow> timer_view list \<Rightarrow> timer_view list" where
  "insert_timer v [] = [v]"
| "insert_timer v (u # us) = (if t_expire v < t_expire u then v # u # us else u # insert_timer v us)"

fun tl_spec :: "tl_op \<Rightarrow> timer_view list \<Rightarrow> timer_view list" where
  "tl_spec (Add a e cb u) vs = insert_timer (Timer a e cb u) vs"
| "tl_spec (Postpone a e) vs =
     fold (\<lambda>v. insert_timer (Timer a e (t_call v) (t_data v))) (filter (\<lambda>v. t_id v = a) vs)
       (filter (\<lambda>v. t_id v \<noteq> a) vs)"
| "tl_spec (Remove a) vs = filter (\<lambda>v. t_id v \<noteq> a) vs"
| "tl_spec (Expire cur) vs = filter (\<lambda>v. cur < t_expire v) vs"

fun tl_legal :: "nat \<Rightarrow> tl_op \<Rightarrow> timer_view list \<Rightarrow> bool" where
  \<comment> \<open>at most \<open>N\<close> timers; \<open>new\<close> returns no live address; a timer is only postponed\<close>
  "tl_legal N (Add a e cb u) vs \<longleftrightarrow> length vs < N \<and> a \<notin> t_id ` set vs \<and> cb \<noteq> None"
| "tl_legal N (Postpone a e) vs \<longleftrightarrow> (\<exists>v \<in> set vs. t_id v = a \<and> t_expire v \<le> e)"
| "tl_legal N (Remove a) vs \<longleftrightarrow> a \<in> t_id ` set vs"
| "tl_legal N (Expire cur) vs \<longleftrightarrow> True"

definition tl_rel :: "nat \<Rightarrow> sort_timer_list \<times> 'w \<Rightarrow> timer_view list \<Rightarrow> bool" where
  "tl_rel N sw vs \<longleftrightarrow>
     (\<exists>as. tl_rep (fst sw) as \<and> dom (mem (fst sw)) = set as \<and> vs = map (view (mem (fst sw))) as) \<and>
     sorted (map t_expire vs) \<and> length vs \<le> N \<and> (\<forall>v \<in> set vs. t_call v \<noteq> None)"

definition calls_return :: "(nat \<Rightarrow> nat option \<Rightarrow> 'w \<Rightarrow> 'w res) \<Rightarrow> bool" where
  "calls_return call \<longleftrightarrow> (\<forall>f u w. \<exists>w'. call f u w = Inr w')"

subsection \<open>The list follows its specification\<close>

lemma view_more:
  "dl_node.more (t :: util_timer) = dl_node.more t' \<Longrightarrow>
   Timer a (expire t) (m_callback t) (user_data t) = Timer a (expire t') (m_callback t') (user_data t')"
  by (cases t; cases t') simp

lemma view_payload: "payload m a = payload m' a \<Longrightarrow> view m a = view m' a"
  by (cases "m a"; cases "m' a"; simp add: payload_def view_def; drule view_more; simp)

lemma view_payload_map:
  "(\<And>a. a \<in> set as \<Longrightarrow> payload m a = payload m' a) \<Longrightarrow> map (view m) as = map (view m') as"
  by (auto intro: view_payload)

lemma view_sel [simp]:
  "t_id (view m a) = a" "t_expire (view m a) = key m a" "t_call (view m a) = m_callback (the (m a))"
  "t_data (view m a) = user_data (the (m a))"
  by (simp_all add: view_def key_def)

lemma map_view_ids [simp]: "map (t_id \<circ> view m) as = as" "t_id ` view m ` A = A"
  by (simp_all add: comp_def image_comp)

lemma map_view_insert_after:
  "map (view m) (insert_after (key m) a as) = insert_timer (view m a) (map (view m) as)"
  by (induction as) auto

lemma set_insert_timer [simp]: "set (insert_timer v vs) = insert v (set vs)"
  by (induction vs) auto

lemma length_insert_timer [simp]: "length (insert_timer v vs) = Suc (length vs)"
  by (induction vs) auto

lemma sorted_insert_timer: "sorted (map t_expire vs) \<Longrightarrow> sorted (map t_expire (insert_timer v vs))"
  by (induction vs) auto

lemma dom_payload: "dom (payload m) = dom m"
  by (auto simp: dom_def)

lemma dom_payload_eq: "payload m = payload m' \<Longrightarrow> dom m = dom m'"
  by (metis dom_payload)

lemma filter_ids:
  "distinct (xs @ a # ys) \<Longrightarrow>
   filter (\<lambda>v. t_id v \<noteq> a) (map (view m) (xs @ a # ys)) = map (view m) (xs @ ys) \<and>
   filter (\<lambda>v. t_id v = a) (map (view m) (xs @ a # ys)) = [view m a]"
  by (simp add: filter_map comp_def filter_absent)

lemma sorted_map_remove:
  "sorted (map f (xs @ a # ys)) \<Longrightarrow> sorted (map f (xs @ ys))"
  by (auto simp: sorted_append)

lemma tl_rep_store:
  assumes "tl_rep s as" and "m a = None \<or> a \<notin> set as"
    and "\<And>b. b \<in> set as \<Longrightarrow> m b = mem s b"
  shows "tl_rep (s\<lparr>mem := m\<rparr>) as"
  using assms dseg_cong[of as m "mem s"] by (auto simp: tl_rep_def)

lemma add_sim:
  assumes rel: "tl_rel N (s, w) vs" and legal: "tl_legal N (Add a e cb u) vs"
  shows "\<exists>t. tl_exec N call (Add a e cb u) (s, w) = Inr t \<and> tl_rel N t (tl_spec (Add a e cb u) vs)"
proof -
  obtain as where rep: "tl_rep s as" and dom: "dom (mem s) = set as" and vs: "vs = map (view (mem s)) as"
    and sorted: "sorted (map t_expire vs)"
    using rel by (auto simp: tl_rel_def)
  let ?n = "new_util_timer e cb u" and ?s = "s\<lparr>mem := (mem s)(a \<mapsto> new_util_timer e cb u)\<rparr>"
  have a: "a \<notin> set as" and len: "length as < N" using legal by (auto simp: vs)
  have "tl_rep ?s as" using rep a by (intro tl_rep_store[where a = a]) auto
  with a len obtain s' where s': "add_timer N ?s (Some a) = Inr s'"
    "tl_rep s' (insert_after (key (mem ?s)) a as)" "payload (mem s') = payload (mem ?s)"
    using add_timer_correct[of ?s as a ?n N] by (auto simp: new_util_timer_def)
  have pay: "b \<in> set as \<Longrightarrow> payload (mem ?s) b = payload (mem s) b" for b
    using a by (auto simp: payload_def)
  have "map (view (mem s')) (insert_after (key (mem ?s)) a as) = insert_timer (view (mem ?s) a) (map (view (mem ?s)) as)"
    using view_payload_map[of _ "mem s'" "mem ?s"] s'(3) by (simp only: map_view_insert_after)
  also have "\<dots> = insert_timer (Timer a e cb u) vs"
  proof -
    have "view (mem ?s) a = Timer a e cb u" by (simp add: view_def new_util_timer_def)
    then show ?thesis using view_payload_map[OF pay, of as] by (simp only: vs)
  qed
  finally have "tl_spec (Add a e cb u) vs = map (view (mem s')) (insert_after (key (mem ?s)) a as)"
    by simp
  moreover have "dom (mem s') = set (insert_after (key (mem ?s)) a as)"
    using dom_payload_eq[OF s'(3)] dom by simp
  moreover have "sorted (map t_expire (tl_spec (Add a e cb u) vs))"
    using sorted by (simp add: sorted_insert_timer)
  moreover have "\<forall>v \<in> set (tl_spec (Add a e cb u) vs). t_call v \<noteq> None"
    using rel legal by (auto simp: tl_rel_def)
  moreover have "length (tl_spec (Add a e cb u) vs) \<le> N"
    using len by (simp add: vs)
  ultimately have "tl_rel N (s', w) (tl_spec (Add a e cb u) vs)"
    using s'(2) unfolding tl_rel_def fst_conv by blast
  with s'(1) show ?thesis by simp
qed

lemma remove_sim:
  assumes rel: "tl_rel N (s, w) vs" and legal: "tl_legal N (Remove a) vs"
  shows "\<exists>t. tl_exec N call (Remove a) (s, w) = Inr t \<and> tl_rel N t (tl_spec (Remove a) vs)"
proof -
  obtain as where rep: "tl_rep s as" and dom: "dom (mem s) = set as" and vs: "vs = map (view (mem s)) as"
    and sorted: "sorted (map t_expire vs)"
    using rel by (auto simp: tl_rel_def)
  obtain xs ys where as: "as = xs @ a # ys"
    using legal by (auto simp: vs dest: split_list)
  have dist: "distinct (xs @ a # ys)" using rep as by (simp add: tl_rep_def)
  obtain s' where s': "del_timer s (Some a) = Inr s'" "tl_rep s' (xs @ ys)"
    "mem s' = (unlink (mem s) xs ys)(a := None)"
    using del_timer_correct rep as by blast
  have "map (view (mem s')) (xs @ ys) = map (view (mem s)) (xs @ ys)"
    using dist by (intro view_payload_map) (auto simp: s'(3))
  then have spec: "tl_spec (Remove a) vs = map (view (mem s')) (xs @ ys)"
    using filter_ids[OF dist] by (simp add: vs as)
  have "dom (mem s') = dom (mem s) - {a}" by (simp add: s'(3))
  then have "dom (mem s') = set (xs @ ys)" using dom dist as by auto
  moreover have "sorted (map t_expire (tl_spec (Remove a) vs))"
    using sorted by (auto intro: sorted_filter)
  moreover have "length (tl_spec (Remove a) vs) \<le> N" "\<forall>v \<in> set (tl_spec (Remove a) vs). t_call v \<noteq> None"
    using rel by (simp_all add: tl_rel_def le_trans[OF length_filter_le])
  ultimately have "tl_rel N (s', w) (tl_spec (Remove a) vs)"
    using s'(2) spec unfolding tl_rel_def fst_conv by blast
  with s'(1) show ?thesis by simp
qed

lemma postpone_sim:
  assumes rel: "tl_rel N (s, w) vs" and legal: "tl_legal N (Postpone a e) vs"
  shows "\<exists>t. tl_exec N call (Postpone a e) (s, w) = Inr t \<and> tl_rel N t (tl_spec (Postpone a e) vs)"
proof -
  obtain as where rep: "tl_rep s as" and dom: "dom (mem s) = set as" and vs: "vs = map (view (mem s)) as"
    and sorted: "sorted (map t_expire vs)" and len: "length vs \<le> N"
    using rel by (auto simp: tl_rel_def)
  obtain xs ys where as: "as = xs @ a # ys" and e: "key (mem s) a \<le> e"
    using legal by (auto simp: vs dest: split_list)
  obtain t where t: "mem s a = Some t" using tl_rep_alloc[OF rep, of a] as by auto
  have dist: "distinct (xs @ a # ys)" using rep as by (simp add: tl_rep_def)
  let ?s = "s\<lparr>mem := (mem s)(a \<mapsto> t\<lparr>expire := e\<rparr>)\<rparr>"
  have rep1: "tl_rep ?s (xs @ a # ys)"
    using rep t as dseg_same_pointers[of "mem s" a t "t\<lparr>expire := e\<rparr>"]
    by (simp add: tl_rep_def del: dseg.simps dseg_append)
  have pay: "b \<in> set (xs @ ys) \<Longrightarrow> payload (mem ?s) b = payload (mem s) b" for b
    using dist by (auto simp: payload_def)
  have "\<forall>x \<in> set xs. key (mem s) x \<le> key (mem s) a"
    using sorted by (simp add: vs as sorted_append)
  then have before: "\<forall>x \<in> set xs. \<not> key (mem ?s) a < key (mem ?s) x"
    using e dist by (auto simp: key_def)
  have "length ys \<le> N" using len by (simp add: vs as)
  then obtain s' where s': "adjust_timer N ?s (Some a) = Inr s'"
    "tl_rep s' (insert_after (key (mem ?s)) a (xs @ ys))" "payload (mem s') = payload (mem ?s)"
    using adjust_timer_correct[OF rep1 before] by blast
  have va: "view (mem ?s) a = Timer a e (t_call (view (mem s) a)) (t_data (view (mem s) a))"
    using t by (simp add: view_def)
  have vm: "map (view (mem ?s)) (xs @ ys) = map (view (mem s)) (xs @ ys)"
    using pay by (rule view_payload_map)
  have "map (view (mem s')) (insert_after (key (mem ?s)) a (xs @ ys))
    = insert_timer (view (mem ?s) a) (map (view (mem ?s)) (xs @ ys))"
    using view_payload_map[of _ "mem s'" "mem ?s"] s'(3) by (simp only: map_view_insert_after)
  also have "\<dots> = tl_spec (Postpone a e) vs"
    unfolding va vm using filter_ids[OF dist, of "mem s"]
    by (simp add: vs as)
  finally have spec: "tl_spec (Postpone a e) vs = map (view (mem s')) (insert_after (key (mem ?s)) a (xs @ ys))"
    by simp
  have "dom (mem s') = set (insert_after (key (mem ?s)) a (xs @ ys))"
    using dom_payload_eq[OF s'(3)] dom t as by auto
  moreover have "sorted (map t_expire (tl_spec (Postpone a e) vs))"
    using sorted filter_ids[OF dist, of "mem s"]
    by (simp add: vs as sorted_insert_timer sorted_append)
  moreover have "length (tl_spec (Postpone a e) vs) \<le> N"
    using len filter_ids[OF dist, of "mem s"] by (simp add: vs as)
  moreover have "\<forall>v \<in> set (tl_spec (Postpone a e) vs). t_call v \<noteq> None"
    using rel filter_ids[OF dist, of "mem s"] by (auto simp: tl_rel_def vs as)
  ultimately have "tl_rel N (s', w) (tl_spec (Postpone a e) vs)"
    using s'(2) spec unfolding tl_rel_def fst_conv by blast
  with s'(1) t show ?thesis by simp
qed

lemma filter_dropWhile_sorted:
  "sorted (map f vs) \<Longrightarrow> filter (\<lambda>v. (c::int) < f v) vs = dropWhile (\<lambda>v. \<not> c < f v) vs"
proof (induction vs)
  case (Cons v vs)
  show ?case
  proof (cases "c < f v")
    case True
    with Cons.prems have "filter (\<lambda>v. c < f v) (v # vs) = v # vs"
      by (auto simp: filter_id_conv)
    with True show ?thesis by simp
  next
    case False
    with Cons show ?thesis by simp
  qed
qed simp

lemma dropWhile_view:
  "dropWhile (\<lambda>v. \<not> cur < t_expire v) (map (view m) as) = map (view m) (pending m cur as)"
  by (induction as) (auto simp: expired_Cons)

text \<open>The callbacks of a tick, in terms of the specification's timers.\<close>

definition call_all :: "(nat \<Rightarrow> nat option \<Rightarrow> 'w \<Rightarrow> 'w res) \<Rightarrow> timer_view list \<Rightarrow> 'w \<Rightarrow> 'w res" where
  "call_all call vs = run_events (\<lambda>v. call (the (t_call v)) (t_data v)) vs"

lemma fire_call_all:
  "\<forall>v \<in> set (map (view m) as). t_call v \<noteq> None \<Longrightarrow> fire call m as w = call_all call (map (view m) as) w"
proof (induction as arbitrary: w)
  case (Cons a as)
  then obtain f where "m_callback (the (m a)) = Some f" by auto
  with Cons show ?case by (auto simp: fire_def call_all_def invoke_def intro!: rbind_cong)
qed (simp add: fire_def call_all_def)

lemma call_all_returns:
  assumes "calls_return call"
  shows "\<exists>w'. call_all call vs w = Inr w'"
proof (induction vs arbitrary: w)
  case (Cons v vs)
  obtain w1 where "call (the (t_call v)) (t_data v) w = Inr w1"
    using assms unfolding calls_return_def by blast
  with Cons.IH show ?case by (simp add: call_all_def)
qed (simp add: call_all_def)

lemma filter_takeWhile_sorted:
  "sorted (map f vs) \<Longrightarrow> filter (\<lambda>v. f v \<le> (c::int)) vs = takeWhile (\<lambda>v. \<not> c < f v) vs"
proof (induction vs)
  case (Cons v vs)
  show ?case
  proof (cases "c < f v")
    case True
    with Cons.prems have "filter (\<lambda>v. f v \<le> c) (v # vs) = []"
      by (auto simp: filter_empty_conv)
    with True show ?thesis by simp
  next
    case False
    with Cons show ?thesis by simp
  qed
qed simp

lemma takeWhile_view:
  "takeWhile (\<lambda>v. \<not> cur < t_expire v) (map (view m) as) = map (view m) (expired m cur as)"
  by (induction as) (auto simp: expired_Cons)

lemma expire_calls:
  assumes rel: "tl_rel N (s, w) vs"
    and calls: "call_all call (filter (\<lambda>v. t_expire v \<le> cur) vs) w = Inr w'"
  shows "\<exists>s'. tick (Suc N) call cur s w = Inr (s', w') \<and> tl_rel N (s', w') (filter (\<lambda>v. cur < t_expire v) vs)"
proof -
  obtain as where rep: "tl_rep s as" and dom: "dom (mem s) = set as" and vs: "vs = map (view (mem s)) as"
    and sorted: "sorted (map t_expire vs)" and len: "length as < Suc N"
    using rel by (auto simp: tl_rel_def)
  have due: "filter (\<lambda>v. t_expire v \<le> cur) vs = map (view (mem s)) (expired (mem s) cur as)"
    using filter_takeWhile_sorted[OF sorted, of cur] takeWhile_view[of cur "mem s" as] by (simp add: vs)
  have "\<forall>v \<in> set (filter (\<lambda>v. t_expire v \<le> cur) vs). t_call v \<noteq> None"
    using rel by (simp add: tl_rel_def)
  then have "fire call (mem s) (expired (mem s) cur as) w = Inr w'"
    using calls fire_call_all[of "mem s" "expired (mem s) cur as" call w] unfolding due by simp
  then obtain s' where s': "tick (Suc N) call cur s w = Inr (s', w')" "tl_rep s' (pending (mem s) cur as)"
    "\<forall>a. payload (mem s') a = (if a \<in> set (expired (mem s) cur as) then None else payload (mem s) a)"
    using tick_correct[OF rep len, of call cur w w'] by blast
  have disj: "set (expired (mem s) cur as) \<inter> set (pending (mem s) cur as) = {}"
    and union: "set (expired (mem s) cur as) \<union> set (pending (mem s) cur as) = set as"
    using expired_pending[of "mem s" cur as] rep
    by (metis distinct_append tl_rep_def, metis set_append)
  have "map (view (mem s')) (pending (mem s) cur as) = map (view (mem s)) (pending (mem s) cur as)"
    using disj s'(3) by (intro view_payload_map) auto
  then have spec: "filter (\<lambda>v. cur < t_expire v) vs = map (view (mem s')) (pending (mem s) cur as)"
    using filter_dropWhile_sorted[OF sorted, of cur] dropWhile_view[of cur "mem s" as]
    by (simp add: vs)
  have "dom (payload (mem s')) = dom (payload (mem s)) - set (expired (mem s) cur as)"
    using s'(3) by (auto simp: dom_def simp del: payload_None_iff)
  then have "dom (mem s') = set (pending (mem s) cur as)"
    using dom disj union by (auto simp: dom_payload)
  moreover have "sorted (map t_expire (filter (\<lambda>v. cur < t_expire v) vs))"
    using sorted by (auto intro: sorted_filter)
  moreover have "length (filter (\<lambda>v. cur < t_expire v) vs) \<le> N" "\<forall>v \<in> set (filter (\<lambda>v. cur < t_expire v) vs). t_call v \<noteq> None"
    using rel by (simp_all add: tl_rel_def le_trans[OF length_filter_le])
  ultimately have "tl_rel N (s', w') (filter (\<lambda>v. cur < t_expire v) vs)"
    using s'(2) spec unfolding tl_rel_def fst_conv by blast
  with s'(1) show ?thesis by blast
qed

lemma expire_sim:
  assumes "calls_return call" and "tl_rel N (s, w) vs"
  shows "\<exists>t. tl_exec N call (Expire cur) (s, w) = Inr t \<and> tl_rel N t (tl_spec (Expire cur) vs)"
proof -
  obtain w' where "call_all call (filter (\<lambda>v. t_expire v \<le> cur) vs) w = Inr w'"
    using call_all_returns[OF assms(1)] by blast
  with expire_calls[OF assms(2)] show ?thesis by fastforce
qed

subsection \<open>The list is a timer container\<close>

fun tl_arrives :: "tl_op \<Rightarrow> addr set" where
  "tl_arrives (Add a e cb u) = {a}"
| "tl_arrives _ = {}"

fun tl_leaves :: "tl_op \<Rightarrow> timer_view list \<Rightarrow> addr set" where
  "tl_leaves (Remove a) vs = {a}"
| "tl_leaves (Expire cur) vs = t_id ` {v \<in> set vs. t_expire v \<le> cur}"
| "tl_leaves _ vs = {}"

lemma tl_sim:
  assumes "calls_return call" and "tl_rel N sw vs" and "tl_legal N c vs"
  shows "\<exists>t. tl_exec N call c sw = Inr t \<and> tl_rel N t (tl_spec c vs)"
proof (cases sw)
  case (Pair s w)
  note facts = assms(2,3)[unfolded Pair] add_sim remove_sim postpone_sim expire_sim[OF assms(1)]
  show ?thesis unfolding Pair
    by (cases c; insert facts; simp only:)
qed

lemma tl_rel_distinct: "tl_rel N sw vs \<Longrightarrow> distinct (map t_id vs)"
  by (auto simp: tl_rel_def tl_rep_def)

lemma set_fold_insert_timer:
  "set (fold (\<lambda>v. insert_timer (f v)) us vs) = f ` set us \<union> set vs"
  by (induction us arbitrary: vs) auto

lemma tl_timers_spec:
  assumes "tl_rel N sw vs" and "tl_legal N c vs"
  shows "t_id ` set (tl_spec c vs) = (t_id ` set vs \<union> tl_arrives c) - tl_leaves c vs"
proof (cases c)
  case (Expire cur)
  have "inj_on t_id (set vs)"
    using tl_rel_distinct[OF assms(1)] by (simp add: distinct_map)
  then have "t_id ` (set vs - {v \<in> set vs. t_expire v \<le> cur})
    = t_id ` set vs - t_id ` {v \<in> set vs. t_expire v \<le> cur}"
    by (rule inj_on_image_set_diff) auto
  moreover have "set (tl_spec (Expire cur) vs) = set vs - {v \<in> set vs. t_expire v \<le> cur}"
    by auto
  ultimately show ?thesis using Expire by simp
next
  case (Postpone a e)
  with assms(2) obtain v where v: "v \<in> set vs" "t_id v = a" by auto
  have "set (tl_spec (Postpone a e) vs) =
    (\<lambda>v. Timer a e (t_call v) (t_data v)) ` {v \<in> set vs. t_id v = a} \<union> {v \<in> set vs. t_id v \<noteq> a}"
    by (simp add: set_fold_insert_timer)
  then show ?thesis using v Postpone by (simp add: image_Un) (auto simp: image_iff)
qed (use assms(2) in auto)

lemma log_call_returns: "calls_return log_call"
  by (simp add: calls_return_def log_call_def)

interpretation tl: timer_store "tl_exec N log_call" tl_spec "tl_rel N" "tl_legal N"
  "\<lambda>sw. dom (mem (fst sw))" "\<lambda>vs. t_id ` set vs" tl_arrives tl_leaves for N
proof unfold_locales
  show "\<exists>t. tl_exec N log_call c s = Inr t \<and> tl_rel N t (tl_spec c v)"
    if "tl_rel N s v" "tl_legal N c v" for s v c
    using tl_sim[OF log_call_returns that] .
  show "dom (mem (fst s)) = t_id ` set v" if "tl_rel N s v" for s v
    using that unfolding tl_rel_def by (metis map_view_ids(2) set_map)
  show "t_id ` set (tl_spec c v) = (t_id ` set v \<union> tl_arrives c) - tl_leaves c v"
    if "tl_rel N s v" "tl_legal N c v" for s v c
    using tl_timers_spec[OF that] .
qed

subsection \<open>Properties\<close>

fun legal_history :: "nat \<Rightarrow> tl_op list \<Rightarrow> timer_view list \<Rightarrow> bool" where
  "legal_history N [] vs \<longleftrightarrow> True"
| "legal_history N (c # cs) vs \<longleftrightarrow> tl_legal N c vs \<and> legal_history N cs (tl_spec c vs)"

lemma legal_history_run: "legal_history N cs vs \<longleftrightarrow> tl.legal_run N cs vs"
  by (induction cs arbitrary: vs) auto

lemma tl_rel_world: "tl_rel N (s, w) vs \<longleftrightarrow> tl_rel N (s, ()) vs"
  by (simp add: tl_rel_def)

lemma tl_rel_empty: "tl_rel N (Sort_timer_list Map.empty, w) []"
  by (simp add: tl_rel_def tl_rep_def Sort_timer_list_def)

lemma log_call_all:
  "call_all log_call vs w = Inr (w @ map (\<lambda>v. (the (t_call v), t_data v)) vs)"
  by (induction vs arbitrary: w) (simp_all add: call_all_def log_call_def)

lemma expire_log:
  assumes "tl_rel N (s, log) vs" and "tl_exec N log_call (Expire cur) (s, log) = Inr (s', log')"
  shows "log' = log @ map (\<lambda>v. (the (t_call v), t_data v)) (filter (\<lambda>v. t_expire v \<le> cur) vs)"
  using expire_calls[OF assms(1) log_call_all, of cur] assms(2) by auto

text \<open>
  C8 Refinement of the whole container. Starting from the empty \<open>Sort_timer_list\<close>, any
  history of additions, postponements, deletions and ticks that the callers may perform
  (at most \<open>N\<close> timers at a time, \<open>new\<close> returns a fresh address, a timer is only moved to
  a later time) runs without any null or dangling access and without running out of the
  \<open>N\<close> loop iterations, and ends in a well-formed doubly linked list that holds exactly the
  timers of the specification, ascending by time of expiry. The objects in memory are
  exactly the timers of the list: nothing leaks and nothing is freed twice.
\<close>

theorem sort_timer_list_refines:
  assumes "legal_history N cs []"
  shows "\<exists>s log. run_events (tl_exec N log_call) cs (Sort_timer_list Map.empty, []) = Inr (s, log) \<and>
    tl_rel N (s, log) (fold tl_spec cs []) \<and> dom (mem s) = t_id ` set (fold tl_spec cs [])"
  using tl.run_live[OF tl_rel_empty[where w = "[]"], of N cs] assms
  by (fastforce simp: legal_history_run)

theorem sort_timer_list_refines_witness:
  "\<exists>s log. run_events (tl_exec 3 log_call)
      [Add 1 30 (Some 7) (Some 5), Add 2 10 (Some 7) (Some 6), Postpone 2 40, Expire 30]
      (Sort_timer_list Map.empty, []) = Inr (s, log) \<and>
    tl_rel 3 (s, log) [Timer 2 40 (Some 7) (Some 6)] \<and> dom (mem s) = {2}"
  using sort_timer_list_refines[of 3
      "[Add 1 30 (Some 7) (Some 5), Add 2 10 (Some 7) (Some 6), Postpone 2 40, Expire 30]"]
  by simp

text \<open>
  C19 \<open>tick\<close> at time \<open>cur\<close> calls the callbacks of exactly the timers whose time has come,
  in the order of their time of expiry, destroys their objects and keeps every other
  timer, in order.
\<close>

theorem tick_fires_exactly_due:
  assumes "tl_rel N (s, log) vs"
  shows "\<exists>s' log'. tick (Suc N) log_call cur s log = Inr (s', log') \<and>
    log' = log @ map (\<lambda>v. (the (t_call v), t_data v)) (filter (\<lambda>v. t_expire v \<le> cur) vs) \<and>
    tl_rel N (s', log') (filter (\<lambda>v. cur < t_expire v) vs)"
proof -
  have "tl_legal N (Expire cur) vs" by simp
  then obtain s' log' where "tl_exec N log_call (Expire cur) (s, log) = Inr (s', log')"
    "tl_rel N (s', log') (tl_spec (Expire cur) vs)"
    using tl.sim[OF assms, of "Expire cur"] by auto
  with expire_log[OF assms] show ?thesis by auto
qed

definition two_timers :: sort_timer_list where
  "two_timers = \<lparr>mem = [1 \<mapsto> \<lparr>nd_prev = None, nd_next = Some 2, expire = 10, m_callback = Some 7, user_data = Some 5\<rparr>,
     2 \<mapsto> \<lparr>nd_prev = Some 1, nd_next = None, expire = 20, m_callback = Some 7, user_data = Some 6\<rparr>],
     head = Some 1, tail = Some 2\<rparr>"

lemma two_timers_rel:
  "tl_rel 2 (two_timers, log) [Timer 1 10 (Some 7) (Some 5), Timer 2 20 (Some 7) (Some 6)]"
  unfolding tl_rel_def
  by (auto simp: two_timers_def tl_rep_def view_def intro!: exI[of _ "[1, 2]"])

theorem tick_fires_exactly_due_witness:
  "\<exists>s' log'. tick 3 log_call 15 two_timers [] = Inr (s', log') \<and> log' = [(7, Some 5)] \<and>
    tl_rel 2 (s', log') [Timer 2 20 (Some 7) (Some 6)]"
  using tick_fires_exactly_due[OF two_timers_rel, where cur = 15 and log = "[]"] by (simp add: numeral_3_eq_3 numeral_2_eq_2)

lemma filter_insert_timer:
  "sorted (map t_expire vs) \<Longrightarrow>
   filter (\<lambda>v. t_expire v = t_expire u) (insert_timer u vs) = filter (\<lambda>v. t_expire v = t_expire u) vs @ [u]"
proof (induction vs)
  case (Cons v vs)
  show ?case
  proof (cases "t_expire u < t_expire v")
    case True
    with Cons.prems have "filter (\<lambda>v. t_expire v = t_expire u) vs = []"
      by (auto simp: filter_empty_conv)
    with True show ?thesis by simp
  next
    case False
    with Cons show ?thesis by simp
  qed
qed simp

lemma filter_insert_timer_other:
  "\<not> P u \<Longrightarrow> filter P (insert_timer u vs) = filter P vs"
  by (induction vs) auto

text \<open>
  \<open>add_timer\<close> puts a new timer behind all timers of the same time of expiry: timers
  that expire together fire in the order in which they were added, and the relative order
  of all the others does not change.
\<close>

theorem add_timer_first_come_first_served:
  assumes "tl_rel N (s, w) vs" and "length vs < N" and "mem s a = None" and "cb \<noteq> None"
  shows "\<exists>s' us. add_timer N (s\<lparr>mem := (mem s)(a \<mapsto> new_util_timer e cb u)\<rparr>) (Some a) = Inr s' \<and>
    tl_rel N (s', w) us \<and>
    filter (\<lambda>v. t_expire v = e) us = filter (\<lambda>v. t_expire v = e) vs @ [Timer a e cb u] \<and>
    filter (\<lambda>v. t_id v \<noteq> a) us = vs"
proof -
  obtain as where vs: "vs = map (view (mem s)) as" and dom: "dom (mem s) = set as"
    and sorted: "sorted (map t_expire vs)"
    using assms(1) by (auto simp: tl_rel_def)
  have a: "a \<notin> t_id ` set vs" using assms(3) dom by (auto simp: vs)
  then have "tl_legal N (Add a e cb u) vs" using assms(2,4) by simp
  then obtain s' w' where t: "tl_exec N log_call (Add a e cb u) (s, []) = Inr (s', w')"
    "tl_rel N (s', w') (tl_spec (Add a e cb u) vs)"
    using add_sim[of N s "[]" vs a e cb u log_call] assms(1) tl_rel_world[of N s w] tl_rel_world[of N s "[]"]
    by fastforce
  then have "tl_rel N (s', w) (tl_spec (Add a e cb u) vs)"
    using tl_rel_world[of N s' w] tl_rel_world[of N s' w'] by simp
  have "filter (\<lambda>v. t_id v \<noteq> a) vs = vs" using a by (auto simp: filter_id_conv)
  then have "filter (\<lambda>v. t_id v \<noteq> a) (insert_timer (Timer a e cb u) vs) = vs"
    by (simp add: filter_insert_timer_other)
  with t \<open>tl_rel N (s', w) _\<close> sorted filter_insert_timer[of vs "Timer a e cb u"] show ?thesis
    by auto
qed

theorem add_timer_first_come_first_served_witness:
  "\<exists>s' us. add_timer 3 (two_timers\<lparr>mem := (mem two_timers)(3 \<mapsto> new_util_timer 10 (Some 7) (Some 8))\<rparr>) (Some 3) = Inr s' \<and>
    tl_rel 3 (s', ()) us \<and>
    filter (\<lambda>v. t_expire v = 10) us = [Timer 1 10 (Some 7) (Some 5), Timer 3 10 (Some 7) (Some 8)]"
proof -
  have "tl_rel 3 (two_timers, ()) [Timer 1 10 (Some 7) (Some 5), Timer 2 20 (Some 7) (Some 6)]"
    using two_timers_rel[of "()"] by (simp add: tl_rel_def)
  from add_timer_first_come_first_served[OF this, of 3 "Some 7" 10 "Some 8"]
  show ?thesis by (auto simp: two_timers_def)
qed

text \<open>C36 The destructor deletes every timer once and nothing else is left in memory.\<close>

theorem destroy_frees_everything:
  assumes "tl_rel N (s, w) vs"
  shows "\<exists>s'. destroy (Suc N) s = Inr s' \<and> head s' = None \<and> mem s' = Map.empty"
proof -
  obtain as where rep: "tl_rep s as" and dom: "dom (mem s) = set as" and len: "length as < Suc N"
    using assms by (auto simp: tl_rel_def)
  obtain s' where "destroy (Suc N) s = Inr s'" "head s' = None"
    "\<forall>a. mem s' a = (if a \<in> set as then None else mem s a)"
    using destroy_loop_correct[of s None as "Suc N"] rep len unfolding tl_rep_def destroy_def by blast
  moreover from this have "mem s' = Map.empty"
    using dom by (auto simp: fun_eq_iff domIff)
  ultimately show ?thesis by blast
qed

theorem destroy_frees_everything_witness:
  "\<exists>s'. destroy 3 two_timers = Inr s' \<and> head s' = None \<and> mem s' = Map.empty"
  using destroy_frees_everything[OF two_timers_rel[of "()"]] by (simp add: numeral_3_eq_3 numeral_2_eq_2)

text \<open>
  \<open>tick\<close> does not reset \<open>_tail\<close>: once the last timer has expired, \<open>_head\<close> is null and
  \<open>_tail\<close> still points to the deleted timer.
\<close>

theorem tick_leaves_tail_dangling:
  "\<exists>s' log'. tick 3 log_call 20 two_timers [] = Inr (s', log') \<and> head s' = None \<and>
    tail s' = Some 2 \<and> mem s' 2 = None"
  by (simp add: two_timers_def tick_def numeral_3_eq_3 numeral_2_eq_2 invoke_def log_call_def upd_prev_def set_prev_def)

end
