(* ===== verification/Time_Wheel.thy ===== *)
theory Time_Wheel
  imports Dlist_Heap Timer_Store
begin

section \<open>The time wheel (\<open>linux_server/time_wheel.h\<close>, \<open>linux_server/cpt_11_4_1.h\<close>)\<close>

text \<open>
  \<open>class time_wheel\<close>: \<open>N = 60\<close> slots, each the head of an unordered doubly linked list of
  timers; the wheel turns by one slot every \<open>SI = 1\<close> seconds. A timer whose \<open>rotation\<close> is
  positive stays for another turn. The state record holds the slots, the current slot and
  the memory of the \<open>tw_timer\<close> objects. The two files hold the same class; they differ in
  the end of \<open>add_timer\<close>, which returns the timer in the first and nothing in the second.
\<close>

subsection \<open>Objects and state\<close>

record tw_timer = dl_node +
  rotation :: int
  time_slot :: int
  tw_cb :: "nat option"    \<comment> \<open>\<open>cb_func\<close>; the constructor does not write it\<close>
  tw_data :: "nat option"  \<comment> \<open>\<open>user_data\<close>\<close>

definition new_tw_timer :: "int \<Rightarrow> int \<Rightarrow> tw_timer" where
  "new_tw_timer rot ts =
     \<lparr>nd_prev = None, nd_next = None, rotation = rot, time_slot = ts, tw_cb = None, tw_data = None\<rparr>"

record time_wheel =
  tw_mem :: "addr \<rightharpoonup> tw_timer"
  slots :: "ptr list"
  cur_slot :: int

definition tw_N :: int where "tw_N = 60"
definition tw_SI :: int where "tw_SI = 1"

definition new_time_wheel :: "(addr \<rightharpoonup> tw_timer) \<Rightarrow> time_wheel" where
  "new_time_wheel m = \<lparr>tw_mem = m, slots = replicate (nat tw_N) None, cur_slot = 0\<rparr>"

subsection \<open>Operations\<close>

definition ticks_of :: "int \<Rightarrow> int" where
  "ticks_of timeout = (if timeout < tw_SI then 1 else timeout div tw_SI)"

definition tw_add_timer :: "addr \<Rightarrow> int \<Rightarrow> time_wheel \<Rightarrow> (time_wheel \<times> ptr) res" where
  \<comment> \<open>\<open>a\<close> is the address that \<open>new tw_timer\<close> returns\<close>
  "tw_add_timer a timeout s =
     (if timeout < 0 then Inr (s, None)
      else
        let ticks = ticks_of timeout;
            rot = ticks div tw_N;
            ts = (cur_slot s + ticks mod tw_N) mod tw_N;
            m = (tw_mem s)(a \<mapsto> new_tw_timer rot ts)
        in
          rbind (index_array (slots s) ts) (\<lambda>h.
          rbind (write_array (slots s) ts (Some a)) (\<lambda>sl.
            if h = None then Inr (s\<lparr>tw_mem := m, slots := sl\<rparr>, Some a)
            else
              rbind (set_next m (Some a) h) (\<lambda>m1.
              rbind (set_prev m1 h (Some a)) (\<lambda>m2.
                Inr (s\<lparr>tw_mem := m2, slots := sl\<rparr>, Some a))))))"

definition tw_del_timer :: "time_wheel \<Rightarrow> ptr \<Rightarrow> time_wheel res" where
  "tw_del_timer s timer =
     (if timer = None then Inr s
      else
        rbind (deref (tw_mem s) timer) (\<lambda>t.
        rbind (index_array (slots s) (time_slot t)) (\<lambda>h.
          if timer = h then
            rbind (write_array (slots s) (time_slot t) (nd_next t)) (\<lambda>sl.
            rbind (if nd_next t = None then Inr (tw_mem s) else set_prev (tw_mem s) (nd_next t) None) (\<lambda>m1.
            rbind (delete m1 timer) (\<lambda>m2. Inr (s\<lparr>tw_mem := m2, slots := sl\<rparr>))))
          else
            rbind (set_next (tw_mem s) (nd_prev t) (nd_next t)) (\<lambda>m1.
            rbind (if nd_next t = None then Inr m1 else set_prev m1 (nd_next t) (nd_prev t)) (\<lambda>m2.
            rbind (delete m2 timer) (\<lambda>m3. Inr (s\<lparr>tw_mem := m3\<rparr>)))))))"

definition tw_invoke :: "(nat \<Rightarrow> nat option \<Rightarrow> 'w \<Rightarrow> 'w res) \<Rightarrow> tw_timer \<Rightarrow> 'w \<Rightarrow> 'w res" where
  "tw_invoke call t w =
     (case tw_cb t of None \<Rightarrow> Inl Uninitialised | Some f \<Rightarrow> call f (tw_data t) w)"

fun tw_tick_loop :: "nat \<Rightarrow> (nat \<Rightarrow> nat option \<Rightarrow> 'w \<Rightarrow> 'w res) \<Rightarrow> ptr \<Rightarrow> time_wheel \<Rightarrow> 'w
    \<Rightarrow> (time_wheel \<times> 'w) res" where
  "tw_tick_loop 0 call tmp s w = Inl Out_of_fuel"
| "tw_tick_loop (Suc n) call tmp s w =
     (if tmp = None then Inr (s, w)
      else rbind (deref (tw_mem s) tmp) (\<lambda>t.
        if rotation t > 0 then
          rbind (store (tw_mem s) tmp (\<lambda>t. t\<lparr>rotation := rotation t - 1\<rparr>)) (\<lambda>m1.
            tw_tick_loop n call (nd_next t) (s\<lparr>tw_mem := m1\<rparr>) w)
        else
          rbind (tw_invoke call t w) (\<lambda>w'.
          rbind (index_array (slots s) (cur_slot s)) (\<lambda>h.
            if tmp = h then
              rbind (write_array (slots s) (cur_slot s) (nd_next t)) (\<lambda>sl.
              rbind (delete (tw_mem s) tmp) (\<lambda>m1.
              rbind (if nd_next t = None then Inr m1 else set_prev m1 (nd_next t) None) (\<lambda>m2.
                tw_tick_loop n call (nd_next t) (s\<lparr>tw_mem := m2, slots := sl\<rparr>) w')))
            else
              rbind (set_next (tw_mem s) (nd_prev t) (nd_next t)) (\<lambda>m1.
              rbind (if nd_next t = None then Inr m1 else set_prev m1 (nd_next t) (nd_prev t)) (\<lambda>m2.
              rbind (delete m2 tmp) (\<lambda>m3.
                tw_tick_loop n call (nd_next t) (s\<lparr>tw_mem := m3\<rparr>) w')))))))"

definition tw_tick :: "nat \<Rightarrow> (nat \<Rightarrow> nat option \<Rightarrow> 'w \<Rightarrow> 'w res) \<Rightarrow> time_wheel \<Rightarrow> 'w
    \<Rightarrow> (time_wheel \<times> 'w) res" where
  "tw_tick fuel call s w =
     rbind (index_array (slots s) (cur_slot s)) (\<lambda>h.
     rbind (tw_tick_loop fuel call h s w) (\<lambda>(s', w').
       Inr (s'\<lparr>cur_slot := (cur_slot s' + 1) mod tw_N\<rparr>, w')))"

fun tw_destroy_slot :: "nat \<Rightarrow> int \<Rightarrow> ptr \<Rightarrow> time_wheel \<Rightarrow> time_wheel res" where
  "tw_destroy_slot 0 i tmp s = Inl Out_of_fuel"
| "tw_destroy_slot (Suc n) i tmp s =
     (if tmp = None then Inr s
      else rbind (deref (tw_mem s) tmp) (\<lambda>t.
        rbind (write_array (slots s) i (nd_next t)) (\<lambda>sl.
        rbind (delete (tw_mem s) tmp) (\<lambda>m1.
          tw_destroy_slot n i (nd_next t) (s\<lparr>tw_mem := m1, slots := sl\<rparr>)))))"

definition tw_destroy :: "nat \<Rightarrow> time_wheel \<Rightarrow> time_wheel res" where
  \<comment> \<open>\<open>~time_wheel()\<close>\<close>
  "tw_destroy fuel s =
     run_events (\<lambda>i s. rbind (index_array (slots s) i) (\<lambda>h. tw_destroy_slot fuel i h s))
       [0..tw_N - 1] s"

subsection \<open>The copy of the class in \<open>cpt_11_4_1.h\<close>\<close>

text \<open>
  The same statements over members named with an underscore, so the operations are the
  ones above, except that \<open>add_timer\<close> has lost its last \<open>return\<close>.
\<close>

definition cpt_new_tw_timer :: "int \<Rightarrow> int \<Rightarrow> tw_timer" where
  "cpt_new_tw_timer = new_tw_timer"

definition cpt_new_time_wheel :: "(addr \<rightharpoonup> tw_timer) \<Rightarrow> time_wheel" where
  "cpt_new_time_wheel = new_time_wheel"

definition cpt_add_timer :: "addr \<Rightarrow> int \<Rightarrow> time_wheel \<Rightarrow> (time_wheel \<times> ptr) res" where
  "cpt_add_timer a timeout s =
     (if timeout < 0 then Inr (s, None)
      else rbind (tw_add_timer a timeout s) (\<lambda>_. Inl No_return))"

definition cpt_del_timer :: "time_wheel \<Rightarrow> ptr \<Rightarrow> time_wheel res" where
  "cpt_del_timer = tw_del_timer"

definition cpt_tick :: "nat \<Rightarrow> (nat \<Rightarrow> nat option \<Rightarrow> 'w \<Rightarrow> 'w res) \<Rightarrow> time_wheel \<Rightarrow> 'w
    \<Rightarrow> (time_wheel \<times> 'w) res" where
  "cpt_tick = tw_tick"

definition cpt_destroy :: "nat \<Rightarrow> time_wheel \<Rightarrow> time_wheel res" where
  "cpt_destroy = tw_destroy"

subsection \<open>The slots as lists\<close>

definition tw_rep :: "time_wheel \<Rightarrow> (nat \<Rightarrow> addr list) \<Rightarrow> bool" where
  "tw_rep s L \<longleftrightarrow>
     length (slots s) = 60 \<and> 0 \<le> cur_slot s \<and> cur_slot s < 60 \<and>
     (\<forall>i < 60. slots s ! i = headp (L i) None \<and> distinct (L i) \<and>
        dseg (tw_mem s) None (L i) None \<and>
        (\<forall>a \<in> set (L i). time_slot (the (tw_mem s a)) = int i))"

type_synonym tw_core = "int \<times> int \<times> nat option \<times> nat option"

definition core :: "(addr \<rightharpoonup> tw_timer) \<Rightarrow> addr \<Rightarrow> tw_core option" where
  "core m a = map_option (\<lambda>t. (rotation t, time_slot t, tw_cb t, tw_data t)) (m a)"

lemma core_more:
  "dl_node.more (t :: tw_timer) = dl_node.more t' \<Longrightarrow>
   (rotation t, time_slot t, tw_cb t, tw_data t) = (rotation t', time_slot t', tw_cb t', tw_data t')"
  by (cases t; cases t') simp

lemma core_payload: "payload m a = payload m' a \<Longrightarrow> core m a = core m' a"
  by (cases "m a"; cases "m' a"; simp add: payload_def core_def; drule core_more; simp)

lemma core_payload_eq: "payload m = payload m' \<Longrightarrow> core m = core m'"
  by (rule ext, rule core_payload) simp

lemma core_pointer_update [simp]:
  "core (upd_prev m b q) = core m" "core (upd_next m b q) = core m"
  "core (link_between m xs a ys) = core m" "core (unlink m xs ys) = core m"
  by (rule core_payload_eq, simp)+

lemma core_None_iff [simp]: "core m a = None \<longleftrightarrow> m a = None"
  by (simp add: core_def)

lemma core_fun_upd [simp]:
  "core (m(a := None)) = (core m)(a := None)"
  "core (m(a \<mapsto> t)) = (core m)(a \<mapsto> (rotation t, time_slot t, tw_cb t, tw_data t))"
  by (auto simp: core_def fun_eq_iff)

lemma time_slot_core:
  "m a \<noteq> None \<Longrightarrow> time_slot (the (m a)) = (case core m a of Some (r, ts, c, d) \<Rightarrow> ts | None \<Rightarrow> 0)"
  by (auto simp: core_def)

lemma tw_rep_slot:
  assumes "tw_rep s L" and "i < 60"
  shows "slots s ! i = headp (L i) None" "distinct (L i)" "dseg (tw_mem s) None (L i) None"
    "\<And>a. a \<in> set (L i) \<Longrightarrow> time_slot (the (tw_mem s a)) = int i"
    "length (slots s) = 60" "0 \<le> cur_slot s" "cur_slot s < 60"
  using assms by (auto simp: tw_rep_def)

lemma tw_rep_disjoint:
  "tw_rep s L \<Longrightarrow> i < 60 \<Longrightarrow> j < 60 \<Longrightarrow> a \<in> set (L i) \<Longrightarrow> a \<in> set (L j) \<Longrightarrow> i = j"
  by (metis tw_rep_slot(4) of_nat_eq_iff)

lemma tw_rep_update:
  assumes rep: "tw_rep s L" and i: "i < 60"
    and slots: "slots s' = (slots s)[i := headp xs None]" and cur: "cur_slot s' = cur_slot s"
    and xs: "distinct xs" "dseg (tw_mem s') None xs None"
      "\<And>a. a \<in> set xs \<Longrightarrow> time_slot (the (tw_mem s' a)) = int i"
    and frame: "\<And>j b. j < 60 \<Longrightarrow> j \<noteq> i \<Longrightarrow> b \<in> set (L j) \<Longrightarrow> tw_mem s' b = tw_mem s b"
  shows "tw_rep s' (L(i := xs))"
proof -
  have "dseg (tw_mem s') None (L j) None" if "j < 60" "j \<noteq> i" for j
    using dseg_cong[of "L j" "tw_mem s'" "tw_mem s"] frame[OF that] tw_rep_slot(3)[OF rep that(1)] by simp
  then show ?thesis
    using rep i slots cur xs frame by (auto simp: tw_rep_def nth_list_update)
qed

subsection \<open>Correctness of the operations\<close>

lemma ticks_of_pos: "0 \<le> timeout \<Longrightarrow> ticks_of timeout = max 1 timeout"
  by (simp add: ticks_of_def tw_SI_def)

lemma unlink_slot:
  "unlink h [] ys = (case ys of [] \<Rightarrow> h | y # _ \<Rightarrow> upd_prev h y None)"
  "xs \<noteq> [] \<Longrightarrow> unlink h xs ys =
     (case ys of [] \<Rightarrow> upd_next h (last xs) None
      | y # _ \<Rightarrow> upd_prev (upd_next h (last xs) (Some y)) y (Some (last xs)))"
  by (auto simp: unlink_def lastp_def split: list.splits)

lemma time_slot_core_eq:
  "core m a = core m' a \<Longrightarrow> m a \<noteq> None \<Longrightarrow> time_slot (the (m' a)) = time_slot (the (m a))"
  by (cases "m a"; cases "m' a") (auto simp: core_def)

lemma tw_rep_alloc: "tw_rep s L \<Longrightarrow> i < 60 \<Longrightarrow> a \<in> set (L i) \<Longrightarrow> tw_mem s a \<noteq> None"
  using tw_rep_slot(3) dseg_alloc by blast

lemma tw_add_correct:
  assumes rep: "tw_rep s L" and t: "0 \<le> timeout" and fresh: "tw_mem s a = None"
  defines "ts \<equiv> (cur_slot s + ticks_of timeout mod 60) mod 60"
  shows "\<exists>s'. tw_add_timer a timeout s = Inr (s', Some a) \<and>
    tw_rep s' (L(nat ts := a # L (nat ts))) \<and> cur_slot s' = cur_slot s \<and>
    core (tw_mem s') = (core (tw_mem s))(a \<mapsto> (ticks_of timeout div 60, ts, None, None))"
proof -
  define i where "i = nat ts"
  have "0 \<le> ts" "ts < 60" by (simp_all add: ts_def)
  then have i: "i < 60" "ts = int i" by (auto simp: i_def)
  define n where "n = new_tw_timer (ticks_of timeout div 60) ts"
  define m where "m = (tw_mem s)(a \<mapsto> n)"
  note slot = tw_rep_slot[OF rep i(1)]
  have a: "a \<notin> set (L j)" if "j < 60" for j using tw_rep_alloc[OF rep that] fresh by blast
  have at: "m a = Some n" "nd_prev n = None" "nd_next n = None" by (simp_all add: m_def n_def new_tw_timer_def)
  define s' where "s' = s\<lparr>tw_mem := link_between m [] a (L i), slots := (slots s)[i := Some a]\<rparr>"
  have alloc: "L i = y # ys \<Longrightarrow> m y \<noteq> None" for y ys
    using dseg_alloc[OF slot(3), of y] by (simp add: m_def)
  have link: "link_between m [] a (L i) =
      (case L i of [] \<Rightarrow> m | y # _ \<Rightarrow> upd_prev (upd_next m a (Some y)) y (Some a))"
    using at by (simp add: link_between_def upd_same split: list.splits)
  have tm: "(tw_mem s)(a \<mapsto> new_tw_timer (ticks_of timeout div 60) (int i)) = m"
    by (simp add: m_def n_def i(2))
  have "tw_add_timer a timeout s = Inr (s', Some a)"
    using t slot(1,5) i alloc link at
    by (cases "L i") (auto simp: tw_add_timer_def tw_N_def Let_def s'_def tm simp flip: ts_def)
  moreover have "tw_rep s' (L(i := a # L i))"
  proof (rule tw_rep_update[OF rep i(1)])
    have "dseg m None ([] @ L i) None" using slot(3) a[OF i(1)] by (simp add: m_def)
    then have "dseg (link_between m [] a (L i)) None ([] @ a # L i) None"
      using slot(2) a[OF i(1)] at(1) by (intro dseg_link_between) auto
    then show "dseg (tw_mem s') None (a # L i) None" by (simp add: s'_def)
    show "distinct (a # L i)" using slot(2) a[OF i(1)] by simp
    show "time_slot (the (tw_mem s' b)) = int i" if "b \<in> set (a # L i)" for b
    proof (cases "b = a")
      case True
      then show ?thesis
        using time_slot_core_eq[of m a "tw_mem s'"] at i by (simp add: s'_def n_def new_tw_timer_def)
    next
      case False
      with that have "m b = tw_mem s b" "tw_mem s b \<noteq> None"
        using dseg_alloc[OF slot(3)] by (auto simp: m_def)
      then show ?thesis
        using time_slot_core_eq[of m b "tw_mem s'"] slot(4)[of b] that False by (simp add: s'_def)
    qed
    show "tw_mem s' b = tw_mem s b" if "j < 60" "j \<noteq> i" "b \<in> set (L j)" for j b
    proof -
      have "b \<noteq> a" "b \<notin> set (L i)" using a that tw_rep_disjoint[OF rep that(1) i(1)] by auto
      then show ?thesis by (simp add: s'_def link_between_other m_def)
    qed
  qed (auto simp: s'_def)
  moreover have "core (tw_mem s') = (core (tw_mem s))(a \<mapsto> (ticks_of timeout div 60, ts, None, None))"
    by (simp add: s'_def m_def n_def new_tw_timer_def)
  moreover have "cur_slot s' = cur_slot s" by (simp add: s'_def)
  ultimately show ?thesis by (auto simp: i_def)
qed

lemma tw_rep_unlink:
  assumes rep: "tw_rep s L" and i: "i < 60" and L: "L i = xs @ a # ys"
    and s': "tw_mem s' = (unlink (tw_mem s) xs ys)(a := None)"
      "slots s' = (slots s)[i := headp (xs @ ys) None]" "cur_slot s' = cur_slot s"
  shows "tw_rep s' (L(i := xs @ ys))"
proof (rule tw_rep_update[OF rep i s'(2,3)])
  note slot = tw_rep_slot[OF rep i, unfolded L]
  show "distinct (xs @ ys)" using slot(2) by simp
  show "dseg (tw_mem s') None (xs @ ys) None"
    using dseg_unlink[OF slot(3,2)] slot(2) by (auto simp: s' simp del: dseg_append)
  show "time_slot (the (tw_mem s' b)) = int i" if "b \<in> set (xs @ ys)" for b
  proof -
    have "b \<noteq> a" using that slot(2) by auto
    then have "core (tw_mem s) b = core (tw_mem s') b" by (simp add: s'(1))
    moreover have "tw_mem s b \<noteq> None" using dseg_alloc[OF slot(3)] that by auto
    ultimately have "time_slot (the (tw_mem s' b)) = time_slot (the (tw_mem s b))"
      by (rule time_slot_core_eq)
    then show ?thesis using slot(4)[of b] that by simp
  qed
  show "tw_mem s' b = tw_mem s b" if "j < 60" "j \<noteq> i" "b \<in> set (L j)" for j b
  proof -
    have "b \<notin> set (xs @ a # ys)" using tw_rep_disjoint[OF rep that(1) i that(3)] that(2) L by auto
    then show ?thesis by (auto simp: s'(1) unlink_other)
  qed
qed

lemma tw_head_iff:
  assumes "tw_rep s L" and "i < 60" and "L i = xs @ a # ys"
  shows "slots s ! i = Some a \<longleftrightarrow> xs = []"
  using tw_rep_slot(1,2)[OF assms(1,2)] assms(3) by (cases xs) auto

lemma tw_del_correct:
  assumes rep: "tw_rep s L" and i: "i < 60" and L: "L i = xs @ a # ys"
  shows "\<exists>s'. tw_del_timer s (Some a) = Inr s' \<and> tw_rep s' (L(i := xs @ ys)) \<and>
    cur_slot s' = cur_slot s \<and> tw_mem s' = (unlink (tw_mem s) xs ys)(a := None)"
proof -
  note slot = tw_rep_slot[OF rep i]
  have d: "dseg (tw_mem s) None (xs @ a # ys) None" and dist: "distinct (xs @ a # ys)"
    using slot(2,3) L by simp_all
  obtain t where t: "tw_mem s a = Some t" "nd_prev t = lastp None xs" "nd_next t = headp ys None"
    using d by (rule dseg_at)
  have ts: "time_slot t = int i" using slot(4)[of a] L t(1) by simp
  obtain u where "unlink (tw_mem s) xs ys a = Some u"
    using t(1) by (metis not_Some_eq unlink_None_iff)
  then have um: "delete (unlink (tw_mem s) xs ys) (Some a) = Inr ((unlink (tw_mem s) xs ys)(a := None))" by simp
  define s' where "s' = s\<lparr>tw_mem := (unlink (tw_mem s) xs ys)(a := None),
    slots := (slots s)[i := headp (xs @ ys) None]\<rparr>"
  have lx: "xs \<noteq> [] \<Longrightarrow> tw_mem s (last xs) \<noteq> None" "ys = y # zs \<Longrightarrow> tw_mem s y \<noteq> None" for y zs
    using dseg_alloc[OF d] by auto
  have "tw_del_timer s (Some a) = Inr s'"
  proof (cases "xs = []")
    case True
    with t ts slot(1,5) i L um lx(2) show ?thesis
      by (cases ys) (auto simp: tw_del_timer_def s'_def unlink_slot)
  next
    case False
    have "slots s = (slots s)[i := headp (xs @ ys) None]"
      using False slot(1) L by (metis headp_append headp_nonempty list_update_id)
    then have s'_eq: "s' = s\<lparr>tw_mem := (unlink (tw_mem s) xs ys)(a := None)\<rparr>"
      by (cases s) (simp add: s'_def)
    show ?thesis
      using False t ts slot(5) i tw_head_iff[OF rep i L] um lx unfolding s'_eq
      by (cases ys) (auto simp: tw_del_timer_def unlink_slot lastp_def)
  qed
  moreover have "tw_rep s' (L(i := xs @ ys))"
    by (rule tw_rep_unlink[OF rep i L]) (simp_all add: s'_def)
  ultimately show ?thesis by (auto simp: s'_def)
qed

subsection \<open>One turn\<close>

definition due :: "(addr \<rightharpoonup> tw_timer) \<Rightarrow> addr \<Rightarrow> bool" where
  "due m a \<longleftrightarrow> \<not> rotation (the (m a)) > 0"

definition log_entry :: "(addr \<rightharpoonup> tw_timer) \<Rightarrow> addr \<Rightarrow> nat \<times> nat option" where
  "log_entry m a = (the (tw_cb (the (m a))), tw_data (the (m a)))"

definition age :: "tw_core option \<Rightarrow> tw_core option" where
  "age c = (case c of None \<Rightarrow> None
     | Some (r, ts, cb, d) \<Rightarrow> if r > 0 then Some (r - 1, ts, cb, d) else None)"

lemma due_core: "core m a = core m' a \<Longrightarrow> due m a = due m' a \<and> log_entry m a = log_entry m' a \<and>
    tw_cb (the (m a)) = tw_cb (the (m' a))"
  by (cases "m a"; cases "m' a") (auto simp: core_def due_def log_entry_def)

lemma due_core_list:
  assumes "\<And>a. a \<in> set ys \<Longrightarrow> core m a = core m' a"
  shows "filter (due m) ys = filter (due m') ys" "filter (\<lambda>a. \<not> due m a) ys = filter (\<lambda>a. \<not> due m' a) ys"
    "map (log_entry m) (filter (due m) ys) = map (log_entry m') (filter (due m') ys)"
proof -
  have 1: "\<And>a. a \<in> set ys \<Longrightarrow> due m a = due m' a \<and> log_entry m a = log_entry m' a"
    using due_core[OF assms] by blast
  then show 2: "filter (due m) ys = filter (due m') ys"
    and "filter (\<lambda>a. \<not> due m a) ys = filter (\<lambda>a. \<not> due m' a) ys"
    by (auto intro: filter_cong)
  show "map (log_entry m) (filter (due m) ys) = map (log_entry m') (filter (due m') ys)"
    unfolding 2 using 1 by auto
qed

lemma tw_rep_same_links:
  assumes rep: "tw_rep s L" and t: "tw_mem s a = Some t"
    and t': "nd_prev t' = nd_prev t" "nd_next t' = nd_next t" "time_slot t' = time_slot t"
  shows "tw_rep (s\<lparr>tw_mem := (tw_mem s)(a \<mapsto> t')\<rparr>) L"
proof -
  have "time_slot (the (((tw_mem s)(a \<mapsto> t')) b)) = time_slot (the (tw_mem s b))" for b
    using t t'(3) by simp
  then show ?thesis
    using rep dseg_same_pointers[where h = "tw_mem s" and a = a and nd = t and nd' = t', OF t t'(1,2)]
    by (simp add: tw_rep_def)
qed

text \<open>One iteration of \<open>tick\<close>: the timer stays for another turn, or fires and leaves its slot.\<close>

lemma tw_loop_keeps:
  assumes rep: "tw_rep s L" and slots: "L i = ks @ a # ys" "i < 60" and notdue: "\<not> due (tw_mem s) a"
  shows "\<exists>s1. (\<forall>n w. tw_tick_loop (Suc n) call (Some a) s w = tw_tick_loop n call (headp ys None) s1 w) \<and>
    tw_rep s1 L \<and> cur_slot s1 = cur_slot s \<and>
    core (tw_mem s1) = (core (tw_mem s))(a := age (core (tw_mem s) a))"
proof -
  obtain t where t: "tw_mem s a = Some t" "nd_next t = headp ys None"
    using tw_rep_slot(3)[OF rep slots(2), unfolded slots(1)] by (rule dseg_at)
  then have turn: "rotation t > 0" using notdue by (simp add: due_def)
  define s1 where "s1 = s\<lparr>tw_mem := (tw_mem s)(a \<mapsto> t\<lparr>rotation := rotation t - 1\<rparr>)\<rparr>"
  have "tw_rep s1 L" unfolding s1_def by (rule tw_rep_same_links[OF rep t(1)]) simp_all
  moreover have "core (tw_mem s1) = (core (tw_mem s))(a := age (core (tw_mem s) a))"
    using turn t(1) by (auto simp: s1_def age_def core_def)
  ultimately show ?thesis using turn t by (intro exI[of _ s1]) (simp add: s1_def)
qed

lemma tw_loop_fires:
  assumes rep: "tw_rep s L" and slots: "L i = ks @ a # ys" "i < 60" and cur: "cur_slot s = int i"
    and due: "due (tw_mem s) a" and cb: "tw_cb (the (tw_mem s a)) \<noteq> None"
  shows "\<exists>s1. (\<forall>n w. tw_tick_loop (Suc n) log_call (Some a) s w =
      tw_tick_loop n log_call (headp ys None) s1 (w @ [log_entry (tw_mem s) a])) \<and>
    tw_rep s1 (L(i := ks @ ys)) \<and> cur_slot s1 = cur_slot s \<and>
    core (tw_mem s1) = (core (tw_mem s))(a := age (core (tw_mem s) a))"
proof -
  note slot = tw_rep_slot[OF rep slots(2), unfolded slots(1)]
  obtain t where t: "tw_mem s a = Some t" "nd_prev t = lastp None ks" "nd_next t = headp ys None"
    using slot(3) by (rule dseg_at)
  have turn: "\<not> rotation t > 0" using due t(1) by (simp add: due_def)
  have inv: "tw_invoke log_call t w = Inr (w @ [log_entry (tw_mem s) a])" for w
    using cb t(1) by (auto simp: tw_invoke_def log_call_def log_entry_def)
  define s1 where "s1 = s\<lparr>tw_mem := (unlink (tw_mem s) ks ys)(a := None),
    slots := (slots s)[i := headp (ks @ ys) None]\<rparr>"
  have rep1: "tw_rep s1 (L(i := ks @ ys))"
    by (rule tw_rep_unlink[OF rep slots(2,1)]) (simp_all add: s1_def)
  have c1: "core (tw_mem s1) = (core (tw_mem s))(a := age (core (tw_mem s) a))"
    using turn t(1) by (auto simp: s1_def age_def core_def)
  obtain u where "unlink (tw_mem s) ks ys a = Some u" using t(1) by (metis not_Some_eq unlink_None_iff)
  then have um: "delete (unlink (tw_mem s) ks ys) (Some a) = Inr ((unlink (tw_mem s) ks ys)(a := None))" by simp
  have lx: "ks \<noteq> [] \<Longrightarrow> tw_mem s (last ks) \<noteq> None" "ys = y # zs \<Longrightarrow> tw_mem s y \<noteq> None \<and> y \<noteq> a" for y zs
    using dseg_alloc[OF slot(3)] slot(2) by auto
  have "tw_tick_loop (Suc n) log_call (Some a) s w =
      tw_tick_loop n log_call (headp ys None) s1 (w @ [log_entry (tw_mem s) a])" for n w
  proof (cases "ks = []")
    case True
    with turn t slot(1,5) cur slots(2) inv lx(2) show ?thesis
      by (cases ys) (auto simp: s1_def unlink_slot upd_delete_commute)
  next
    case ks: False
    have "slots s = (slots s)[i := headp (ks @ ys) None]"
      using ks slot(1) by (metis headp_append headp_nonempty list_update_id)
    then have s1: "s1 = s\<lparr>tw_mem := (unlink (tw_mem s) ks ys)(a := None)\<rparr>"
      by (cases s) (simp add: s1_def)
    have "slots s ! i \<noteq> Some a" using tw_head_iff[OF rep slots(2,1)] ks by simp
    then show ?thesis
      using ks turn t slot(5) cur slots(2) inv lx um unfolding s1
      by (cases ys) (auto simp: unlink_slot lastp_def)
  qed
  then show ?thesis using rep1 c1 by (intro exI[of _ s1]) (simp add: s1_def)
qed

text \<open>Where the core of one timer has aged, the rest of the slot is as it was.\<close>

lemma aged_others:
  assumes "core m1 = (core m)(a := age (core m a))" and "a \<notin> set ys"
    and "\<forall>b \<in> set ys. due m b \<longrightarrow> tw_cb (the (m b)) \<noteq> None"
  shows "\<forall>b \<in> set ys. due m1 b \<longrightarrow> tw_cb (the (m1 b)) \<noteq> None"
    and "(\<lambda>b. if b \<in> set ys then age (core m1 b) else core m1 b) = (\<lambda>b. if b \<in> set (a # ys) then age (core m b) else core m b)"
    and "map (log_entry m1) (filter (due m1) ys) = map (log_entry m) (filter (due m) ys)"
    and "filter (\<lambda>b. \<not> due m1 b) ys = filter (\<lambda>b. \<not> due m b) ys"
proof -
  have same: "\<And>b. b \<in> set ys \<Longrightarrow> core m1 b = core m b" using assms(1,2) by auto
  show "\<forall>b \<in> set ys. due m1 b \<longrightarrow> tw_cb (the (m1 b)) \<noteq> None"
    using assms(3) due_core[OF same] by simp
  show "(\<lambda>b. if b \<in> set ys then age (core m1 b) else core m1 b) = (\<lambda>b. if b \<in> set (a # ys) then age (core m b) else core m b)"
    using assms(1,2) by auto
  show "map (log_entry m1) (filter (due m1) ys) = map (log_entry m) (filter (due m) ys)"
    "filter (\<lambda>b. \<not> due m1 b) ys = filter (\<lambda>b. \<not> due m b) ys"
    using due_core_list(2,3)[of ys m1 m] same by blast+
qed

lemma tw_loop_correct:
  assumes "tw_rep s L" and "cur_slot s = int i" and "i < 60" and "L i = ks @ ys" and "length ys < fuel"
    and "\<forall>a \<in> set ys. due (tw_mem s) a \<longrightarrow> tw_cb (the (tw_mem s a)) \<noteq> None"
  shows "\<exists>s'. tw_tick_loop fuel log_call (headp ys None) s w =
      Inr (s', w @ map (log_entry (tw_mem s)) (filter (due (tw_mem s)) ys)) \<and>
    tw_rep s' (L(i := ks @ filter (\<lambda>a. \<not> due (tw_mem s) a) ys)) \<and> cur_slot s' = cur_slot s \<and>
    core (tw_mem s') = (\<lambda>a. if a \<in> set ys then age (core (tw_mem s) a) else core (tw_mem s) a)"
  using assms
proof (induction ys arbitrary: s L ks fuel w)
  case Nil
  then obtain n where "fuel = Suc n" by (cases fuel) auto
  with Nil show ?case by (auto simp: fun_upd_idem)
next
  case (Cons a ys)
  then obtain n where fuel: "fuel = Suc n" by (cases fuel) auto
  have a: "a \<notin> set ys" using tw_rep_slot(2)[OF Cons.prems(1,3)] Cons.prems(4) by auto
  have len: "length ys < n" and cb: "\<forall>b \<in> set ys. due (tw_mem s) b \<longrightarrow> tw_cb (the (tw_mem s b)) \<noteq> None"
    using Cons.prems(5,6) fuel by simp_all
  show ?case
  proof (cases "due (tw_mem s) a")
    case False
    from tw_loop_keeps[OF Cons.prems(1,4,3) this, of log_call] obtain s1 where
      s1: "\<And>n w. tw_tick_loop (Suc n) log_call (Some a) s w = tw_tick_loop n log_call (headp ys None) s1 w"
      "tw_rep s1 L" "cur_slot s1 = cur_slot s" "core (tw_mem s1) = (core (tw_mem s))(a := age (core (tw_mem s) a))"
      by blast
    note others = aged_others[OF s1(4) a cb]
    have "cur_slot s1 = int i" "L i = (ks @ [a]) @ ys" using Cons.prems(2,4) s1(3) by simp_all
    from Cons.IH[OF s1(2) this(1) Cons.prems(3) this(2) len others(1), of w, unfolded others(2-4)]
    show ?thesis using False s1(3) by (simp add: fuel s1(1) del: tw_tick_loop.simps)
  next
    case True
    from tw_loop_fires[OF Cons.prems(1,4,3,2) this] Cons.prems(6) True obtain s1 where
      s1: "\<And>n w. tw_tick_loop (Suc n) log_call (Some a) s w =
        tw_tick_loop n log_call (headp ys None) s1 (w @ [log_entry (tw_mem s) a])"
      "tw_rep s1 (L(i := ks @ ys))" "cur_slot s1 = cur_slot s" "core (tw_mem s1) = (core (tw_mem s))(a := age (core (tw_mem s) a))"
      by auto
    note others = aged_others[OF s1(4) a cb]
    have "cur_slot s1 = int i" "(L(i := ks @ ys)) i = ks @ ys" using Cons.prems(2) s1(3) by simp_all
    from Cons.IH[OF s1(2) this(1) Cons.prems(3) this(2) len others(1), of "w @ [log_entry (tw_mem s) a]", unfolded others(2-4)]
    show ?thesis using True s1(3) by (simp add: fuel s1(1) del: tw_tick_loop.simps fun_upd_apply)
  qed
qed

subsection \<open>The specification: a countdown for every timer\<close>

text \<open>
  Seen from outside, the wheel is a map that gives every timer the number of \<open>tick\<close> calls
  it still survives. The position of a timer (slot and rotation) encodes that number
  relative to the current slot.
\<close>

type_synonym wheel_view = "addr \<rightharpoonup> int \<times> nat option \<times> nat option"

definition remaining :: "int \<Rightarrow> int \<Rightarrow> int \<Rightarrow> int" where
  "remaining cur ts r = (ts - cur) mod 60 + 60 * r"

definition core_view :: "int \<Rightarrow> tw_core option \<Rightarrow> (int \<times> nat option \<times> nat option) option" where
  "core_view cur c = (case c of None \<Rightarrow> None | Some (r, ts, cb, d) \<Rightarrow> Some (remaining cur ts r, cb, d))"

definition tw_view :: "time_wheel \<Rightarrow> wheel_view" where
  "tw_view s a = core_view (cur_slot s) (core (tw_mem s) a)"

datatype tw_op = TW_Add addr int nat "nat option" | TW_Del addr | TW_Tick

fun tw_exec :: "nat \<Rightarrow> (nat \<Rightarrow> nat option \<Rightarrow> 'w \<Rightarrow> 'w res) \<Rightarrow> tw_op \<Rightarrow> time_wheel \<times> 'w
    \<Rightarrow> (time_wheel \<times> 'w) res" where
  \<comment> \<open>the caller of \<open>add_timer\<close> writes the callback and the client of the timer it gets\<close>
  "tw_exec N call (TW_Add a timeout f d) (s, w) =
     rbind (tw_add_timer a timeout s) (\<lambda>(s1, p).
       if p = None then Inr (s1, w)
       else rbind (store (tw_mem s1) p (\<lambda>t. t\<lparr>tw_cb := Some f, tw_data := d\<rparr>))
         (\<lambda>m. Inr (s1\<lparr>tw_mem := m\<rparr>, w)))"
| "tw_exec N call (TW_Del a) (s, w) = rbind (tw_del_timer s (Some a)) (\<lambda>s'. Inr (s', w))"
| "tw_exec N call TW_Tick (s, w) = tw_tick (Suc N) call s w"

definition countdown :: "int \<times> nat option \<times> nat option \<Rightarrow> (int \<times> nat option \<times> nat option) option" where
  "countdown = (\<lambda>(k, c, d). if k = 0 then None else Some (k - 1, c, d))"

fun tw_spec :: "tw_op \<Rightarrow> wheel_view \<Rightarrow> wheel_view" where
  "tw_spec (TW_Add a timeout f d) v = (if timeout < 0 then v else v(a \<mapsto> (max 1 timeout, Some f, d)))"
| "tw_spec (TW_Del a) v = v(a := None)"
| "tw_spec TW_Tick v = (\<lambda>a. Option.bind (v a) countdown)"

fun tw_legal :: "nat \<Rightarrow> tw_op \<Rightarrow> wheel_view \<Rightarrow> bool" where
  "tw_legal N (TW_Add a timeout f d) v \<longleftrightarrow> v a = None \<and> card (dom v) < N"
| "tw_legal N (TW_Del a) v \<longleftrightarrow> v a \<noteq> None"
| "tw_legal N TW_Tick v \<longleftrightarrow> True"

definition core_ok :: "tw_core \<Rightarrow> bool" where
  "core_ok = (\<lambda>(r, ts, c, d). 0 \<le> r \<and> 0 \<le> ts \<and> ts < 60 \<and> c \<noteq> None)"

definition tw_rel :: "nat \<Rightarrow> time_wheel \<times> 'w \<Rightarrow> wheel_view \<Rightarrow> bool" where
  "tw_rel N sw v \<longleftrightarrow>
     (\<exists>L. tw_rep (fst sw) L \<and> dom (tw_mem (fst sw)) = (\<Union>i < 60. set (L i))) \<and>
     v = tw_view (fst sw) \<and> (\<forall>a c. core (tw_mem (fst sw)) a = Some c \<longrightarrow> core_ok c) \<and>
     card (dom v) \<le> N"

lemma core_view_None_iff [simp]: "core_view cur c = None \<longleftrightarrow> c = None"
  by (auto simp: core_view_def split: option.splits prod.splits)

lemma dom_tw_view [simp]: "dom (tw_view s) = dom (tw_mem s)"
  by (simp add: dom_def tw_view_def del: not_None_eq)

lemma slot_distance:
  assumes "0 \<le> ts" "ts < 60" "0 \<le> cur" "cur < (60::int)"
  shows "(ts - cur) mod 60 = (if cur \<le> ts then ts - cur else ts - cur + 60)"
  using assms mod_pos_pos_trivial[of "ts - cur + 60" 60] mod_add_self2[of "ts - cur" 60] by auto

lemma remaining_step:
  assumes "0 \<le> ts" "ts < 60" "0 \<le> cur" "cur < 60"
  shows "ts \<noteq> cur \<Longrightarrow> remaining ((cur + 1) mod 60) ts r = remaining cur ts r - 1"
    and "remaining ((cur + 1) mod 60) cur (r - 1) = remaining cur cur r - 1"
    and "ts \<noteq> cur \<Longrightarrow> 0 < (ts - cur) mod 60"
proof -
  have 1: "(ts - (cur + 1) mod 60) mod 60 = (if ts = cur then 59 else (ts - cur) mod 60 - 1)"
    using assms by (smt (verit) minus_mod_self2 mod_pos_pos_trivial mod_add_self2 mod_diff_right_eq)
  then show "ts \<noteq> cur \<Longrightarrow> remaining ((cur + 1) mod 60) ts r = remaining cur ts r - 1"
    by (simp add: remaining_def)
  show "ts \<noteq> cur \<Longrightarrow> 0 < (ts - cur) mod 60"
    using assms slot_distance[of ts cur] by simp
  have "(cur - (cur + 1) mod 60) mod 60 = 59"
    using assms(3,4) by (smt (verit) minus_mod_self2 mod_pos_pos_trivial mod_add_self2 mod_diff_right_eq)
  then show "remaining ((cur + 1) mod 60) cur (r - 1) = remaining cur cur r - 1"
    by (simp add: remaining_def)
qed

lemma tw_relI:
  assumes "tw_rep s L" and "dom (tw_mem s) = (\<Union>i < 60. set (L i))" and "tw_view s = v"
    and "\<forall>a c. core (tw_mem s) a = Some c \<longrightarrow> core_ok c" and "card (dom v) \<le> N"
  shows "tw_rel N (s, w) v"
  unfolding tw_rel_def fst_conv using assms by (intro conjI exI[of _ L]) simp_all

lemma tw_rep_card:
  assumes "tw_rep s L" and "dom (tw_mem s) = (\<Union>i < 60. set (L i))" and "i < 60"
  shows "length (L i) \<le> card (dom (tw_mem s))"
proof -
  have "finite (dom (tw_mem s))" using assms(2) by simp
  moreover have "set (L i) \<subseteq> dom (tw_mem s)" using assms(2,3) by auto
  ultimately have "card (set (L i)) \<le> card (dom (tw_mem s))" by (rule card_mono)
  then show ?thesis using tw_rep_slot(2)[OF assms(1,3)] by (simp add: distinct_card)
qed

lemma tw_dom_upd:
  assumes "dom m = (\<Union>j < (60::nat). set (L j))" and "i < 60" and "set (L i) \<subseteq> insert a (set xs)"
    and "a \<notin> set xs" and "\<And>j. j < 60 \<Longrightarrow> j \<noteq> i \<Longrightarrow> a \<notin> set (L j)" and "set xs \<subseteq> set (L i)"
  shows "dom m - {a} = (\<Union>j < 60. set ((L(i := xs)) j))"
  using assms by (auto split: if_splits) blast+

lemma tw_dom_insert:
  assumes "i < (60::nat)"
  shows "(\<Union>j < 60. set ((L(i := a # L i)) j)) = insert a (\<Union>j < 60. set (L j))"
  using assms by (auto split: if_splits)

lemma tw_dom_slot:
  assumes "i < (60::nat)" and "\<And>j. j < 60 \<Longrightarrow> a \<in> set (L j) \<Longrightarrow> j = i"
  shows "a \<in> (\<Union>j < 60. set ((L(i := xs)) j)) \<longleftrightarrow> a \<in> set xs"
  using assms by (auto split: if_splits)

lemma tw_dom_other_slot:
  assumes "i < (60::nat)" and "a \<notin> set (L i)" and "a \<notin> set xs"
  shows "a \<in> (\<Union>j < 60. set ((L(i := xs)) j)) \<longleftrightarrow> a \<in> (\<Union>j < 60. set (L j))"
  using assms by (auto split: if_splits)

lemma tw_del_sim:
  assumes rel: "tw_rel N (s, w) v" and legal: "tw_legal N (TW_Del a) v"
  shows "\<exists>t. tw_exec N call (TW_Del a) (s, w) = Inr t \<and> tw_rel N t (tw_spec (TW_Del a) v)"
proof -
  obtain L where rep: "tw_rep s L" and dom: "dom (tw_mem s) = (\<Union>i < 60. set (L i))" and v: "v = tw_view s"
    and cok: "\<forall>a c. core (tw_mem s) a = Some c \<longrightarrow> core_ok c" and card: "card (dom v) \<le> N"
    using rel by (auto simp: tw_rel_def)
  have "a \<in> dom (tw_mem s)" using legal v by (metis domIff dom_tw_view tw_legal.simps(2))
  then obtain i where i: "i < 60" "a \<in> set (L i)" using dom by auto
  then obtain xs ys where L: "L i = xs @ a # ys" by (auto dest: split_list)
  obtain s' where s': "tw_del_timer s (Some a) = Inr s'" "tw_rep s' (L(i := xs @ ys))"
    "cur_slot s' = cur_slot s" "tw_mem s' = (unlink (tw_mem s) xs ys)(a := None)"
    using tw_del_correct[OF rep i(1) L] by blast
  have c: "core (tw_mem s') = (core (tw_mem s))(a := None)" by (simp add: s'(4))
  have view: "tw_view s' = v(a := None)"
    by (auto simp: tw_view_def c s'(3) v fun_eq_iff core_view_def)
  have "dom (tw_mem s') = dom (tw_mem s) - {a}" by (simp add: s'(4))
  also have "\<dots> = (\<Union>j < 60. set ((L(i := xs @ ys)) j))"
    using tw_rep_slot(2)[OF rep i(1)] L tw_rep_disjoint[OF rep _ i(1) _ i(2)]
    by (intro tw_dom_upd[OF dom i(1)]) auto
  finally have "dom (tw_mem s') = (\<Union>j < 60. set ((L(i := xs @ ys)) j))" .
  moreover have "card (dom (v(a := None))) \<le> N"
    using card card_Diff1_le[of "dom v" a] by (simp add: le_trans)
  moreover have "\<forall>b c. core (tw_mem s') b = Some c \<longrightarrow> core_ok c" using cok by (simp add: c)
  ultimately have "tw_rel N (s', w) (v(a := None))"
    using s'(2) view by (intro tw_relI)
  with s'(1) show ?thesis by simp
qed

lemma tw_add_sim:
  assumes rel: "tw_rel N (s, w) v" and legal: "tw_legal N (TW_Add a timeout f d) v"
  shows "\<exists>t. tw_exec N call (TW_Add a timeout f d) (s, w) = Inr t \<and>
    tw_rel N t (tw_spec (TW_Add a timeout f d) v)"
proof (cases "timeout < 0")
  case True
  with rel show ?thesis by (simp add: tw_add_timer_def)
next
  case False
  obtain L where rep: "tw_rep s L" and dom: "dom (tw_mem s) = (\<Union>i < 60. set (L i))" and v: "v = tw_view s"
    and cok: "\<forall>a c. core (tw_mem s) a = Some c \<longrightarrow> core_ok c" and card: "card (dom v) < N"
    using rel legal by (auto simp: tw_rel_def)
  have fresh: "tw_mem s a = None" using legal v by (simp add: tw_view_def)
  define ts where "ts = (cur_slot s + ticks_of timeout mod 60) mod 60"
  obtain s1 where s1: "tw_add_timer a timeout s = Inr (s1, Some a)" "tw_rep s1 (L(nat ts := a # L (nat ts)))"
    "cur_slot s1 = cur_slot s" "core (tw_mem s1) = (core (tw_mem s))(a \<mapsto> (ticks_of timeout div 60, ts, None, None))"
    using tw_add_correct[OF rep _ fresh, of timeout] False by (auto simp: ts_def)
  have ts: "0 \<le> ts" "ts < 60" by (simp_all add: ts_def)
  have "core (tw_mem s1) a \<noteq> None" by (simp add: s1(4))
  then obtain t where t: "tw_mem s1 a = Some t" by auto
  define s2 where "s2 = s1\<lparr>tw_mem := (tw_mem s1)(a \<mapsto> t\<lparr>tw_cb := Some f, tw_data := d\<rparr>)\<rparr>"
  have rep2: "tw_rep s2 (L(nat ts := a # L (nat ts)))"
    unfolding s2_def by (rule tw_rep_same_links[OF s1(2) t]) simp_all
  have "core (tw_mem s1) a = Some (rotation t, time_slot t, tw_cb t, tw_data t)" using t by (simp add: core_def)
  then have c: "core (tw_mem s2) = (core (tw_mem s))(a \<mapsto> (ticks_of timeout div 60, ts, Some f, d))"
    using s1(4) by (auto simp: s2_def fun_eq_iff)
  have rem: "remaining (cur_slot s) ts (ticks_of timeout div 60) = ticks_of timeout"
    using tw_rep_slot(6,7)[OF rep, of 0]
    by (simp add: remaining_def ts_def mod_diff_left_eq)
  have "cur_slot s2 = cur_slot s" using s1(3) by (simp add: s2_def)
  then have view: "tw_view s2 = v(a \<mapsto> (max 1 timeout, Some f, d))"
    using False rem by (auto simp: tw_view_def c v fun_eq_iff core_view_def ticks_of_pos)
  have "dom (core (tw_mem s2)) = insert a (dom (core (tw_mem s)))" by (simp add: c)
  moreover have dc: "dom (core m) = dom m" for m by (simp add: dom_def del: not_None_eq)
  ultimately have "dom (tw_mem s2) = insert a (dom (tw_mem s))" by simp
  then have "dom (tw_mem s2) = (\<Union>j < 60. set ((L(nat ts := a # L (nat ts))) j))"
    using dom ts tw_dom_insert[of "nat ts" L a] by simp
  moreover have "card (dom (v(a \<mapsto> (max 1 timeout, Some f, d)))) \<le> N"
    using card card_insert_le_m1[of N "dom v" a] by simp
  moreover have "0 \<le> ticks_of timeout div 60" using False by (simp add: ticks_of_pos)
  then have "\<forall>b c. core (tw_mem s2) b = Some c \<longrightarrow> core_ok c"
    using cok ts by (auto simp: c core_ok_def)
  ultimately have "tw_rel N (s2, w) (v(a \<mapsto> (max 1 timeout, Some f, d)))"
    using rep2 view by (intro tw_relI)
  with s1(1) t False show ?thesis by (simp add: s2_def)
qed

lemma tw_slot_member:
  assumes "tw_rep s L" and "dom (tw_mem s) = (\<Union>i < 60. set (L i))" and "i < 60" and "tw_mem s a = Some t"
  shows "a \<in> set (L i) \<longleftrightarrow> time_slot t = int i"
proof -
  obtain j where "j < 60" "a \<in> set (L j)" using assms(2,4) by auto
  with tw_rep_slot(4)[OF assms(1) \<open>j < 60\<close>, of a] tw_rep_slot(4)[OF assms(1,3), of a] assms(4)
  show ?thesis by auto
qed

lemma core_view_turn:
  assumes "core_ok (r, ts, c, d)" and "0 \<le> cur" and "cur < 60"
  shows "core_view ((cur + 1) mod 60) (if ts = cur then age (Some (r, ts, c, d)) else Some (r, ts, c, d))
      = countdown (remaining cur ts r, c, d)"
    and "remaining cur ts r = 0 \<longleftrightarrow> ts = cur \<and> \<not> r > 0"
proof -
  have ok: "0 \<le> r" "0 \<le> ts" "ts < 60" using assms(1) by (auto simp: core_ok_def)
  note r = remaining_step[OF ok(2,3) assms(2,3)]
  show zero: "remaining cur ts r = 0 \<longleftrightarrow> ts = cur \<and> \<not> r > 0"
  proof (cases "ts = cur")
    case False
    then have "0 < remaining cur ts r" using r(3) ok(1) by (simp add: remaining_def)
    with False show ?thesis by simp
  qed (use ok(1) in \<open>auto simp: remaining_def\<close>)
  show "core_view ((cur + 1) mod 60) (if ts = cur then age (Some (r, ts, c, d)) else Some (r, ts, c, d))
      = countdown (remaining cur ts r, c, d)"
    using zero ok(1) r(1)[of r] r(2)[of r] by (auto simp: age_def core_view_def countdown_def)
qed

lemma core_of: "m a = Some t \<Longrightarrow> core m a = Some (rotation t, time_slot t, tw_cb t, tw_data t)"
  by (simp add: core_def)

text \<open>What one turn does to the timers of the current slot (\<open>ys\<close>) and to the others.\<close>

lemma tw_turn_view:
  assumes rep: "tw_rep s L" and dom: "dom (tw_mem s) = (\<Union>i < 60. set (L i))"
    and cok: "\<forall>a c. core (tw_mem s) a = Some c \<longrightarrow> core_ok c"
    and i: "i < 60" "cur_slot s = int i"
    and s': "cur_slot s' = (cur_slot s + 1) mod 60"
      "core (tw_mem s') = (\<lambda>a. if a \<in> set (L i) then age (core (tw_mem s) a) else core (tw_mem s) a)"
  shows "tw_view s' = tw_spec TW_Tick (tw_view s)"
    and "set (filter (due (tw_mem s)) (L i)) = {a. \<exists>c d. tw_view s a = Some (0, c, d)}"
proof -
  have cur: "0 \<le> cur_slot s" "cur_slot s < 60" using i by auto
  have "tw_view s' a = Option.bind (tw_view s a) countdown \<and>
    (a \<in> set (filter (due (tw_mem s)) (L i)) \<longleftrightarrow> (\<exists>c d. tw_view s a = Some (0, c, d)))" for a
  proof (cases "tw_mem s a")
    case None
    then have "core (tw_mem s) a = None" and "a \<notin> set (L i)" using dom i(1) by auto
    with None show ?thesis by (simp add: tw_view_def s' core_view_def core_def)
  next
    case (Some t)
    note c = core_of[of "tw_mem s", OF Some]
    have "core_ok (rotation t, time_slot t, tw_cb t, tw_data t)" using cok c by blast
    note turn = core_view_turn[OF this cur]
    have inL: "a \<in> set (L i) \<longleftrightarrow> time_slot t = cur_slot s"
      using tw_slot_member[OF rep dom i(1) Some] i(2) by simp
    have "tw_view s a = Some (remaining (cur_slot s) (time_slot t) (rotation t), tw_cb t, tw_data t)"
      by (simp add: tw_view_def c core_view_def)
    moreover have "tw_view s' a = countdown (remaining (cur_slot s) (time_slot t) (rotation t), tw_cb t, tw_data t)"
      using turn(1) inL by (simp add: tw_view_def s' c split: if_splits)
    ultimately show ?thesis using turn(2) inL Some by (simp add: due_def)
  qed
  then show "tw_view s' = tw_spec TW_Tick (tw_view s)"
    and "set (filter (due (tw_mem s)) (L i)) = {a. \<exists>c d. tw_view s a = Some (0, c, d)}"
    by (simp_all add: fun_eq_iff set_eq_iff)
qed

lemma tw_turn_dom:
  assumes rep: "tw_rep s L" and dom: "dom (tw_mem s) = (\<Union>i < 60. set (L i))" and i: "i < 60"
    and s': "core (tw_mem s') = (\<lambda>a. if a \<in> set (L i) then age (core (tw_mem s) a) else core (tw_mem s) a)"
  shows "dom (tw_mem s') = (\<Union>j < 60. set ((L(i := filter (\<lambda>a. \<not> due (tw_mem s) a) (L i))) j))"
proof -
  have dc: "a \<in> dom m \<longleftrightarrow> core m a \<noteq> None" for a and m by (simp add: dom_def del: not_None_eq)
  have "a \<in> dom (tw_mem s') \<longleftrightarrow>
    a \<in> (\<Union>j < 60. set ((L(i := filter (\<lambda>a. \<not> due (tw_mem s) a) (L i))) j))" for a
  proof (cases "a \<in> set (L i)")
    case True
    then have "j < 60 \<Longrightarrow> a \<in> set (L j) \<Longrightarrow> j = i" for j using tw_rep_disjoint[OF rep _ i] by blast
    moreover obtain t where t: "tw_mem s a = Some t" using tw_rep_alloc[OF rep i True] by auto
    have "a \<in> dom (tw_mem s') \<longleftrightarrow> \<not> due (tw_mem s) a"
      unfolding dc using True t core_of[of "tw_mem s", OF t] by (simp add: s' age_def due_def)
    ultimately show ?thesis using True tw_dom_slot[OF i, of a L] by simp
  next
    case False
    then have "a \<in> dom (tw_mem s') \<longleftrightarrow> a \<in> dom (tw_mem s)" unfolding dc by (simp add: s')
    with False dom tw_dom_other_slot[where i = i and a = a and L = L, OF i False] show ?thesis by simp
  qed
  then show ?thesis by blast
qed

lemma age_Some_ok: "(\<And>c. x = Some c \<Longrightarrow> core_ok c) \<Longrightarrow> age x = Some c' \<Longrightarrow> core_ok c'"
  by (cases x) (auto simp: age_def core_ok_def split: if_splits)

lemma tw_tick_correct:
  assumes rel: "tw_rel N (s, w) v"
  shows "\<exists>s' as. tw_tick (Suc N) log_call s w = Inr (s', w @ map (log_entry (tw_mem s)) as) \<and>
    distinct as \<and> set as = {a. \<exists>c d. v a = Some (0, c, d)} \<and>
    tw_rel N (s', w @ map (log_entry (tw_mem s)) as) (tw_spec TW_Tick v)"
proof -
  obtain L where rep: "tw_rep s L" and dom: "dom (tw_mem s) = (\<Union>i < 60. set (L i))" and v: "v = tw_view s"
    and cok: "\<forall>a c. core (tw_mem s) a = Some c \<longrightarrow> core_ok c" and card: "card (dom v) \<le> N"
    using rel by (auto simp: tw_rel_def)
  define i where "i = nat (cur_slot s)"
  have i: "i < 60" "cur_slot s = int i" using tw_rep_slot(6,7)[OF rep, of 0] by (auto simp: i_def)
  note slot = tw_rep_slot[OF rep i(1)]
  have cb: "\<forall>a \<in> set (L i). due (tw_mem s) a \<longrightarrow> tw_cb (the (tw_mem s a)) \<noteq> None"
  proof
    fix a assume "a \<in> set (L i)"
    then obtain t where t: "tw_mem s a = Some t" using tw_rep_alloc[OF rep i(1)] by auto
    then have "core_ok (rotation t, time_slot t, tw_cb t, tw_data t)" using cok core_of by blast
    with t show "due (tw_mem s) a \<longrightarrow> tw_cb (the (tw_mem s a)) \<noteq> None" by (simp add: core_ok_def)
  qed
  have len: "length (L i) < Suc N" using tw_rep_card[OF rep dom i(1)] card v by simp
  let ?as = "filter (due (tw_mem s)) (L i)" and ?ks = "filter (\<lambda>a. \<not> due (tw_mem s) a) (L i)"
  obtain s1 where s1: "tw_tick_loop (Suc N) log_call (headp (L i) None) s w =
      Inr (s1, w @ map (log_entry (tw_mem s)) ?as)"
    "tw_rep s1 (L(i := ?ks))" "cur_slot s1 = cur_slot s"
    "core (tw_mem s1) = (\<lambda>a. if a \<in> set (L i) then age (core (tw_mem s) a) else core (tw_mem s) a)"
    using tw_loop_correct[OF rep i(2,1), of "[]" "L i" "Suc N" w] len cb by auto
  define s' where "s' = s1\<lparr>cur_slot := (cur_slot s1 + 1) mod tw_N\<rparr>"
  have s': "cur_slot s' = (cur_slot s + 1) mod 60" "tw_mem s' = tw_mem s1"
    by (simp_all add: s'_def s1(3) tw_N_def)
  have run: "tw_tick (Suc N) log_call s w = Inr (s', w @ map (log_entry (tw_mem s)) ?as)"
    using s1(1) slot(1,5) i by (simp add: tw_tick_def s'_def)
  note turn = tw_turn_view[OF rep dom cok i s'(1), unfolded s'(2), OF s1(4)]
    and dom' = tw_turn_dom[OF rep dom i(1), of s', unfolded s'(2), OF s1(4)]
  have cok': "\<forall>a c. core (tw_mem s') a = Some c \<longrightarrow> core_ok c"
    unfolding s'(2) s1(4)
  proof (intro allI impI)
    fix a c assume "(if a \<in> set (L i) then age (core (tw_mem s) a) else core (tw_mem s) a) = Some c"
    then show "core_ok c" using cok age_Some_ok[of "core (tw_mem s) a" c]
      by (cases "a \<in> set (L i)") (simp_all del: split_paired_All)
  qed
  have "dom (tw_spec TW_Tick v) \<subseteq> dom v" by (auto simp: Option.bind_eq_Some_conv)
  moreover have "finite (dom v)" using dom v by simp
  ultimately have "card (dom (tw_spec TW_Tick v)) \<le> N"
    using card card_mono le_trans by blast
  moreover have "tw_rep s' (L(i := ?ks))" using s1(2) by (simp add: s'_def tw_rep_def tw_N_def)
  ultimately have "tw_rel N (s', w @ map (log_entry (tw_mem s)) ?as) (tw_spec TW_Tick v)"
    using dom' turn(1) cok' unfolding s'(2)[symmetric] v by (intro tw_relI)
  then show ?thesis
    using run turn(2) v slot(2) by (intro exI[of _ s'] exI[of _ ?as]) simp
qed

subsection \<open>The wheel is a timer container\<close>

fun tw_arrives :: "tw_op \<Rightarrow> addr set" where
  "tw_arrives (TW_Add a timeout f d) = (if timeout < 0 then {} else {a})"
| "tw_arrives _ = {}"

fun tw_leaves :: "tw_op \<Rightarrow> wheel_view \<Rightarrow> addr set" where
  "tw_leaves (TW_Del a) v = {a}"
| "tw_leaves TW_Tick v = {a. \<exists>c d. v a = Some (0, c, d)}"
| "tw_leaves _ v = {}"

lemma tw_sim:
  assumes "tw_rel N sw v" and "tw_legal N c v"
  shows "\<exists>t. tw_exec N log_call c sw = Inr t \<and> tw_rel N t (tw_spec c v)"
proof (cases sw)
  case (Pair s w)
  show ?thesis
  proof (cases c)
    case (TW_Add a timeout f d)
    with tw_add_sim assms Pair show ?thesis by (simp only:)
  next
    case (TW_Del a)
    with tw_del_sim assms Pair show ?thesis by (simp only:)
  next
    case TW_Tick
    with tw_tick_correct[of N s w v] assms(1) Pair show ?thesis by (auto simp del: tw_spec.simps)
  qed
qed

interpretation tw: timer_store "tw_exec N log_call" tw_spec "tw_rel N" "tw_legal N"
  "\<lambda>sw. dom (tw_mem (fst sw))" dom tw_arrives tw_leaves for N
proof unfold_locales
  show "\<exists>t. tw_exec N log_call c s = Inr t \<and> tw_rel N t (tw_spec c v)"
    if "tw_rel N s v" "tw_legal N c v" for s v c
    using tw_sim[OF that] .
  show "dom (tw_mem (fst s)) = dom v" if "tw_rel N s v" for s v
    using that by (auto simp: tw_rel_def)
  show "dom (tw_spec c v) = (dom v \<union> tw_arrives c) - tw_leaves c v" if "tw_legal N c v" for v c
    using that by (cases c) (auto simp: Option.bind_eq_Some_conv countdown_def split: if_splits)
qed

subsection \<open>The destructor\<close>

lemma tw_destroy_slot_correct:
  assumes "dseg (tw_mem s) p xs None" and "distinct xs" and "i < length (slots s)"
    and "slots s ! i = headp xs None" and "length xs < fuel"
  shows "tw_destroy_slot fuel (int i) (headp xs None) s =
    Inr (s\<lparr>tw_mem := (\<lambda>a. if a \<in> set xs then None else tw_mem s a), slots := (slots s)[i := None]\<rparr>)"
  using assms
proof (induction xs arbitrary: s p fuel)
  case Nil
  then obtain n where "fuel = Suc n" by (cases fuel) auto
  moreover have "(slots s)[i := None] = slots s" using list_update_id[of "slots s" i] Nil(4) by simp
  ultimately show ?case by simp
next
  case (Cons a xs)
  then obtain n where fuel: "fuel = Suc n" by (cases fuel) auto
  obtain t where t: "tw_mem s a = Some t" "nd_next t = headp xs None" "dseg (tw_mem s) (Some a) xs None"
    using Cons.prems(1) by (auto split: option.splits)
  define s1 where "s1 = s\<lparr>tw_mem := (tw_mem s)(a := None), slots := (slots s)[i := headp xs None]\<rparr>"
  have m1: "tw_mem s1 = (tw_mem s)(a := None)" by (simp add: s1_def)
  have "dseg (tw_mem s1) (Some a) xs None"
    unfolding m1 using t(3) Cons.prems(2) by (subst dseg_frame) simp_all
  moreover have "i < length (slots s1)" "slots s1 ! i = headp xs None"
    using Cons.prems(3) by (simp_all add: s1_def)
  ultimately have "tw_destroy_slot n (int i) (headp xs None) s1 =
      Inr (s1\<lparr>tw_mem := (\<lambda>b. if b \<in> set xs then None else tw_mem s1 b), slots := (slots s1)[i := None]\<rparr>)"
    using Cons.IH[of s1 "Some a" n] Cons.prems(2,5) fuel by simp
  moreover have "(\<lambda>b. if b \<in> set xs then None else tw_mem s1 b) =
      (\<lambda>b. if b \<in> set (a # xs) then None else tw_mem s b)" by (rule ext) (simp add: m1)
  ultimately have "tw_destroy_slot n (int i) (headp xs None) s1 =
      Inr (s\<lparr>tw_mem := (\<lambda>b. if b \<in> set (a # xs) then None else tw_mem s b), slots := (slots s)[i := None]\<rparr>)"
    by (simp add: s1_def)
  moreover have "tw_destroy_slot fuel (int i) (headp (a # xs) None) s = tw_destroy_slot n (int i) (headp xs None) s1"
    using t Cons.prems(3) by (simp add: fuel s1_def)
  ultimately show ?case by simp
qed

lemma tw_destroy_one:
  assumes rep: "tw_rep s L" and dom: "dom (tw_mem s) = (\<Union>i < 60. set (L i))" and i: "i < 60"
    and card: "card (dom (tw_mem s)) < fuel"
  shows "\<exists>s'. rbind (index_array (slots s) (int i)) (\<lambda>h. tw_destroy_slot fuel (int i) h s) = Inr s' \<and>
    tw_rep s' (L(i := [])) \<and> dom (tw_mem s') = (\<Union>j < 60. set ((L(i := [])) j)) \<and>
    card (dom (tw_mem s')) < fuel"
proof -
  note slot = tw_rep_slot[OF rep i]
  let ?m = "\<lambda>a. if a \<in> set (L i) then None else tw_mem s a"
  let ?s' = "s\<lparr>tw_mem := ?m, slots := (slots s)[i := None]\<rparr>"
  have fuel: "length (L i) < fuel" using tw_rep_card[OF rep dom i] card by simp
  have run: "rbind (index_array (slots s) (int i)) (\<lambda>h. tw_destroy_slot fuel (int i) h s) = Inr ?s'"
    using tw_destroy_slot_correct[OF slot(3,2) _ slot(1) fuel] slot(1,5) i by simp
  have rep': "tw_rep ?s' (L(i := []))"
  proof (rule tw_rep_update[OF rep i])
    show "tw_mem ?s' b = tw_mem s b" if "j < 60" "j \<noteq> i" "b \<in> set (L j)" for j b
      using tw_rep_disjoint[OF rep that(1) i that(3)] that(2) by auto
  qed simp_all
  have dom': "dom ?m = dom (tw_mem s) - set (L i)" by (auto simp: dom_def)
  have other: "set (L j) \<inter> set (L i) = {}" if "j < 60" "j \<noteq> i" for j
    using tw_rep_disjoint[OF rep that(1) i] that(2) by blast
  have "dom (tw_mem s) - set (L i) = (\<Union>j < 60. set (L j) - set (L i))" unfolding dom by blast
  also have "\<dots> = (\<Union>j < 60. set ((L(i := [])) j))"
    by (rule SUP_cong) (use other in auto)
  finally have d: "dom (tw_mem ?s') = (\<Union>j < 60. set ((L(i := [])) j))" using dom' by simp
  have "finite (dom (tw_mem s))" unfolding dom by simp
  then have "card (dom ?m) \<le> card (dom (tw_mem s))" unfolding dom' by (intro card_mono) auto
  then have "card (dom (tw_mem ?s')) < fuel" using card by simp
  then show ?thesis using run rep' d by blast
qed

lemma tw_destroy_slots:
  assumes "tw_rep s L" and "dom (tw_mem s) = (\<Union>i < 60. set (L i))"
    and "card (dom (tw_mem s)) < fuel" and "\<forall>i \<in> set is. 0 \<le> i \<and> i < 60"
  shows "\<exists>s'. run_events (\<lambda>i s. rbind (index_array (slots s) i) (\<lambda>h. tw_destroy_slot fuel i h s)) is s = Inr s' \<and>
    (\<exists>L'. tw_rep s' L' \<and> dom (tw_mem s') = (\<Union>i < 60. set (L' i)) \<and>
      (\<forall>i < 60. L' i = (if int i \<in> set is then [] else L i)))"
  using assms
proof (induction "is" arbitrary: s L)
  case Nil
  then show ?case by auto
next
  case (Cons k ks)
  then have k: "nat k < 60" "int (nat k) = k" by auto
  obtain s1 where s1: "rbind (index_array (slots s) k) (\<lambda>h. tw_destroy_slot fuel k h s) = Inr s1"
    "tw_rep s1 (L(nat k := []))" "dom (tw_mem s1) = (\<Union>j < 60. set ((L(nat k := [])) j))"
    "card (dom (tw_mem s1)) < fuel"
    using tw_destroy_one[OF Cons.prems(1,2) k(1) Cons.prems(3)] unfolding k(2) by blast
  from Cons.IH[OF s1(2,3,4)] Cons.prems(4) obtain s' L' where
    "run_events (\<lambda>i s. rbind (index_array (slots s) i) (\<lambda>h. tw_destroy_slot fuel i h s)) ks s1 = Inr s'"
    "tw_rep s' L'" "dom (tw_mem s') = (\<Union>i < 60. set (L' i))"
    "\<forall>i < 60. L' i = (if int i \<in> set ks then [] else (L(nat k := [])) i)" by auto
  with s1(1) k show ?case by (intro exI[of _ s'] conjI exI[of _ L']) auto
qed

subsection \<open>Properties\<close>

fun tw_history :: "nat \<Rightarrow> tw_op list \<Rightarrow> wheel_view \<Rightarrow> bool" where
  "tw_history N [] v \<longleftrightarrow> True"
| "tw_history N (c # cs) v \<longleftrightarrow> tw_legal N c v \<and> tw_history N cs (tw_spec c v)"

lemma tw_history_run: "tw_history N cs v \<longleftrightarrow> tw.legal_run N cs v"
  by (induction cs arbitrary: v) auto

lemma tw_rel_dom: "tw_rel N (s, w) v \<Longrightarrow> dom (tw_mem s) = dom v"
  by (auto simp: tw_rel_def)

lemma tw_rel_empty: "tw_rel N (new_time_wheel Map.empty, w) Map.empty"
proof (rule tw_relI[where L = "\<lambda>_. []"])
  show "tw_view (new_time_wheel Map.empty) = Map.empty"
    by (simp add: fun_eq_iff tw_view_def core_view_def core_def new_time_wheel_def)
qed (simp_all add: new_time_wheel_def tw_rep_def tw_N_def core_def)

lemma countdown_run:
  assumes "v a = Some (k, c, d)" and "int n \<le> k"
  shows "fold tw_spec (replicate n TW_Tick) v a = Some (k - int n, c, d)"
  using assms
proof (induction n arbitrary: v k)
  case (Suc n)
  have "tw_spec TW_Tick v a = Some (k - 1, c, d)"
    using Suc.prems by (simp add: countdown_def)
  with Suc.IH[of "tw_spec TW_Tick v" "k - 1"] Suc.prems(2) show ?case by simp
qed simp

lemma tw_ticks_legal: "tw_history N (replicate n TW_Tick) v"
  by (induction n arbitrary: v) auto

text \<open>
  C13 Refinement of the whole wheel. Starting from a new \<open>time_wheel\<close>, any history of
  \<open>add_timer\<close> (with any timeout, also a negative one), \<open>del_timer\<close> and \<open>tick\<close> with at most
  \<open>N\<close> timers runs without a null, dangling, uninitialised or out-of-range access, and the
  sixty slots, rotations and the current slot always encode exactly the countdown of every
  timer that is still registered; the objects in memory are exactly these timers.
\<close>

theorem time_wheel_refines:
  assumes "tw_history N cs Map.empty"
  shows "\<exists>s log. run_events (tw_exec N log_call) cs (new_time_wheel Map.empty, []) = Inr (s, log) \<and>
    tw_rel N (s, log) (fold tw_spec cs Map.empty) \<and> dom (tw_mem s) = dom (fold tw_spec cs Map.empty)"
  using tw.run_live[OF tw_rel_empty[where w = "[]"], of N cs] assms
  by (fastforce simp: tw_history_run)

theorem time_wheel_refines_witness:
  "\<exists>s log. run_events (tw_exec 2 log_call) [TW_Add 1 61 7 (Some 5), TW_Add 2 0 7 None, TW_Tick, TW_Del 2]
      (new_time_wheel Map.empty, []) = Inr (s, log) \<and> dom (tw_mem s) = {1}"
proof -
  let ?cs = "[TW_Add 1 61 7 (Some 5), TW_Add 2 0 7 None, TW_Tick, TW_Del 2]"
  have "tw_history 2 ?cs Map.empty" by (simp add: countdown_def)
  moreover have "dom (fold tw_spec ?cs Map.empty) = {1}"
    by (auto simp: countdown_def dom_def split: if_splits)
  ultimately show ?thesis using time_wheel_refines[of 2 ?cs] by metis
qed

text \<open>
  C20 When a timer fires. A timer added with a timeout of \<open>t\<close> seconds, \<open>t \<ge> 0\<close>, to a wheel
  with any contents survives exactly \<open>max 1 t\<close> ticks: it is still registered after \<open>n\<close>
  ticks for every \<open>n \<le> max 1 t\<close>, and the next call of \<open>tick\<close>, number \<open>max 1 t + 1\<close>, calls
  its callback with its client and removes it.
\<close>

theorem timer_fires_after_timeout:
  assumes "tw_rel N (s, log) v" and "v a = None" and "card (dom v) < N" and "0 \<le> t"
    and "int n \<le> max 1 t"
  shows "\<exists>s1 log1 s2 log2.
    run_events (tw_exec N log_call) (TW_Add a t f d # replicate n TW_Tick) (s, log) = Inr (s1, log1) \<and>
    a \<in> dom (tw_mem s1) \<and>
    tw_tick (Suc N) log_call s1 log1 = Inr (s2, log2) \<and>
    (int n = max 1 t \<longrightarrow> a \<notin> dom (tw_mem s2) \<and> (f, d) \<in> set (drop (length log1) log2)) \<and>
    (int n < max 1 t \<longrightarrow> a \<in> dom (tw_mem s2))"
proof -
  let ?cs = "TW_Add a t f d # replicate n TW_Tick" and ?v = "v(a \<mapsto> (max 1 t, Some f, d))"
  have "tw_history N ?cs v" using assms(2-4) tw_ticks_legal by simp
  then have "tw.legal_run N ?cs v" by (rule tw_history_run[THEN iffD1])
  from tw.run_live[OF assms(1) this]
  obtain st where "run_events (tw_exec N log_call) ?cs (s, log) = Inr st \<and> tw_rel N st (fold tw_spec ?cs v)"
    by blast
  then obtain s1 log1 where run: "run_events (tw_exec N log_call) ?cs (s, log) = Inr (s1, log1)"
    and rel: "tw_rel N (s1, log1) (fold tw_spec ?cs v)"
    by (cases st) blast
  let ?w = "fold tw_spec ?cs v"
  have w: "?w a = Some (max 1 t - int n, Some f, d)"
    using countdown_run[of ?v a "max 1 t" "Some f" d n] assms(4,5) by simp
  obtain s2 as where tick: "tw_tick (Suc N) log_call s1 log1 = Inr (s2, log1 @ map (log_entry (tw_mem s1)) as)"
    and as: "set as = {a. \<exists>c d. ?w a = Some (0, c, d)}"
    and rel2: "tw_rel N (s2, log1 @ map (log_entry (tw_mem s1)) as) (tw_spec TW_Tick ?w)"
    using tw_tick_correct[OF rel] by blast
  have dom1: "dom (tw_mem s1) = dom ?w" and dom2: "dom (tw_mem s2) = dom (tw_spec TW_Tick ?w)"
    using tw_rel_dom[OF rel] tw_rel_dom[OF rel2] by simp_all
  obtain tm where tm: "tw_mem s1 a = Some tm" using dom1 w by blast
  then have "tw_view s1 a = Some (remaining (cur_slot s1) (time_slot tm) (rotation tm), tw_cb tm, tw_data tm)"
    by (simp add: tw_view_def core_def core_view_def)
  moreover have "tw_view s1 a = ?w a" using rel by (simp add: tw_rel_def)
  ultimately have entry: "log_entry (tw_mem s1) a = (f, d)" using w tm by (simp add: log_entry_def)
  have "int n = max 1 t \<Longrightarrow> a \<in> set as" using as w by simp
  then have "int n = max 1 t \<Longrightarrow> (f, d) \<in> set (map (log_entry (tw_mem s1)) as)"
    using entry by force
  moreover have "tw_spec TW_Tick ?w a = (if int n = max 1 t then None else Some (max 1 t - int n - 1, Some f, d))"
    using w by (simp add: countdown_def)
  ultimately have due: "int n = max 1 t \<longrightarrow> a \<notin> dom (tw_mem s2) \<and>
      (f, d) \<in> set (drop (length log1) (log1 @ map (log_entry (tw_mem s1)) as))"
    and kept: "int n < max 1 t \<longrightarrow> a \<in> dom (tw_mem s2)"
    unfolding dom2 by (simp_all add: domIff del: tw_spec.simps)
  have "a \<in> dom (tw_mem s1)" unfolding dom1 using w by blast
  with run tick due kept show ?thesis by blast
qed

theorem timer_fires_after_timeout_witness:
  "\<exists>s1 log1 s2 log2.
    run_events (tw_exec 1 log_call) (TW_Add 9 61 7 (Some 4) # replicate 61 TW_Tick) (new_time_wheel Map.empty, [])
      = Inr (s1, log1) \<and>
    tw_tick (Suc 1) log_call s1 log1 = Inr (s2, log2) \<and> (7, Some 4) \<in> set (drop (length log1) log2)"
proof -
  have "card (dom (Map.empty :: wheel_view)) < 1" "(0::int) \<le> 61" "int 61 \<le> max 1 61" "int 61 = max 1 61"
    by simp_all
  with timer_fires_after_timeout[OF tw_rel_empty[where w = "[]"],
      where a = 9 and N = 1 and t = 61 and n = 61 and f = 7 and d = "Some 4"]
  show ?thesis by blast
qed

text \<open>
  The destructor. Destroying a wheel deletes every timer it holds exactly once (a second
  \<open>delete\<close> would be a \<open>Dangling\<close> fault) and leaves no object in memory.
\<close>

theorem time_wheel_destroyed:
  assumes "tw_rel N (s, w) v"
  shows "\<exists>s'. tw_destroy (Suc N) s = Inr s' \<and> tw_mem s' = Map.empty"
proof -
  obtain L where rep: "tw_rep s L" and dom: "dom (tw_mem s) = (\<Union>i < 60. set (L i))"
    and "card (dom (tw_mem s)) < Suc N" using assms by (auto simp: tw_rel_def)
  from tw_destroy_slots[OF this, of "[0..59]"] obtain s' L' where
    run: "tw_destroy (Suc N) s = Inr s'" and "dom (tw_mem s') = (\<Union>i < 60. set (L' i))"
    and "\<forall>i < 60. L' i = (if int i \<in> set [0..59] then [] else L i)"
    unfolding tw_destroy_def tw_N_def by (auto simp del: tw_destroy_slot.simps)
  then have "dom (tw_mem s') = {}" by simp
  with run show ?thesis by simp
qed

theorem time_wheel_destroyed_witness:
  "\<exists>s'. tw_destroy 1 (new_time_wheel Map.empty) = Inr s' \<and> tw_mem s' = Map.empty"
  using time_wheel_destroyed[OF tw_rel_empty[of 0 "()"]] by simp

text \<open>
  The class of \<open>cpt_11_4_1.h\<close> reaches the end of its non-void \<open>add_timer\<close> for every
  timeout that is not negative: the pointer its callers get is undefined.
\<close>

theorem cpt_add_timer_returns_nothing:
  assumes "tw_rel N (s, w) v" and "v a = None" and "0 \<le> timeout"
  shows "cpt_add_timer a timeout s = Inl No_return"
proof -
  obtain L where "tw_rep s L" and "tw_mem s a = None"
    using assms(1,2) by (auto simp: tw_rel_def tw_view_def)
  then obtain s' where "tw_add_timer a timeout s = Inr (s', Some a)"
    using tw_add_correct assms(3) by blast
  with assms(3) show ?thesis by (simp add: cpt_add_timer_def)
qed

theorem cpt_add_timer_returns_nothing_witness:
  "cpt_add_timer 1 5 (new_time_wheel Map.empty) = Inl No_return"
  using cpt_add_timer_returns_nothing[OF tw_rel_empty, of 5 1] by simp

end
