(* ===== verification/Posix.thy ===== *)
theory Posix
  imports Net_Prelude
begin

section \<open>What the servers use of the kernel\<close>

text \<open>
  The numbers of \<open>errno.h\<close> and \<open>signal.h\<close> on Linux that the code compares with, the result
  of \<open>recv\<close>, and a stream socket as the code sees it: bytes arrive in any portions, a call
  of \<open>recv\<close> with room for \<open>n\<close> bytes takes at most \<open>n\<close> of those that have arrived, and fails
  with \<open>EAGAIN\<close> when there are none (every socket the servers read is non-blocking).
\<close>

definition EAGAIN :: int where "EAGAIN = 11"
definition EINTR :: int where "EINTR = 4"
definition SIGINT :: nat where "SIGINT = 2"
definition SIGPIPE :: nat where "SIGPIPE = 13"
definition SIGALRM :: nat where "SIGALRM = 14"
definition SIGTERM :: nat where "SIGTERM = 15"
definition SIGCHLD :: nat where "SIGCHLD = 17"

named_theorems posix_numbers "the values of the kernel's constants"
lemmas [posix_numbers] = EAGAIN_def EINTR_def SIGINT_def SIGPIPE_def SIGALRM_def SIGTERM_def SIGCHLD_def

datatype recv_result = Recv_error int | Recv_data "nat list"
  \<comment> \<open>\<open>-1\<close> and \<open>errno\<close>, or the bytes; no bytes is the \<open>0\<close> of an end of stream\<close>

definition received :: "nat \<Rightarrow> nat list \<Rightarrow> nat list" where
  \<comment> \<open>\<open>recv\<close> into a buffer of \<open>n\<close> bytes\<close>
  "received n bs = take n bs"

datatype arrival =
    Arrive "nat list"   \<comment> \<open>bytes that arrive before the call\<close>
  | Peer_closed
  | Sock_error int

definition sock_recv :: "nat \<Rightarrow> arrival \<Rightarrow> nat list \<Rightarrow> recv_result \<times> nat list" where
  \<comment> \<open>\<open>recv\<close> with room for \<open>n\<close> bytes on a stream socket with \<open>pending\<close> unread ones\<close>
  "sock_recv n a pending =
     (case a of
        Arrive bs \<Rightarrow>
          let p = pending @ bs in
          if n = 0 then (Recv_data [], p)
          else if p = [] then (Recv_error EAGAIN, [])
          else (Recv_data (take n p), drop n p)
      | Peer_closed \<Rightarrow> (Recv_data (take n pending), drop n pending)
      | Sock_error e \<Rightarrow> (Recv_error e, pending))"

lemma sock_recv_stream:
  "sock_recv n (Arrive bs) pending = (Recv_data got, rest) \<Longrightarrow> got @ rest = pending @ bs"
  by (auto simp: sock_recv_def Let_def simp del: take_append drop_append split: if_splits)

lemma sock_recv_bound:
  "sock_recv n a pending = (Recv_data got, rest) \<Longrightarrow> length got \<le> n"
  by (auto simp: sock_recv_def Let_def split: arrival.splits if_splits)

lemma sock_recv_all:
  \<comment> \<open>a call with room to spare empties the socket\<close>
  "sock_recv n (Arrive bs) pending = (Recv_data got, rest) \<Longrightarrow> length got < n \<Longrightarrow> rest = []"
  by (auto simp: sock_recv_def Let_def simp del: take_append drop_append split: if_splits)

definition bytes_of :: "string \<Rightarrow> nat list" where "bytes_of = map of_char"

definition c_string :: "nat list \<Rightarrow> nat list" where
  \<comment> \<open>the bytes of a buffer up to the first \<open>'\0'\<close>\<close>
  "c_string = takeWhile (\<lambda>b. b \<noteq> 0)"

lemma c_string_upto_zero [simp]: "c_string (xs @ 0 # ys) = c_string xs"
  by (simp add: c_string_def takeWhile_tail)

subsection \<open>Byte order and decimal numbers\<close>

unbundle bit_operations_syntax

definition htons :: "16 word \<Rightarrow> 16 word" where
  \<comment> \<open>on a little-endian machine\<close>
  "htons x = push_bit 8 x OR drop_bit 8 x"

definition ntohs :: "16 word \<Rightarrow> 16 word" where
  "ntohs x = push_bit 8 x OR drop_bit 8 x"

lemma ntohs_htons [simp]: "ntohs (htons x) = x"
  by (rule bit_word_eqI)
     (auto simp: ntohs_def htons_def bit_push_bit_iff bit_drop_bit_eq bit_or_iff)

definition is_digit :: "char \<Rightarrow> bool" where
  "is_digit c \<longleftrightarrow> (48 :: nat) \<le> of_char c \<and> of_char c \<le> (57 :: nat)"

definition is_space :: "char \<Rightarrow> bool" where
  "is_space c \<longleftrightarrow> of_char c = (32 :: nat) \<or> ((9 :: nat) \<le> of_char c \<and> of_char c \<le> (13 :: nat))"

definition decimal :: "string \<Rightarrow> int" where
  "decimal ds = fold (\<lambda>c a. 10 * a + (int (of_char c) - 48)) ds 0"

definition atoi :: "string \<Rightarrow> int" where
  \<comment> \<open>for numbers that fit an \<open>int\<close>\<close>
  "atoi s =
     (let s1 = dropWhile is_space s;
          neg = (s1 \<noteq> [] \<and> hd s1 = CHR ''-'');
          s2 = (if s1 \<noteq> [] \<and> (hd s1 = CHR ''-'' \<or> hd s1 = CHR ''+'') then tl s1 else s1);
          v = decimal (takeWhile is_digit s2) in
      if neg then - v else v)"

subsection \<open>The flags of a descriptor\<close>

definition O_NONBLOCK :: "32 word" where "O_NONBLOCK = 2048"

type_synonym file_flags = "int \<rightharpoonup> 32 word"
  \<comment> \<open>the status flags of the open descriptors\<close>

definition fcntl_getfl :: "file_flags \<Rightarrow> int \<Rightarrow> 32 word" where
  "fcntl_getfl m fd = (case m fd of None \<Rightarrow> -1 | Some f \<Rightarrow> f)"

definition fcntl_setfl :: "int \<Rightarrow> 32 word \<Rightarrow> file_flags \<Rightarrow> file_flags" where
  "fcntl_setfl fd f m = (if m fd = None then m else m(fd \<mapsto> f))"

definition setnonblocking :: "int \<Rightarrow> file_flags \<Rightarrow> 32 word \<times> file_flags" where
  "setnonblocking fd m =
     (let old_option = fcntl_getfl m fd; new_option = old_option OR O_NONBLOCK in
      (old_option, fcntl_setfl fd new_option m))"

definition nonblocking :: "file_flags \<Rightarrow> int \<Rightarrow> bool" where
  "nonblocking m fd \<longleftrightarrow> (case m fd of None \<Rightarrow> False | Some f \<Rightarrow> f AND O_NONBLOCK \<noteq> 0)"

lemma or_nonblock_bit: "bit (f OR O_NONBLOCK) n \<longleftrightarrow> bit f n \<or> n = 11" for f :: "32 word"
proof -
  have eq: "O_NONBLOCK = push_bit 11 1" by (simp add: O_NONBLOCK_def push_bit_eq_mult)
  have "bit O_NONBLOCK n \<longleftrightarrow> n = 11" for n
    unfolding eq bit_push_bit_iff bit_1_iff by auto
  then show ?thesis by (simp add: bit_or_iff)
qed

lemma or_nonblock_set: "(f OR O_NONBLOCK) AND O_NONBLOCK \<noteq> 0" for f :: "32 word"
proof -
  have "bit ((f OR O_NONBLOCK) AND O_NONBLOCK) 11"
    using or_nonblock_bit[of f 11] or_nonblock_bit[of 0 11] by (simp add: bit_and_iff)
  then show ?thesis by auto
qed

text \<open>
  \<open>setnonblocking\<close> makes an open descriptor non-blocking, keeps its other flags and those of
  every other descriptor, and returns the flags that it had.
\<close>

theorem setnonblocking_sets_one_flag:
  assumes "m fd = Some f" and "setnonblocking fd m = (old, t)"
  shows "old = f \<and> nonblocking t fd \<and> (\<forall>g. t fd = Some g \<longrightarrow> (\<forall>n. n \<noteq> 11 \<longrightarrow> bit g n = bit f n)) \<and>
    (\<forall>e. e \<noteq> fd \<longrightarrow> t e = m e)"
  using assms or_nonblock_set[of f]
  by (auto simp: setnonblocking_def Let_def fcntl_getfl_def fcntl_setfl_def nonblocking_def or_nonblock_bit)

theorem setnonblocking_sets_one_flag_witness:
  "nonblocking (snd (setnonblocking 5 [5 \<mapsto> 2, 6 \<mapsto> 0])) 5"
  using setnonblocking_sets_one_flag[of "[5 \<mapsto> 2, 6 \<mapsto> 0]" 5 2 "fst (setnonblocking 5 [5 \<mapsto> 2, 6 \<mapsto> 0])"
    "snd (setnonblocking 5 [5 \<mapsto> 2, 6 \<mapsto> 0])"] by simp

end
