(* ===== verification/Timer_Server.thy ===== *)
theory Timer_Server
  imports Sort_Timer_List Posix
begin

section \<open>The server with idle timers (\<open>linux_server/cpt_11_2_2.h\<close>)\<close>

text \<open>
  \<open>test_timer_server\<close>: an \<open>epoll\<close> loop that gives every connection a timer of
  \<open>3 * TIMESLOT\<close> seconds, moves it whenever the client sends, and closes the connection
  when it expires or the client closes. Signals reach the loop as bytes of a socket pair.

  The state is the timer list, the array \<open>users\<close>, the log of the system calls made and the
  two flags of the loop. What the kernel answers (the event, \<open>accept\<close>, \<open>recv\<close>, \<open>time\<close>, the
  address \<open>new\<close> returns) comes with each event.
\<close>

subsection \<open>System calls\<close>

datatype ts_call =
    Opened int            \<comment> \<open>\<open>socket\<close>, \<open>epoll_create\<close>, \<open>socketpair\<close> or \<open>accept\<close> returned it\<close>
  | Epoll_add int int
  | Epoll_del int int
  | Closed int
  | Alarm int
  | Nonblocking int
  | Sigaction int
  | Sent int nat          \<comment> \<open>one byte\<close>

text \<open>
  The descriptors open after a log: \<open>None\<close> if a descriptor was closed that was not open, or
  handed out twice.
\<close>

fun fd_step :: "ts_call \<Rightarrow> int set option \<Rightarrow> int set option" where
  "fd_step c None = None"
| "fd_step (Opened fd) (Some S) = (if fd \<in> S then None else Some (insert fd S))"
| "fd_step (Closed fd) (Some S) = (if fd \<in> S then Some (S - {fd}) else None)"
| "fd_step c (Some S) = Some S"

definition open_fds :: "ts_call list \<Rightarrow> int set option" where
  "open_fds log = fold fd_step log (Some {})"

subsection \<open>State\<close>

definition FD_LIMIT :: nat where "FD_LIMIT = 65535"
definition TIMESLOT :: int where "TIMESLOT = 5"
definition BUFFER_SIZE :: nat where "BUFFER_SIZE = 64"

definition static_epollfd :: int where
  \<comment> \<open>the static \<open>epollfd\<close>: the one \<open>test_timer_server\<close> assigns is a local of the same name\<close>
  "static_epollfd = 0"

record ClientData =
  c_address :: nat
  c_sockfd :: int
  c_buf :: "nat list"
  c_timer :: ptr

record ts_world =
  users :: "nat \<Rightarrow> ClientData"
  sys :: "ts_call list"

record timer_server =
  ts_list :: sort_timer_list
  ts_world :: ts_world
  ts_timeout :: bool
  ts_stop :: bool

definition user_index :: "int \<Rightarrow> nat res" where
  \<comment> \<open>\<open>users[fd]\<close> of an array of \<open>FD_LIMIT\<close> elements\<close>
  "user_index fd = (if 0 \<le> fd \<and> nat fd < FD_LIMIT then Inr (nat fd) else Inl Out_of_bounds)"

definition syscall :: "ts_call \<Rightarrow> ts_world \<Rightarrow> ts_world" where
  "syscall c w = w\<lparr>sys := sys w @ [c]\<rparr>"

subsection \<open>The functions of the file\<close>

definition addfd :: "int \<Rightarrow> int \<Rightarrow> ts_world \<Rightarrow> ts_world" where
  "addfd epfd fd = syscall (Epoll_add epfd fd)"

definition sig_handler :: "int \<Rightarrow> nat \<Rightarrow> ts_world \<Rightarrow> ts_world" where
  \<comment> \<open>the first byte of the \<open>int\<close> on a little-endian machine\<close>
  "sig_handler pipe1 sig = syscall (Sent pipe1 (sig mod 256))"

definition add_sig :: "bool \<Rightarrow> nat \<Rightarrow> ts_world \<Rightarrow> ts_world res" where
  \<comment> \<open>\<open>ok\<close>: \<open>sigaction\<close> does not return \<open>-1\<close>\<close>
  "add_sig ok sig w = (if ok then Inr (syscall (Sigaction (int sig)) w) else Inl Assert_failed)"

definition cb_func :: "nat option \<Rightarrow> ts_world \<Rightarrow> ts_world res" where
  "cb_func u w =
     (case u of None \<Rightarrow> Inl Null_deref
      | Some i \<Rightarrow> Inr (syscall (Closed (c_sockfd (users w i)))
                  (syscall (Epoll_del static_epollfd (c_sockfd (users w i))) w)))"

definition cb_id :: nat where "cb_id = 0"

definition ts_callback :: "nat \<Rightarrow> nat option \<Rightarrow> ts_world \<Rightarrow> ts_world res" where
  \<comment> \<open>what a timer's \<open>std::function\<close> may hold\<close>
  "ts_callback f u w = (if f = cb_id then cb_func u w else Inl Bad_function_call)"

definition timer_handler :: "nat \<Rightarrow> int \<Rightarrow> timer_server \<Rightarrow> timer_server res" where
  "timer_handler N now s =
     rbind (tick (Suc N) ts_callback now (ts_list s) (ts_world s)) (\<lambda>(l, w).
       Inr (s\<lparr>ts_list := l, ts_world := syscall (Alarm TIMESLOT) w\<rparr>))"

subsection \<open>One event\<close>

record ts_event =
  ev_fd :: int
  ev_in :: bool           \<comment> \<open>\<open>events[i].events & EPOLLIN\<close>\<close>
  accept_ret :: int
  accept_addr :: nat
  new_addr :: addr
  recv_ret :: recv_result
  time_ret :: int

record ts_env =
  listenfd :: int
  epollfd :: int          \<comment> \<open>the local one\<close>
  pipe0 :: int
  pipe1 :: int

definition on_connection :: "nat \<Rightarrow> ts_env \<Rightarrow> ts_event \<Rightarrow> timer_server \<Rightarrow> timer_server res" where
  "on_connection N env e s =
     (let connfd = accept_ret e;
          w0 = if connfd = -1 then ts_world s else syscall (Opened connfd) (ts_world s);
          w1 = addfd (epollfd env) connfd w0 in
      rbind (user_index connfd) (\<lambda>i.
        let t = new_util_timer (time_ret e + 3 * TIMESLOT) (Some cb_id) (Some i);
            w2 = w1\<lparr>users := (users w1)(i := (users w1 i)
                    \<lparr>c_address := accept_addr e, c_sockfd := connfd, c_timer := Some (new_addr e)\<rparr>)\<rparr> in
        rbind (add_timer N ((ts_list s)\<lparr>mem := (mem (ts_list s))(new_addr e \<mapsto> t)\<rparr>) (Some (new_addr e)))
          (\<lambda>l. Inr (s\<lparr>ts_list := l, ts_world := w2\<rparr>))))"

definition on_signal :: "ts_event \<Rightarrow> timer_server \<Rightarrow> timer_server" where
  "on_signal e s =
     (case recv_ret e of
        Recv_error _ \<Rightarrow> s
      | Recv_data bs \<Rightarrow>
          fold (\<lambda>b s. if b = SIGALRM then s\<lparr>ts_timeout := True\<rparr>
                      else if b = SIGTERM then s\<lparr>ts_stop := True\<rparr> else s)
            (received 1024 bs) s)"

definition close_user :: "nat \<Rightarrow> timer_server \<Rightarrow> timer_server res" where
  \<comment> \<open>\<open>cb_func(&users[sockfd]); if (timer) timer_list.del_timer(timer);\<close>\<close>
  "close_user i s =
     rbind (cb_func (Some i) (ts_world s)) (\<lambda>w.
     rbind (del_timer (ts_list s) (c_timer (users (ts_world s) i))) (\<lambda>l.
       Inr (s\<lparr>ts_list := l, ts_world := w\<rparr>)))"

definition on_data :: "nat \<Rightarrow> ts_event \<Rightarrow> timer_server \<Rightarrow> timer_server res" where
  "on_data N e s =
     rbind (user_index (ev_fd e)) (\<lambda>i.
       let fill = (\<lambda>bs. bs @ replicate (BUFFER_SIZE - length bs) 0);
           put = (\<lambda>bs. s\<lparr>ts_world := (ts_world s)\<lparr>users := (users (ts_world s))
                    (i := (users (ts_world s) i)\<lparr>c_buf := fill bs\<rparr>)\<rparr>\<rparr>) in
       (case recv_ret e of
          Recv_error err \<Rightarrow> if err \<noteq> EAGAIN then close_user i (put []) else Inr (put [])
        | Recv_data bs \<Rightarrow>
            let got = received (BUFFER_SIZE - 1) bs; s1 = put got; timer = c_timer (users (ts_world s1) i) in
            if got = [] then close_user i s1
            else if timer = None then Inr s1
            else rbind (store (mem (ts_list s1)) timer (\<lambda>t. t\<lparr>expire := time_ret e + 3 * TIMESLOT\<rparr>)) (\<lambda>m.
                 rbind (adjust_timer N ((ts_list s1)\<lparr>mem := m\<rparr>) timer) (\<lambda>l.
                   Inr (s1\<lparr>ts_list := l\<rparr>)))))"

definition ts_handle :: "nat \<Rightarrow> ts_env \<Rightarrow> ts_event \<Rightarrow> timer_server \<Rightarrow> timer_server res" where
  "ts_handle N env e s =
     (if ev_fd e = listenfd env then on_connection N env e s
      else if ev_fd e = pipe0 env \<and> ev_in e then Inr (on_signal e s)
      else if ev_in e then on_data N e s
      else Inr s)"

subsection \<open>The loop and the function\<close>

datatype ts_wait = Wait_failed int int | Wait_events "ts_event list" int
  \<comment> \<open>what \<open>epoll_wait\<close> returns (\<open>errno\<close> or the events), and the time at the end of the round\<close>

definition ts_timeouts :: "nat \<Rightarrow> int \<Rightarrow> timer_server \<Rightarrow> timer_server res" where
  "ts_timeouts N now s =
     (if ts_timeout s then rbind (timer_handler N now s) (\<lambda>s1. Inr (s1\<lparr>ts_timeout := False\<rparr>)) else Inr s)"

fun ts_loop :: "nat \<Rightarrow> ts_env \<Rightarrow> ts_wait list \<Rightarrow> timer_server \<Rightarrow> (bool \<times> timer_server) res" where
  \<comment> \<open>whether the loop has been left, or the script has ended while the server waits\<close>
  "ts_loop N env [] s = Inr (ts_stop s, s)"
| "ts_loop N env (Wait_failed err now # ws) s =
     (if ts_stop s then Inr (True, s) else if err \<noteq> EINTR then Inr (True, s)
      else rbind (ts_timeouts N now s) (ts_loop N env ws))"
| "ts_loop N env (Wait_events es now # ws) s =
     (if ts_stop s then Inr (True, s)
      else rbind (run_events (ts_handle N env) es s) (\<lambda>s1.
           rbind (ts_timeouts N now s1) (ts_loop N env ws)))"

record ts_start =
  bind_ok :: bool
  listen_ok :: bool
  pair_ok :: bool
  sigaction_ok :: bool

definition ts_setup :: "ts_env \<Rightarrow> ts_start \<Rightarrow> (nat \<Rightarrow> ClientData) \<Rightarrow> (addr \<rightharpoonup> util_timer) \<Rightarrow> timer_server res" where
  \<comment> \<open>up to the loop: \<open>new ClientData[]\<close> leaves the array as it is, here \<open>us\<close>\<close>
  "ts_setup env st us m =
     (let w0 = \<lparr>users = us, sys = []\<rparr> in
      if listenfd env < 0 \<or> \<not> bind_ok st \<or> \<not> listen_ok st \<or> epollfd env = -1 then Inl Assert_failed
      else
        let w1 = addfd (epollfd env) (listenfd env) (syscall (Opened (epollfd env)) (syscall (Opened (listenfd env)) w0)) in
        if \<not> pair_ok st then Inl Assert_failed
        else
          let w2 = addfd (epollfd env) (pipe0 env) (syscall (Nonblocking (pipe1 env))
                     (syscall (Opened (pipe1 env)) (syscall (Opened (pipe0 env)) w1))) in
          rbind (add_sig (sigaction_ok st) SIGALRM w2) (\<lambda>w3.
          rbind (add_sig (sigaction_ok st) SIGTERM w3) (\<lambda>w4.
            Inr \<lparr>ts_list = Sort_timer_list m, ts_world = syscall (Alarm TIMESLOT) w4,
                 ts_timeout = False, ts_stop = False\<rparr>)))"

definition ts_teardown :: "ts_env \<Rightarrow> timer_server \<Rightarrow> timer_server" where
  "ts_teardown env s = s\<lparr>ts_world := syscall (Closed (pipe0 env)) (syscall (Closed (pipe1 env))
     (syscall (Closed (listenfd env)) (ts_world s)))\<rparr>"

definition test_timer_server :: "nat \<Rightarrow> int \<Rightarrow> ts_env \<Rightarrow> ts_start \<Rightarrow> (nat \<Rightarrow> ClientData) \<Rightarrow> ts_wait list
    \<Rightarrow> (int option \<times> timer_server option) res" where
  \<comment> \<open>the value returned, \<open>None\<close> while it waits, and the state it leaves\<close>
  "test_timer_server N argc env st us ws =
     (if argc \<le> 2 then Inr (Some 1, None)
      else rbind (ts_setup env st us Map.empty) (\<lambda>s.
           rbind (ts_loop N env ws s) (\<lambda>(left, s1).
             Inr (if left then (Some 0, Some (ts_teardown env s1)) else (None, Some s1)))))"

subsection \<open>The specification: who is connected, and until when\<close>

text \<open>
  The abstract state gives every open connection its timer object and the time when it is
  closed unless its client sends, and the two flags.
\<close>

type_synonym conns = "nat \<rightharpoonup> addr \<times> int"
type_synonym ts_view = "conns \<times> bool \<times> bool"

fun ts_spec :: "ts_env \<Rightarrow> ts_event \<Rightarrow> ts_view \<Rightarrow> ts_view" where
  "ts_spec env e (c, tmo, stop) =
     (if ev_fd e = listenfd env then (c(nat (accept_ret e) \<mapsto> (new_addr e, time_ret e + 15)), tmo, stop)
      else if ev_in e then
        (if ev_fd e = pipe0 env then
           (case recv_ret e of Recv_error _ \<Rightarrow> (c, tmo, stop)
            | Recv_data bs \<Rightarrow> (c, tmo \<or> SIGALRM \<in> set (take 1024 bs), stop \<or> SIGTERM \<in> set (take 1024 bs)))
         else
           (case recv_ret e of
              Recv_error err \<Rightarrow> (if err = EAGAIN then c else c(nat (ev_fd e) := None), tmo, stop)
            | Recv_data bs \<Rightarrow>
                (if bs = [] then c(nat (ev_fd e) := None)
                 else c(nat (ev_fd e) := map_option (\<lambda>(a, _). (a, time_ret e + 15)) (c (nat (ev_fd e)))), tmo, stop)))
      else (c, tmo, stop))"

definition still_waiting :: "int \<Rightarrow> conns \<Rightarrow> conns" where
  "still_waiting now c = (\<lambda>i. case c i of None \<Rightarrow> None | Some (a, d) \<Rightarrow> if now < d then Some (a, d) else None)"

definition reserved :: "ts_env \<Rightarrow> int set" where
  "reserved env = {listenfd env, epollfd env, pipe0 env, pipe1 env}"

definition accept_ok :: "nat \<Rightarrow> ts_env \<Rightarrow> ts_event \<Rightarrow> conns \<Rightarrow> bool" where
  \<comment> \<open>\<open>accept\<close> succeeds with a descriptor that is not in use, and \<open>new\<close> with a fresh address\<close>
  "accept_ok N env e c \<longleftrightarrow> 0 \<le> accept_ret e \<and> accept_ret e < int FD_LIMIT \<and> accept_ret e \<notin> reserved env \<and>
     c (nat (accept_ret e)) = None \<and> new_addr e \<notin> fst ` ran c \<and> card (dom c) < N"

fun ts_legal :: "nat \<Rightarrow> ts_env \<Rightarrow> ts_event \<Rightarrow> ts_view \<Rightarrow> bool" where
  \<comment> \<open>an event is for an open descriptor, and the clock does not run backwards\<close>
  "ts_legal N env e (c, tmo, stop) \<longleftrightarrow>
     (if ev_fd e = listenfd env then accept_ok N env e c
      else ev_fd e = pipe0 env \<or> \<not> ev_in e \<or>
        (0 \<le> ev_fd e \<and> (case c (nat (ev_fd e)) of None \<Rightarrow> False | Some (a, d) \<Rightarrow> d \<le> time_ret e + 15)))"

definition entry_ok :: "(nat \<Rightarrow> ClientData) \<Rightarrow> conns \<Rightarrow> timer_view \<Rightarrow> bool" where
  "entry_ok us c v \<longleftrightarrow> t_call v = Some cb_id \<and>
     (\<exists>i < FD_LIMIT. t_data v = Some i \<and> c i = Some (t_id v, t_expire v) \<and>
        c_sockfd (us i) = int i \<and> c_timer (us i) = Some (t_id v))"

definition ts_rel :: "nat \<Rightarrow> ts_env \<Rightarrow> timer_server \<Rightarrow> ts_view \<Rightarrow> bool" where
  "ts_rel N env s v \<longleftrightarrow>
     (case v of (c, tmo, stop) \<Rightarrow>
        ts_timeout s = tmo \<and> ts_stop s = stop \<and>
        (\<exists>vs. tl_rel N (ts_list s, ()) vs \<and> distinct (map t_data vs) \<and>
           (\<forall>v \<in> set vs. entry_ok (users (ts_world s)) c v) \<and> t_data ` set vs = Some ` dom c) \<and>
        open_fds (sys (ts_world s)) = Some (reserved env \<union> int ` dom c) \<and>
        reserved env \<inter> int ` dom c = {})"

subsection \<open>The handler follows the specification\<close>

lemma open_fds_append [simp]: "open_fds (log @ cs) = fold fd_step cs (open_fds log)"
  by (simp add: open_fds_def)

lemma sys_syscall [simp]:
  "sys (syscall c w) = sys w @ [c]" "users (syscall c w) = users w"
  by (simp_all add: syscall_def)

lemma ts_relI:
  assumes "tl_rel N (l, ()) vs" and "distinct (map t_data vs)" and "\<forall>v \<in> set vs. entry_ok (users w) c v"
    and "t_data ` set vs = Some ` dom c" and "open_fds (sys w) = Some (reserved env \<union> int ` dom c)"
    and "reserved env \<inter> int ` dom c = {}"
  shows "ts_rel N env \<lparr>ts_list = l, ts_world = w, ts_timeout = tmo, ts_stop = stop\<rparr> (c, tmo, stop)"
  unfolding ts_rel_def prod.case timer_server.simps using assms by blast

lemma ts_relE:
  assumes "ts_rel N env s (c, tmo, stop)"
  obtains l w vs where "s = \<lparr>ts_list = l, ts_world = w, ts_timeout = tmo, ts_stop = stop\<rparr>"
    "tl_rel N (l, ()) vs" "distinct (map t_data vs)" "\<forall>v \<in> set vs. entry_ok (users w) c v"
    "t_data ` set vs = Some ` dom c" "open_fds (sys w) = Some (reserved env \<union> int ` dom c)"
    "reserved env \<inter> int ` dom c = {}"
  using assms by (cases s) (auto simp: ts_rel_def)

lemma ts_rel_card:
  assumes "distinct (map t_data vs)" and "t_data ` set vs = Some ` dom c"
  shows "length vs = card (dom c)"
proof -
  have "length vs = card (set (map t_data vs))" using assms(1) by (metis distinct_card length_map)
  also have "\<dots> = card (Some ` dom c)" using assms(2) by simp
  also have "\<dots> = card (dom c)" by (rule card_image) simp
  finally show ?thesis .
qed

lemma entry_of:
  assumes "\<forall>v \<in> set vs. entry_ok us c v" and "t_data ` set vs = Some ` dom c" and "c i = Some (a, d)"
  obtains x where "x \<in> set vs" "t_data x = Some i" "t_id x = a" "t_expire x = d" "i < FD_LIMIT"
    "c_sockfd (us i) = int i" "c_timer (us i) = Some a"
proof -
  have "Some i \<in> t_data ` set vs" using assms(2,3) by blast
  then obtain x where x: "x \<in> set vs" "t_data x = Some i" by auto
  with assms(1) have "entry_ok us c x" by blast
  with x assms(3) show thesis by (intro that[of x]) (auto simp: entry_ok_def)
qed

lemma filter_eq_singleton:
  "distinct xs \<Longrightarrow> x \<in> set xs \<Longrightarrow> (\<And>y. y \<in> set xs \<Longrightarrow> P y \<longleftrightarrow> y = x) \<Longrightarrow> filter P xs = [x]"
proof (induction xs)
  case (Cons z zs)
  show ?case
  proof (cases "z = x")
    case True
    with Cons.prems have "filter P zs = []" by (auto simp: filter_empty_conv)
    with True Cons.prems show ?thesis by simp
  next
    case False
    with Cons show ?thesis by auto
  qed
qed simp

lemma entry_ok_other:
  assumes "entry_ok us c x" and "t_data x \<noteq> Some i" and "\<And>j. j \<noteq> i \<Longrightarrow> us' j = us j \<and> c' j = c j"
  shows "entry_ok us' c' x"
  using assms unfolding entry_ok_def by metis

lemma unit_rel: "tl_rel N (l, w) vs \<Longrightarrow> tl_rel N (l, w') vs"
  by (simp add: tl_rel_def)

text \<open>The three operations on the list, as the server uses them.\<close>

lemma list_add:
  assumes "tl_rel N (l, ()) vs" and "length vs < N" and "a \<notin> t_id ` set vs"
  shows "\<exists>l'. add_timer N (l\<lparr>mem := (mem l)(a \<mapsto> new_util_timer e (Some f) u)\<rparr>) (Some a) = Inr l' \<and>
    tl_rel N (l', ()) (insert_timer (Timer a e (Some f) u) vs)"
  using add_sim[OF assms(1), of a e "Some f" u] assms(2,3) by fastforce

lemma list_postpone:
  assumes "tl_rel N (l, ()) vs" and "x \<in> set vs" and "t_expire x \<le> e"
  shows "\<exists>m l'. store (mem l) (Some (t_id x)) (\<lambda>t. t\<lparr>expire := e\<rparr>) = Inr m \<and>
    adjust_timer N (l\<lparr>mem := m\<rparr>) (Some (t_id x)) = Inr l' \<and>
    tl_rel N (l', ()) (tl_spec (Postpone (t_id x) e) vs)"
  using postpone_sim[OF assms(1), of "t_id x" e] assms(2,3) by fastforce

lemma list_remove:
  assumes "tl_rel N (l, ()) vs" and "a \<in> t_id ` set vs"
  shows "\<exists>l'. del_timer l (Some a) = Inr l' \<and> tl_rel N (l', ()) (filter (\<lambda>v. t_id v \<noteq> a) vs)"
  using remove_sim[OF assms(1), of a] assms(2) by fastforce

lemma distinct_data_insert:
  "distinct (map t_data vs) \<Longrightarrow> t_data x \<notin> t_data ` set vs \<Longrightarrow> distinct (map t_data (insert_timer x vs))"
  by (induction vs) auto

lemma ids_distinct: "tl_rel N (l, ()) vs \<Longrightarrow> inj_on t_id (set vs)"
  using tl_rel_distinct by (fastforce simp: distinct_map)

lemma accept_sim:
  assumes rel: "ts_rel N env s (c, tmo, stop)" and ok: "accept_ok N env e c"
  shows "\<exists>t. on_connection N env e s = Inr t \<and>
    ts_rel N env t (c(nat (accept_ret e) \<mapsto> (new_addr e, time_ret e + 15)), tmo, stop)"
proof -
  define i where "i = nat (accept_ret e)"
  define d where "d = time_ret e + 15"
  obtain l w vs where s: "s = \<lparr>ts_list = l, ts_world = w, ts_timeout = tmo, ts_stop = stop\<rparr>"
    and list: "tl_rel N (l, ()) vs" and dist: "distinct (map t_data vs)"
    and entries: "\<forall>v \<in> set vs. entry_ok (users w) c v" and data: "t_data ` set vs = Some ` dom c"
    and fds: "open_fds (sys w) = Some (reserved env \<union> int ` dom c)"
    and disj: "reserved env \<inter> int ` dom c = {}"
    using rel by (rule ts_relE)
  have i: "i < FD_LIMIT" "accept_ret e = int i" "c i = None" and new: "int i \<notin> reserved env"
    and fresh: "new_addr e \<notin> fst ` ran c"
    using ok by (auto simp: accept_ok_def i_def)
  have ni: "Some i \<notin> t_data ` set vs" using data i(3) by auto
  have "length vs < N" using ts_rel_card[OF dist data] ok by (simp add: accept_ok_def)
  moreover have "new_addr e \<notin> t_id ` set vs"
    using entries fresh unfolding entry_ok_def by (force intro: ranI)
  ultimately obtain l' where l': "add_timer N (l\<lparr>mem := (mem l)(new_addr e \<mapsto> new_util_timer d (Some cb_id) (Some i))\<rparr>)
      (Some (new_addr e)) = Inr l'" "tl_rel N (l', ()) (insert_timer (Timer (new_addr e) d (Some cb_id) (Some i)) vs)"
    using list_add[OF list] by blast
  let ?x = "Timer (new_addr e) d (Some cb_id) (Some i)" and ?c = "c(i \<mapsto> (new_addr e, d))"
  let ?us = "(users w)(i := (users w i)
      \<lparr>c_address := accept_addr e, c_sockfd := accept_ret e, c_timer := Some (new_addr e)\<rparr>)"
  let ?w = "(addfd (epollfd env) (accept_ret e) (syscall (Opened (accept_ret e)) w))\<lparr>users := ?us\<rparr>"
  have run: "on_connection N env e s = Inr (\<lparr>ts_list = l', ts_world = ?w, ts_timeout = tmo, ts_stop = stop\<rparr>)"
    using i l'(1) by (simp add: s on_connection_def user_index_def Let_def TIMESLOT_def addfd_def d_def)
  have "\<forall>v \<in> set (insert_timer ?x vs). entry_ok ?us ?c v"
  proof
    fix v assume "v \<in> set (insert_timer ?x vs)"
    then consider "v = ?x" | "v \<in> set vs" by auto
    then show "entry_ok ?us ?c v"
    proof cases
      case 1 then show ?thesis using i by (simp add: entry_ok_def)
    next
      case 2
      then have "t_data v \<noteq> Some i" using ni by force
      with 2 entries show ?thesis by (auto intro: entry_ok_other)
    qed
  qed
  moreover have "t_data ` set (insert_timer ?x vs) = Some ` dom ?c" using data by simp
  moreover have "distinct (map t_data (insert_timer ?x vs))" using dist ni by (intro distinct_data_insert) simp_all
  moreover have "open_fds (sys ?w) = Some (reserved env \<union> int ` dom ?c)"
    using fds new i by (auto simp: addfd_def)
  moreover have "reserved env \<inter> int ` dom ?c = {}" using disj new by auto
  ultimately have "ts_rel N env (\<lparr>ts_list = l', ts_world = ?w, ts_timeout = tmo, ts_stop = stop\<rparr>) (?c, tmo, stop)"
    using l'(2) by (intro ts_relI[where vs = "insert_timer ?x vs"]) simp_all
  with run show ?thesis by (simp add: i_def d_def)
qed

lemma close_sim:
  assumes rel: "ts_rel N env s (c, tmo, stop)" and i: "c i = Some (a, d)"
  shows "\<exists>t. close_user i s = Inr t \<and> ts_rel N env t (c(i := None), tmo, stop)"
proof -
  obtain l w vs where s: "s = \<lparr>ts_list = l, ts_world = w, ts_timeout = tmo, ts_stop = stop\<rparr>"
    and list: "tl_rel N (l, ()) vs" and dist: "distinct (map t_data vs)"
    and entries: "\<forall>v \<in> set vs. entry_ok (users w) c v" and data: "t_data ` set vs = Some ` dom c"
    and fds: "open_fds (sys w) = Some (reserved env \<union> int ` dom c)"
    and disj: "reserved env \<inter> int ` dom c = {}"
    using rel by (rule ts_relE)
  obtain x where x: "x \<in> set vs" "t_data x = Some i" "t_id x = a"
    and user: "c_sockfd (users w i) = int i" "c_timer (users w i) = Some a"
    using entry_of[OF entries data i] by metis
  obtain l' where l': "del_timer l (Some a) = Inr l'"
    "tl_rel N (l', ()) (filter (\<lambda>v. t_id v \<noteq> a) vs)"
    using list_remove[OF list] x by blast
  let ?vs = "filter (\<lambda>v. t_id v \<noteq> a) vs" and ?c = "c(i := None)"
  let ?w = "syscall (Closed (int i)) (syscall (Epoll_del static_epollfd (int i)) w)"
  have run: "close_user i s = Inr (\<lparr>ts_list = l', ts_world = ?w, ts_timeout = tmo, ts_stop = stop\<rparr>)"
    using l'(1) user by (simp add: s close_user_def cb_func_def)
  have data_inj: "inj_on t_data (set vs)" using dist by (simp add: distinct_map)
  have same: "t_id v \<noteq> a \<longleftrightarrow> t_data v \<noteq> Some i" if "v \<in> set vs" for v
    using that x ids_distinct[OF list] data_inj by (metis inj_onD)
  have "set ?vs = set vs - {x}"
    using x ids_distinct[OF list] by (auto dest: inj_onD)
  then have "t_data ` set ?vs = t_data ` set vs - {Some i}"
    using data_inj x by (auto simp: inj_on_image_set_diff[OF data_inj])
  then have "t_data ` set ?vs = Some ` dom ?c" using data by auto
  moreover have "\<forall>v \<in> set ?vs. entry_ok (users ?w) ?c v"
    using entries same by (auto intro: entry_ok_other)
  moreover have "distinct (map t_data ?vs)" using dist by (simp add: distinct_map_filter)
  moreover have "open_fds (sys ?w) = Some (reserved env \<union> int ` dom ?c)"
  proof -
    have "int i \<in> int ` dom c" "int i \<notin> reserved env" using i disj by blast+
    moreover have "int ` dom ?c = int ` dom c - {int i}" by auto
    ultimately show ?thesis using fds by auto
  qed
  moreover have "reserved env \<inter> int ` dom ?c = {}" using disj by auto
  ultimately have "ts_rel N env (\<lparr>ts_list = l', ts_world = ?w, ts_timeout = tmo, ts_stop = stop\<rparr>) (?c, tmo, stop)"
    using l'(2) by (intro ts_relI)
  with run show ?thesis by simp
qed

lemma buffer_rel:
  assumes rel: "ts_rel N env s v"
  shows "ts_rel N env (s\<lparr>ts_world := (ts_world s)\<lparr>users := (users (ts_world s))
    (i := (users (ts_world s) i)\<lparr>c_buf := b\<rparr>)\<rparr>\<rparr>) v"
proof -
  let ?us = "(users (ts_world s))(i := (users (ts_world s) i)\<lparr>c_buf := b\<rparr>)"
  have "entry_ok (users (ts_world s)) c x \<Longrightarrow> entry_ok ?us c x" for c x
    by (auto simp: entry_ok_def)
  with rel show ?thesis by (auto simp: ts_rel_def simp del: fun_upd_apply split: prod.splits)
qed

lemma postpone_sim_server:
  assumes rel: "ts_rel N env s (c, tmo, stop)" and i: "c i = Some (a, d)" and e: "d \<le> e"
  shows "\<exists>m l. store (mem (ts_list s)) (Some a) (\<lambda>t. t\<lparr>expire := e\<rparr>) = Inr m \<and>
    adjust_timer N ((ts_list s)\<lparr>mem := m\<rparr>) (Some a) = Inr l \<and>
    ts_rel N env (s\<lparr>ts_list := l\<rparr>) (c(i \<mapsto> (a, e)), tmo, stop)"
proof -
  obtain l w vs where s: "s = \<lparr>ts_list = l, ts_world = w, ts_timeout = tmo, ts_stop = stop\<rparr>"
    and list: "tl_rel N (l, ()) vs" and dist: "distinct (map t_data vs)"
    and entries: "\<forall>v \<in> set vs. entry_ok (users w) c v" and data: "t_data ` set vs = Some ` dom c"
    and fds: "open_fds (sys w) = Some (reserved env \<union> int ` dom c)"
    and disj: "reserved env \<inter> int ` dom c = {}"
    using rel by (rule ts_relE)
  obtain x where x: "x \<in> set vs" "t_data x = Some i" "t_id x = a" "t_expire x = d" "i < FD_LIMIT"
    and user: "c_sockfd (users w i) = int i" "c_timer (users w i) = Some a"
    using entry_of[OF entries data i] by metis
  obtain m l' where l': "store (mem l) (Some a) (\<lambda>t. t\<lparr>expire := e\<rparr>) = Inr m"
    "adjust_timer N (l\<lparr>mem := m\<rparr>) (Some a) = Inr l'" "tl_rel N (l', ()) (tl_spec (Postpone a e) vs)"
    using list_postpone[OF list x(1)] x(3,4) e by blast
  have data_inj: "inj_on t_data (set vs)" using dist by (simp add: distinct_map)
  have same: "t_id v \<noteq> a \<longleftrightarrow> t_data v \<noteq> Some i" if "v \<in> set vs" for v
    using that x ids_distinct[OF list] data_inj by (metis inj_onD)
  define ys where "ys = filter (\<lambda>v. t_id v \<noteq> a) vs"
  define y where "y = Timer a e (Some cb_id) (Some i)"
  have x_cb: "t_call x = Some cb_id" using entries x(1) by (auto simp: entry_ok_def)
  have "distinct vs" using dist by (simp add: distinct_map)
  then have "filter (\<lambda>v. t_id v = a) vs = [x]"
    using x ids_distinct[OF list] by (intro filter_eq_singleton) (auto dest: inj_onD)
  then have spec: "tl_spec (Postpone a e) vs = insert_timer y ys"
    using x x_cb by (simp add: ys_def y_def)
  have ys: "set ys = set vs - {x}" using x ids_distinct[OF list] by (auto simp: ys_def dest: inj_onD)
  have yd: "t_data ` set ys = t_data ` set vs - {Some i}"
    using data_inj x unfolding ys by (auto simp: inj_on_image_set_diff[OF data_inj])
  let ?c = "c(i \<mapsto> (a, e))"
  have "\<forall>v \<in> set (insert_timer y ys). entry_ok (users w) ?c v"
  proof
    fix v assume "v \<in> set (insert_timer y ys)"
    then consider "v = y" | "v \<in> set ys" by auto
    then show "entry_ok (users w) ?c v"
    proof cases
      case 1 then show ?thesis using x user by (simp add: entry_ok_def y_def)
    next
      case 2
      then have "v \<in> set vs" "t_data v \<noteq> Some i" using same by (auto simp: ys_def)
      then show ?thesis using entries by (auto intro: entry_ok_other)
    qed
  qed
  moreover have "dom ?c = dom c" using i by auto
  moreover have "t_data ` set (insert_timer y ys) = Some ` dom c"
    using yd data i by (auto simp: y_def)
  moreover have "distinct (map t_data (insert_timer y ys))"
    using dist yd by (intro distinct_data_insert) (auto simp: ys_def y_def distinct_map_filter)
  ultimately have "ts_rel N env (s\<lparr>ts_list := l'\<rparr>) (?c, tmo, stop)"
    using l'(3) fds disj unfolding s spec timer_server.simps by (intro ts_relI[where vs = "insert_timer y ys"]) simp_all
  with l' show ?thesis by (auto simp: s)
qed

lemma data_sim:
  assumes rel: "ts_rel N env s (c, tmo, stop)" and fd: "0 \<le> ev_fd e"
    and i: "c (nat (ev_fd e)) = Some (a, d)" and d: "d \<le> time_ret e + 15"
  shows "\<exists>t. on_data N e s = Inr t \<and> ts_rel N env t
     (case recv_ret e of
        Recv_error err \<Rightarrow> (if err = EAGAIN then c else c(nat (ev_fd e) := None), tmo, stop)
      | Recv_data bs \<Rightarrow> (if bs = [] then c(nat (ev_fd e) := None)
          else c(nat (ev_fd e) := map_option (\<lambda>(a, _). (a, time_ret e + 15)) (c (nat (ev_fd e)))), tmo, stop))"
proof -
  define k where "k = nat (ev_fd e)"
  obtain l w vs where s: "s = \<lparr>ts_list = l, ts_world = w, ts_timeout = tmo, ts_stop = stop\<rparr>"
    and entries: "\<forall>v \<in> set vs. entry_ok (users w) c v" and data: "t_data ` set vs = Some ` dom c"
    using rel by (rule ts_relE)
  have k: "k < FD_LIMIT" "c k = Some (a, d)" and user: "c_timer (users w k) = Some a"
    using entry_of[OF entries data i] i by (simp_all add: k_def)
  have idx: "user_index (ev_fd e) = Inr k" using fd k by (simp add: user_index_def k_def)
  define put where "put = (\<lambda>bs. s\<lparr>ts_world := (ts_world s)\<lparr>users := (users (ts_world s))
     (k := (users (ts_world s) k)\<lparr>c_buf := bs @ replicate (BUFFER_SIZE - length bs) 0\<rparr>)\<rparr>\<rparr>)"
  have put: "ts_rel N env (put bs) (c, tmo, stop)" for bs
    unfolding put_def using rel by (rule buffer_rel)
  have timer: "c_timer (users (ts_world (put bs)) k) = Some a" for bs
    using user by (simp add: put_def s)
  have run: "on_data N e s = (case recv_ret e of
      Recv_error err \<Rightarrow> if err \<noteq> EAGAIN then close_user k (put []) else Inr (put [])
    | Recv_data bs \<Rightarrow> if take 63 bs = [] then close_user k (put (take 63 bs))
        else rbind (store (mem (ts_list (put (take 63 bs)))) (Some a) (\<lambda>t. t\<lparr>expire := time_ret e + 15\<rparr>)) (\<lambda>m.
             rbind (adjust_timer N ((ts_list (put (take 63 bs)))\<lparr>mem := m\<rparr>) (Some a)) (\<lambda>l.
               Inr ((put (take 63 bs))\<lparr>ts_list := l\<rparr>))))"
    unfolding on_data_def idx rbind.simps Let_def put_def[symmetric] timer received_def TIMESLOT_def BUFFER_SIZE_def
    by (simp add: timer put_def BUFFER_SIZE_def s user split: recv_result.split)
  note close = close_sim[OF put k(2)]
  note postpone = postpone_sim_server[OF put k(2) d]
  show ?thesis
  proof (cases "recv_ret e")
    case (Recv_error err)
    then show ?thesis unfolding run using close[of "[]"] put[of "[]"] by (auto simp: k_def)
  next
    case (Recv_data bs)
    show ?thesis
    proof (cases "bs = []")
      case True
      then show ?thesis unfolding run using Recv_data close[of "[]"] by (simp add: k_def)
    next
      case False
      obtain m l where ml: "store (mem (ts_list (put (take 63 bs)))) (Some a) (\<lambda>t. t\<lparr>expire := time_ret e + 15\<rparr>) = Inr m"
        "adjust_timer N ((ts_list (put (take 63 bs)))\<lparr>mem := m\<rparr>) (Some a) = Inr l"
        "ts_rel N env ((put (take 63 bs))\<lparr>ts_list := l\<rparr>) (c(k \<mapsto> (a, time_ret e + 15)), tmo, stop)"
        using postpone[of "take 63 bs"] by blast
      have "take 63 bs \<noteq> []" using False by simp
      then have "on_data N e s = Inr ((put (take 63 bs))\<lparr>ts_list := l\<rparr>)"
        using Recv_data ml by (simp add: run)
      then show ?thesis using ml(3) Recv_data False i by (simp add: k_def)
    qed
  qed
qed

lemma on_signal_flags:
  "fold (\<lambda>b s. if b = SIGALRM then s\<lparr>ts_timeout := True\<rparr>
                else if b = SIGTERM then s\<lparr>ts_stop := True\<rparr> else s) bs s =
   s\<lparr>ts_timeout := ts_timeout s \<or> SIGALRM \<in> set bs, ts_stop := ts_stop s \<or> SIGTERM \<in> set bs\<rparr>"
  by (induction bs arbitrary: s) (auto simp: SIGALRM_def SIGTERM_def)

lemma flags_rel:
  "ts_rel N env s (c, tmo, stop) \<Longrightarrow>
   ts_rel N env (s\<lparr>ts_timeout := ts_timeout s \<or> p, ts_stop := ts_stop s \<or> q\<rparr>) (c, tmo \<or> p, stop \<or> q)"
  by (auto simp: ts_rel_def)

lemma signal_sim:
  assumes "ts_rel N env s (c, tmo, stop)"
  shows "ts_rel N env (on_signal e s)
    (case recv_ret e of Recv_error _ \<Rightarrow> (c, tmo, stop)
     | Recv_data bs \<Rightarrow> (c, tmo \<or> SIGALRM \<in> set (take 1024 bs), stop \<or> SIGTERM \<in> set (take 1024 bs)))"
  using assms flags_rel[OF assms]
  by (simp add: on_signal_def received_def on_signal_flags split: recv_result.split)

lemma handle_sim:
  assumes "ts_rel N env s v" and "ts_legal N env e v"
  shows "\<exists>t. ts_handle N env e s = Inr t \<and> ts_rel N env t (ts_spec env e v)"
proof -
  obtain c tmo stop where v: "v = (c, tmo, stop)" by (cases v)
  note rel = assms(1)[unfolded v]
  show ?thesis
  proof (cases "ev_fd e = listenfd env")
    case True
    then have "accept_ok N env e c" using assms(2) by (simp add: v)
    with accept_sim[OF rel this] True show ?thesis by (simp add: v ts_handle_def)
  next
    case listen: False
    show ?thesis
    proof (cases "ev_in e \<and> ev_fd e \<noteq> pipe0 env")
      case True
      then obtain a d where "0 \<le> ev_fd e" "c (nat (ev_fd e)) = Some (a, d)" "d \<le> time_ret e + 15"
        using assms(2) listen by (auto simp: v split: option.splits)
      from data_sim[OF rel this] True listen show ?thesis by (simp add: v ts_handle_def)
    next
      case False
      then show ?thesis using rel signal_sim[OF rel, of e] listen by (auto simp: v ts_handle_def)
    qed
  qed
qed

subsection \<open>Timeouts\<close>

definition data_of :: "timer_view list \<Rightarrow> nat set" where
  "data_of vs = {i. Some i \<in> t_data ` set vs}"

lemma mem_data_of: "i \<in> data_of vs \<longleftrightarrow> (\<exists>v \<in> set vs. t_data v = Some i)"
  unfolding data_of_def by (metis (mono_tags, lifting) image_iff mem_Collect_eq)

lemma close_due:
  assumes "\<forall>v \<in> set us. entry_ok (users w) c v" and "distinct (map t_data us)"
    and "data_of us \<subseteq> D" and "open_fds (sys w) = Some (R \<union> int ` D)" and "R \<inter> int ` D = {}"
  shows "\<exists>w'. call_all ts_callback us w = Inr w' \<and> users w' = users w \<and>
    open_fds (sys w') = Some (R \<union> int ` (D - data_of us))"
  using assms
proof (induction us arbitrary: w D)
  case (Cons x us)
  obtain i where i: "t_call x = Some cb_id" "t_data x = Some i" "c_sockfd (users w i) = int i"
    using Cons.prems(1) by (auto simp: entry_ok_def)
  let ?w = "syscall (Closed (int i)) (syscall (Epoll_del static_epollfd (int i)) w)"
  have iD: "i \<in> D" using Cons.prems(3) i(2) by (auto simp: data_of_def)
  then have "int i \<notin> R" using Cons.prems(5) by blast
  moreover have "int ` (D - {i}) = int ` D - {int i}" by auto
  ultimately have fds: "open_fds (sys ?w) = Some (R \<union> int ` (D - {i}))"
    using Cons.prems(4) iD by auto
  have "Some i \<notin> t_data ` set us" using Cons.prems(2) i(2) by simp
  then have sub: "data_of us \<subseteq> D - {i}"
    using Cons.prems(3) by (auto simp: data_of_def)
  have rest: "D - {i} - data_of us = D - data_of (x # us)" using i(2) by (auto simp: data_of_def)
  have "\<exists>w'. call_all ts_callback us ?w = Inr w' \<and> users w' = users ?w \<and>
      open_fds (sys w') = Some (R \<union> int ` (D - {i} - data_of us))"
  proof (rule Cons.IH)
    show "\<forall>v \<in> set us. entry_ok (users ?w) c v" using Cons.prems(1) by simp
    show "distinct (map t_data us)" using Cons.prems(2) by simp
    show "R \<inter> int ` (D - {i}) = {}" using Cons.prems(5) by blast
  qed (rule sub, rule fds)
  moreover have "ts_callback (the (t_call x)) (t_data x) w = Inr ?w"
    using i by (simp add: ts_callback_def cb_func_def)
  ultimately show ?case unfolding rest by (simp add: call_all_def)
qed (simp add: call_all_def data_of_def)

lemma dom_still_waiting:
  assumes "\<forall>v \<in> set vs. entry_ok us c v" and "t_data ` set vs = Some ` dom c"
  shows "dom (still_waiting now c) = dom c - data_of (filter (\<lambda>v. t_expire v \<le> now) vs)"
proof (rule set_eqI)
  fix i
  show "i \<in> dom (still_waiting now c) \<longleftrightarrow> i \<in> dom c - data_of (filter (\<lambda>v. t_expire v \<le> now) vs)"
  proof (cases "c i")
    case None
    then show ?thesis by (simp add: still_waiting_def domIff)
  next
    case (Some ad)
    then obtain a d where c: "c i = Some (a, d)" by (cases ad) simp
    obtain x where x: "x \<in> set vs" "t_data x = Some i" "t_expire x = d"
      using entry_of[OF assms c] by metis
    have "t_expire v = d" if v: "v \<in> set vs" "t_data v = Some i" for v
    proof -
      have "entry_ok us c v" using assms(1) v(1) by blast
      then show ?thesis using v(2) c by (simp add: entry_ok_def)
    qed
    then have "i \<in> data_of (filter (\<lambda>v. t_expire v \<le> now) vs) \<longleftrightarrow> d \<le> now"
      unfolding mem_data_of using x(1,2) by fastforce
    moreover have "i \<in> dom (still_waiting now c) \<longleftrightarrow> now < d"
      using c by (simp add: still_waiting_def dom_def)
    moreover have "i \<in> dom c" using c by blast
    ultimately show ?thesis by auto
  qed
qed

lemma timeouts_sim:
  assumes rel: "ts_rel N env s (c, tmo, stop)"
  shows "\<exists>t. ts_timeouts N now s = Inr t \<and>
    ts_rel N env t (if tmo then still_waiting now c else c, False, stop)"
proof (cases tmo)
  case False
  then show ?thesis using rel by (auto simp: ts_timeouts_def ts_rel_def)
next
  case True
  obtain l w vs where s: "s = \<lparr>ts_list = l, ts_world = w, ts_timeout = tmo, ts_stop = stop\<rparr>"
    and list: "tl_rel N (l, ()) vs" and dist: "distinct (map t_data vs)"
    and entries: "\<forall>v \<in> set vs. entry_ok (users w) c v" and data: "t_data ` set vs = Some ` dom c"
    and fds: "open_fds (sys w) = Some (reserved env \<union> int ` dom c)"
    and disj: "reserved env \<inter> int ` dom c = {}"
    using rel by (rule ts_relE)
  let ?due = "filter (\<lambda>v. t_expire v \<le> now) vs" and ?kept = "filter (\<lambda>v. now < t_expire v) vs"
  let ?c = "still_waiting now c"
  have "t_data ` set ?due \<subseteq> Some ` dom c" unfolding data[symmetric] by auto
  then have "data_of ?due \<subseteq> dom c" unfolding data_of_def by blast
  then obtain w' where w': "call_all ts_callback ?due w = Inr w'" "users w' = users w"
    "open_fds (sys w') = Some (reserved env \<union> int ` (dom c - data_of ?due))"
    using close_due[of ?due w c "dom c" "reserved env"] entries dist fds disj
    by (auto simp: distinct_map_filter)
  obtain l' where l': "tick (Suc N) ts_callback now l w = Inr (l', w')" "tl_rel N (l', w') ?kept"
    using expire_calls[OF unit_rel[OF list] w'(1)] by blast
  have dom: "dom ?c = dom c - data_of ?due" using dom_still_waiting[OF entries data] .
  let ?t = "\<lparr>ts_list = l', ts_world = syscall (Alarm TIMESLOT) w', ts_timeout = False, ts_stop = stop\<rparr>"
  have "ts_timeouts N now s = Inr ?t"
    using True l'(1) by (simp add: s ts_timeouts_def timer_handler_def)
  moreover have "ts_rel N env ?t (?c, False, stop)"
  proof (rule ts_relI[where vs = ?kept])
    show "tl_rel N (l', ()) ?kept" using l'(2) by (rule unit_rel)
    show "distinct (map t_data ?kept)" using dist by (simp add: distinct_map_filter)
    show "\<forall>v \<in> set ?kept. entry_ok (users (syscall (Alarm TIMESLOT) w')) ?c v"
      using entries by (auto simp: w'(2) entry_ok_def still_waiting_def)
    have "set ?kept = set vs - set ?due" by auto
    then have "t_data ` set ?kept = t_data ` set vs - t_data ` set ?due"
      using dist by (simp add: distinct_map inj_on_image_set_diff[of t_data "set vs"])
    also have "\<dots> = Some ` (dom c - data_of ?due)"
      unfolding data data_of_def by auto
    finally show "t_data ` set ?kept = Some ` dom ?c" unfolding dom .
    show "open_fds (sys (syscall (Alarm TIMESLOT) w')) = Some (reserved env \<union> int ` dom ?c)"
      using w'(3) by (simp add: dom)
    show "reserved env \<inter> int ` dom ?c = {}" using disj unfolding dom by blast
  qed
  ultimately show ?thesis using True by auto
qed

subsection \<open>The loop\<close>

text \<open>
  The handler keeps the relation for every event the kernel can deliver, whatever the
  abstract state is; a round of the loop is one step of a larger simulation.
\<close>

interpretation ts_events: simulation "ts_handle N env" "ts_spec env" "ts_rel N env" "ts_legal N env" for N env
  by unfold_locales (rule handle_sim)

fun ts_legal_events :: "nat \<Rightarrow> ts_env \<Rightarrow> ts_event list \<Rightarrow> ts_view \<Rightarrow> bool" where
  "ts_legal_events N env [] v \<longleftrightarrow> True"
| "ts_legal_events N env (e # es) v \<longleftrightarrow> ts_legal N env e v \<and> ts_legal_events N env es (ts_spec env e v)"

lemma ts_legal_events_run: "ts_legal_events N env es v \<longleftrightarrow> ts_events.legal_run env N es v"
  by (induction es arbitrary: v) auto

definition ts_expire :: "int \<Rightarrow> ts_view \<Rightarrow> ts_view" where
  "ts_expire now = (\<lambda>(c, tmo, stop). (if tmo then still_waiting now c else c, False, stop))"

fun ts_spec_loop :: "ts_env \<Rightarrow> ts_wait list \<Rightarrow> ts_view \<Rightarrow> ts_view" where
  "ts_spec_loop env [] v = v"
| "ts_spec_loop env (Wait_failed err now # ws) v =
     (if snd (snd v) \<or> err \<noteq> EINTR then v else ts_spec_loop env ws (ts_expire now v))"
| "ts_spec_loop env (Wait_events es now # ws) v =
     (if snd (snd v) then v else ts_spec_loop env ws (ts_expire now (fold (ts_spec env) es v)))"

fun ts_spec_left :: "ts_env \<Rightarrow> ts_wait list \<Rightarrow> ts_view \<Rightarrow> bool" where
  \<comment> \<open>the loop ends: \<open>SIGTERM\<close> has arrived or \<open>epoll_wait\<close> has failed\<close>
  "ts_spec_left env [] v \<longleftrightarrow> snd (snd v)"
| "ts_spec_left env (Wait_failed err now # ws) v \<longleftrightarrow>
     snd (snd v) \<or> err \<noteq> EINTR \<or> ts_spec_left env ws (ts_expire now v)"
| "ts_spec_left env (Wait_events es now # ws) v \<longleftrightarrow>
     snd (snd v) \<or> ts_spec_left env ws (ts_expire now (fold (ts_spec env) es v))"

fun ts_legal_loop :: "nat \<Rightarrow> ts_env \<Rightarrow> ts_wait list \<Rightarrow> ts_view \<Rightarrow> bool" where
  "ts_legal_loop N env [] v \<longleftrightarrow> True"
| "ts_legal_loop N env (Wait_failed err now # ws) v \<longleftrightarrow>
     snd (snd v) \<or> err \<noteq> EINTR \<or> ts_legal_loop N env ws (ts_expire now v)"
| "ts_legal_loop N env (Wait_events es now # ws) v \<longleftrightarrow>
     snd (snd v) \<or> (ts_legal_events N env es v \<and>
       ts_legal_loop N env ws (ts_expire now (fold (ts_spec env) es v)))"

lemma timeouts_rel:
  assumes "ts_rel N env s v"
  shows "\<exists>t. ts_timeouts N now s = Inr t \<and> ts_rel N env t (ts_expire now v)"
  using timeouts_sim[of N env s] assms by (cases v) (simp add: ts_expire_def)

lemma ts_rel_stop: "ts_rel N env s v \<Longrightarrow> ts_stop s = snd (snd v)"
  by (auto simp: ts_rel_def)

lemma loop_sim:
  "ts_rel N env s v \<Longrightarrow> ts_legal_loop N env ws v \<Longrightarrow>
   \<exists>t. ts_loop N env ws s = Inr (ts_spec_left env ws v, t) \<and> ts_rel N env t (ts_spec_loop env ws v)"
proof (induction ws arbitrary: s v)
  case (Cons x ws)
  note stop = ts_rel_stop[OF Cons.prems(1)]
  show ?case
  proof (cases "snd (snd v)")
    case True
    then show ?thesis using Cons.prems(1) stop by (cases x) auto
  next
    case False
    show ?thesis
    proof (cases x)
      case (Wait_failed err now)
      then show ?thesis
        using timeouts_rel[OF Cons.prems(1), of now] Cons False stop by fastforce
    next
      case (Wait_events es now)
      then have "ts_events.legal_run env N es v" and
        rest: "ts_legal_loop N env ws (ts_expire now (fold (ts_spec env) es v))"
        using Cons.prems(2) False by (simp_all add: ts_legal_events_run)
      from ts_events.run_sim[OF Cons.prems(1) this(1)] obtain s1 where
        s1: "run_events (ts_handle N env) es s = Inr s1" "ts_rel N env s1 (fold (ts_spec env) es v)" by blast
      obtain s2 where s2: "ts_timeouts N now s1 = Inr s2"
        "ts_rel N env s2 (ts_expire now (fold (ts_spec env) es v))"
        using timeouts_rel[OF s1(2)] by blast
      from Cons.IH[OF s2(2) rest] show ?thesis
        using Wait_events False stop s1(1) s2(1) by simp
    qed
  qed
qed (auto dest: ts_rel_stop)

definition start_ok :: "ts_env \<Rightarrow> ts_start \<Rightarrow> bool" where
  \<comment> \<open>every call of the set-up succeeds; the kernel hands out distinct descriptors\<close>
  "start_ok env st \<longleftrightarrow> bind_ok st \<and> listen_ok st \<and> pair_ok st \<and> sigaction_ok st \<and>
     0 \<le> listenfd env \<and> 0 \<le> epollfd env \<and> distinct [listenfd env, epollfd env, pipe0 env, pipe1 env]"

lemma setup_rel:
  assumes "start_ok env st"
  shows "\<exists>s. ts_setup env st us Map.empty = Inr s \<and> ts_rel N env s (Map.empty, False, False)"
proof -
  obtain s where s: "ts_setup env st us Map.empty = Inr s" "ts_list s = Sort_timer_list Map.empty"
    "ts_timeout s = False" "ts_stop s = False" "open_fds (sys (ts_world s)) = Some (reserved env)"
    using assms
    by (auto simp: ts_setup_def start_ok_def Let_def add_sig_def addfd_def reserved_def open_fds_def)
  moreover have "tl_rel N (ts_list s, ()) []" unfolding s(2) by (rule tl_rel_empty)
  ultimately show ?thesis by (auto simp: ts_rel_def)
qed

lemma ts_rel_mem:
  assumes "ts_rel N env s (c, tmo, stop)"
  shows "dom (mem (ts_list s)) = fst ` ran c"
proof -
  obtain l w vs where s: "s = \<lparr>ts_list = l, ts_world = w, ts_timeout = tmo, ts_stop = stop\<rparr>"
    and list: "tl_rel N (l, ()) vs"
    and entries: "\<forall>v \<in> set vs. entry_ok (users w) c v" and data: "t_data ` set vs = Some ` dom c"
    using assms by (rule ts_relE)
  have "dom (mem l) = t_id ` set vs" using tl.live_rel[OF unit_rel[OF list]] by simp
  also have "\<dots> = fst ` ran c"
  proof (intro set_eqI iffI)
    fix a assume "a \<in> t_id ` set vs"
    then obtain v where "v \<in> set vs" "a = t_id v" by blast
    moreover from this entries have "entry_ok (users w) c v" by blast
    ultimately show "a \<in> fst ` ran c" unfolding entry_ok_def by (metis fst_conv image_eqI ranI)
  next
    fix a assume "a \<in> fst ` ran c"
    then obtain i d where "c i = Some (a, d)" by (auto simp: ran_def)
    from entry_of[OF entries data this] show "a \<in> t_id ` set vs" by (metis image_eqI)
  qed
  finally show ?thesis by (simp add: s)
qed

subsection \<open>Properties\<close>

lemma teardown_fds:
  assumes "open_fds (sys (ts_world s)) = Some (reserved env \<union> D)" and "reserved env \<inter> D = {}"
    and "distinct [listenfd env, epollfd env, pipe0 env, pipe1 env]"
  shows "open_fds (sys (ts_world (ts_teardown env s))) = Some (insert (epollfd env) D)"
proof -
  have "{l, e, p, q} \<union> D - {l} - {q} - {p} = insert e D"
    if "distinct [l, e, p, q]" "{l, e, p, q} \<inter> D = {}" for l e p q and D :: "int set"
    using that by auto
  then have
    "reserved env \<union> D - {listenfd env} - {pipe1 env} - {pipe0 env} = insert (epollfd env) D"
    and "pipe1 env \<noteq> listenfd env" "pipe0 env \<noteq> pipe1 env" "pipe0 env \<noteq> listenfd env"
    using assms(2,3) unfolding reserved_def by simp_all
  then show ?thesis using assms(1) by (simp add: ts_teardown_def reserved_def)
qed

text \<open>
  C10 Refinement of the server. Run from a set-up that succeeds on any batches of events (new
  connections, signals, data, ends of stream, errors) of a legal history: every event is for an
  open descriptor, \<open>accept\<close> succeeds with a descriptor below \<open>FD_LIMIT\<close> that is not in use and
  \<open>new\<close> returns a free address, the clock does not run backwards, and at most \<open>N\<close> clients are
  connected at once. (What a failed \<open>accept\<close> does is \<open>accept_failure_out_of_bounds\<close>
  below.) Then
  the server never dereferences a dead timer or indexes outside \<open>users\<close>, closes no
  descriptor twice and no foreign one, and returns \<open>0\<close> once \<open>SIGTERM\<close> has arrived or
  \<open>epoll_wait\<close> has failed, and not before. What is open are the connections of the
  specification (those whose clients sent in time) and its own descriptors, of which only
  the \<open>epoll\<close> instance stays open when it returns; the timers in memory are those of these
  connections.
\<close>

theorem timer_server_refines:
  assumes "start_ok env st" and "2 < argc" and "ts_legal_loop N env ws (Map.empty, False, False)"
    and "ts_spec_loop env ws (Map.empty, False, False) = (c, tmo, stop)"
    and "ts_spec_left env ws (Map.empty, False, False) = left"
  shows "\<exists>s. test_timer_server N argc env st us ws = Inr (if left then Some 0 else None, Some s) \<and>
    open_fds (sys (ts_world s)) =
      Some ((if left then {epollfd env} else reserved env) \<union> int ` dom c) \<and>
    dom (mem (ts_list s)) = fst ` ran c"
proof -
  obtain s0 where s0: "ts_setup env st us Map.empty = Inr s0" "ts_rel N env s0 (Map.empty, False, False)"
    using setup_rel[OF assms(1)] by blast
  obtain s where s: "ts_loop N env ws s0 = Inr (left, s)" "ts_rel N env s (c, tmo, stop)"
    using loop_sim[OF s0(2) assms(3)] unfolding assms(4,5) by blast
  have fds: "open_fds (sys (ts_world s)) = Some (reserved env \<union> int ` dom c)"
    and disj: "reserved env \<inter> int ` dom c = {}" using s(2) by (simp_all add: ts_rel_def)
  have run: "test_timer_server N argc env st us ws = Inr (if left then Some 0 else None, Some (if left then ts_teardown env s else s))"
    using assms(2) s0(1) s(1) by (simp add: test_timer_server_def)
  have mem: "dom (mem (ts_list (if left then ts_teardown env s else s))) = fst ` ran c"
    using ts_rel_mem[OF s(2)] by (simp add: ts_teardown_def)
  have "distinct [listenfd env, epollfd env, pipe0 env, pipe1 env]" using assms(1) by (simp add: start_ok_def)
  then have "open_fds (sys (ts_world (ts_teardown env s))) = Some (insert (epollfd env) (int ` dom c))"
    using teardown_fds[OF fds disj] by simp
  with fds have "open_fds (sys (ts_world (if left then ts_teardown env s else s))) =
      Some ((if left then {epollfd env} else reserved env) \<union> int ` dom c)" by simp
  with run mem show ?thesis by blast
qed

definition sample_env :: ts_env where
  "sample_env = \<lparr>listenfd = 3, epollfd = 4, pipe0 = 5, pipe1 = 6\<rparr>"

definition sample_event :: "int \<Rightarrow> recv_result \<Rightarrow> int \<Rightarrow> ts_event" where
  "sample_event fd r now = \<lparr>ev_fd = fd, ev_in = True, accept_ret = -1, accept_addr = 0, new_addr = 0,
     recv_ret = r, time_ret = now\<rparr>"

definition sample_accept :: "int \<Rightarrow> addr \<Rightarrow> int \<Rightarrow> ts_event" where
  "sample_accept fd a now = (sample_event 3 (Recv_data []) now)\<lparr>accept_ret := fd, new_addr := a\<rparr>"

definition sample_waits :: "ts_wait list" where
  \<comment> \<open>two clients connect, one sends, the alarm at 20 closes the other one, \<open>SIGTERM\<close>\<close>
  "sample_waits =
     [Wait_events [sample_accept 7 1 0, sample_accept 8 2 0] 0,
      Wait_events [sample_event 8 (Recv_data [104, 105]) 10] 10,
      Wait_events [sample_event 5 (Recv_data [14]) 20] 20,
      Wait_events [sample_event 5 (Recv_data [15]) 21] 21]"

theorem timer_server_refines_witness:
  "\<forall>us. \<exists>s. test_timer_server 5 3 sample_env \<lparr>bind_ok = True, listen_ok = True, pair_ok = True, sigaction_ok = True\<rparr>
      us sample_waits = Inr (Some 0, Some s) \<and> open_fds (sys (ts_world s)) = Some {4, 8} \<and> dom (mem (ts_list s)) = {2}" (is "\<forall>us. ?P us")
proof (intro allI)
  fix us
  let ?v = "ts_spec_loop sample_env sample_waits (Map.empty, False, False)"
  have "start_ok sample_env \<lparr>bind_ok = True, listen_ok = True, pair_ok = True, sigaction_ok = True\<rparr>"
    by (simp add: start_ok_def sample_env_def)
  moreover have "ts_legal_loop 5 sample_env sample_waits (Map.empty, False, False)"
    by (simp add: sample_waits_def sample_env_def sample_event_def sample_accept_def ts_expire_def
        accept_ok_def FD_LIMIT_def reserved_def SIGALRM_def SIGTERM_def)
  moreover have v: "?v = ([8 \<mapsto> (2, 25)], False, True)"
    by (auto simp: sample_waits_def sample_env_def sample_event_def sample_accept_def ts_expire_def
        SIGALRM_def SIGTERM_def still_waiting_def fun_eq_iff)
  moreover have left: "ts_spec_left sample_env sample_waits (Map.empty, False, False)"
    by (simp add: sample_waits_def sample_env_def sample_event_def sample_accept_def ts_expire_def
        SIGALRM_def SIGTERM_def)
  ultimately show "?P us"
    using timer_server_refines[of sample_env _ 3 5 sample_waits "[8 \<mapsto> (2, 25)]" False True True us] left
    by (simp add: sample_env_def insert_commute)
qed

subsection \<open>Idle connections\<close>

text \<open>
  What keeps a connection alive, written over the events and not over stored deadlines: the
  client is accepted or sends at least one byte. The rounds in which an alarm is read, with the
  time \<open>tick\<close> is called at, are the other half of the timing.
\<close>

definition activity :: "ts_env \<Rightarrow> nat \<Rightarrow> ts_event \<Rightarrow> bool" where
  "activity env i e \<longleftrightarrow>
     (if ev_fd e = listenfd env then accept_ret e = int i
      else ev_fd e \<noteq> pipe0 env \<and> ev_in e \<and> ev_fd e = int i \<and>
        (case recv_ret e of Recv_error _ \<Rightarrow> False | Recv_data bs \<Rightarrow> bs \<noteq> []))"

definition concerns :: "ts_env \<Rightarrow> nat \<Rightarrow> ts_event \<Rightarrow> bool" where
  \<comment> \<open>the event is about the connection and says more than that nothing has arrived\<close>
  "concerns env i e \<longleftrightarrow>
     (if ev_fd e = listenfd env then accept_ret e = int i
      else ev_fd e \<noteq> pipe0 env \<and> ev_in e \<and> ev_fd e = int i \<and> recv_ret e \<noteq> Recv_error EAGAIN)"

definition brings_alarm :: "ts_env \<Rightarrow> ts_event \<Rightarrow> bool" where
  "brings_alarm env e \<longleftrightarrow> ev_fd e \<noteq> listenfd env \<and> ev_fd e = pipe0 env \<and> ev_in e \<and>
     (case recv_ret e of Recv_error _ \<Rightarrow> False | Recv_data bs \<Rightarrow> SIGALRM \<in> set (take 1024 bs))"

fun alarm_times :: "ts_env \<Rightarrow> ts_wait list \<Rightarrow> int list" where
  \<comment> \<open>when the rounds end in which an alarm has been read\<close>
  "alarm_times env [] = []"
| "alarm_times env (Wait_failed err now # ws) = alarm_times env ws"
| "alarm_times env (Wait_events es now # ws) =
     (if \<exists>e \<in> set es. brings_alarm env e then now # alarm_times env ws else alarm_times env ws)"

definition concerned :: "ts_env \<Rightarrow> nat \<Rightarrow> ts_wait list \<Rightarrow> bool" where
  "concerned env i ws \<longleftrightarrow> (\<exists>es now. Wait_events es now \<in> set ws \<and> (\<exists>e \<in> set es. concerns env i e))"

lemma concerned_Cons [simp]:
  "concerned env i (Wait_failed err now # ws) \<longleftrightarrow> concerned env i ws"
  "concerned env i (Wait_events es now # ws) \<longleftrightarrow> (\<exists>e \<in> set es. concerns env i e) \<or> concerned env i ws"
  "\<not> concerned env i []"
  unfolding concerned_def by auto

lemma spec_loop_append:
  "ts_spec_left env (ws @ ws') v \<longleftrightarrow> ts_spec_left env ws v \<or> ts_spec_left env ws' (ts_spec_loop env ws v)"
  "\<not> ts_spec_left env ws v \<Longrightarrow>
     ts_spec_loop env (ws @ ws') v = ts_spec_loop env ws' (ts_spec_loop env ws v) \<and>
     (ts_legal_loop N env (ws @ ws') v \<longleftrightarrow> ts_legal_loop N env ws v \<and> ts_legal_loop N env ws' (ts_spec_loop env ws v))"
proof (induction env ws v rule: ts_spec_loop.induct)
  case (1 env v)
  {
    case 1
    then show ?case by (cases ws' rule: list.exhaust; cases "hd ws'") auto
  next
    case 2
    then show ?case by simp
  }
qed auto

lemma spec_keeps:
  assumes "ts_legal N env e (c, tmo, stop)" and "\<not> concerns env i e"
  shows "\<exists>c' stop'. ts_spec env e (c, tmo, stop) = (c', tmo \<or> brings_alarm env e, stop') \<and> c' i = c i"
  using assms
  by (auto simp: concerns_def brings_alarm_def accept_ok_def split: recv_result.splits if_splits)

lemma spec_fold_keeps:
  "ts_legal_events N env es (c, tmo, stop) \<Longrightarrow> \<forall>e \<in> set es. \<not> concerns env i e \<Longrightarrow>
   \<exists>c' stop'. fold (ts_spec env) es (c, tmo, stop) = (c', tmo \<or> (\<exists>e \<in> set es. brings_alarm env e), stop') \<and>
     c' i = c i"
proof (induction es arbitrary: c tmo stop)
  case (Cons e es)
  obtain c1 stop1 where c1: "ts_spec env e (c, tmo, stop) = (c1, tmo \<or> brings_alarm env e, stop1)" "c1 i = c i"
    using spec_keeps[of N env e c tmo stop i] Cons.prems by auto
  then show ?case using Cons.IH[of c1 "tmo \<or> brings_alarm env e" stop1] Cons.prems by (simp add: disj_assoc del: ts_spec.simps)
qed simp

lemma spec_loop_deadline:
  "ts_legal_loop N env ws (c, False, stop) \<Longrightarrow> \<not> ts_spec_left env ws (c, False, stop) \<Longrightarrow>
   \<not> concerned env i ws \<Longrightarrow>
   fst (ts_spec_loop env ws (c, False, stop)) i =
     (case c i of None \<Rightarrow> None
      | Some (a, d) \<Rightarrow> if \<forall>now \<in> set (alarm_times env ws). now < d then Some (a, d) else None)"
proof (induction ws arbitrary: c stop)
  case Nil
  then show ?case by (auto split: option.splits)
next
  case (Cons x ws)
  show ?case
  proof (cases x)
    case (Wait_failed err now)
    with Cons show ?thesis by (auto simp: ts_expire_def split: option.split)
  next
    case (Wait_events es now)
    obtain c' stop' where f: "fold (ts_spec env) es (c, False, stop) =
        (c', \<exists>e \<in> set es. brings_alarm env e, stop')" "c' i = c i"
      using spec_fold_keeps[of N env es c False stop i] Cons.prems Wait_events by auto
    let ?c = "if \<exists>e \<in> set es. brings_alarm env e then still_waiting now c' else c'"
    have x: "ts_expire now (fold (ts_spec env) es (c, False, stop)) = (?c, False, stop')"
      using f(1) by (simp add: ts_expire_def)
    have ih: "fst (ts_spec_loop env ws (?c, False, stop')) i =
        (case ?c i of None \<Rightarrow> None
         | Some (a, d) \<Rightarrow> if \<forall>now \<in> set (alarm_times env ws). now < d then Some (a, d) else None)"
      using Cons.prems Wait_events x by (intro Cons.IH) auto
    have "fst (ts_spec_loop env (x # ws) (c, False, stop)) i = fst (ts_spec_loop env ws (?c, False, stop')) i"
      using Cons.prems Wait_events x by simp
    then show ?thesis unfolding ih using f(2) Wait_events
      by (cases "\<exists>e \<in> set es. brings_alarm env e") (auto simp: still_waiting_def split: option.splits)
  qed
qed

lemma legal_events_append:
  "ts_legal_events N env (es @ es') v \<longleftrightarrow>
   ts_legal_events N env es v \<and> ts_legal_events N env es' (fold (ts_spec env) es v)"
  by (induction es arbitrary: v) auto

definition apart :: "ts_env \<Rightarrow> conns \<Rightarrow> bool" where
  "apart env c \<longleftrightarrow> (\<forall>i. c i \<noteq> None \<longrightarrow> int i \<notin> reserved env)"

lemma apart_simps [simp]:
  "apart env Map.empty"
  "apart env c \<Longrightarrow> apart env (c(i := None))"
  "apart env c \<Longrightarrow> apart env (c(i := map_option f (c i)))"
  "apart env c \<Longrightarrow> int i \<notin> reserved env \<Longrightarrow> apart env (c(i \<mapsto> x))"
  "apart env c \<Longrightarrow> apart env (still_waiting now c)"
  unfolding apart_def still_waiting_def by (auto split: option.splits)

lemma activity_deadline:
  assumes "ts_legal N env e (c, tmo, stop)" and "activity env i e" and "apart env c"
  shows "\<exists>a c'. ts_spec env e (c, tmo, stop) = (c', tmo, stop) \<and> c' i = Some (a, time_ret e + 3 * TIMESLOT) \<and>
    \<not> brings_alarm env e \<and> int i \<notin> reserved env"
  using assms
  by (auto simp: activity_def brings_alarm_def accept_ok_def TIMESLOT_def apart_def
      split: if_splits recv_result.splits option.splits)

lemma spec_apart:
  assumes "ts_legal N env e v" and "apart env (fst v)"
  shows "apart env (fst (ts_spec env e v))"
  using assms by (cases v) (auto simp: accept_ok_def split: if_splits recv_result.splits)

lemma events_apart:
  "ts_legal_events N env es v \<Longrightarrow> apart env (fst v) \<Longrightarrow> apart env (fst (fold (ts_spec env) es v))"
proof (induction es arbitrary: v)
  case (Cons e es)
  then show ?case using Cons.IH[of "ts_spec env e v"] spec_apart[of N env e v] by simp
qed simp

lemma expire_apart [simp]: "apart env (fst v) \<Longrightarrow> apart env (fst (ts_expire now v))"
  by (cases v) (auto simp: ts_expire_def)

lemma loop_apart:
  "ts_legal_loop N env ws v \<Longrightarrow> apart env (fst v) \<Longrightarrow> apart env (fst (ts_spec_loop env ws v))"
  by (induction env ws v rule: ts_spec_loop.induct) (auto simp: events_apart)

lemma loop_flag: "\<not> fst (snd v) \<Longrightarrow> \<not> fst (snd (ts_spec_loop env ws v))"
  by (induction env ws v rule: ts_spec_loop.induct) (auto simp: ts_expire_def split: prod.splits)

lemma fold_flag:
  "fst (snd (fold (ts_spec env) es v)) \<longleftrightarrow> fst (snd v) \<or> (\<exists>e \<in> set es. brings_alarm env e)"
proof (induction es arbitrary: v)
  case (Cons e es)
  have "fst (snd (ts_spec env e v)) \<longleftrightarrow> fst (snd v) \<or> brings_alarm env e"
    by (cases v) (auto simp: brings_alarm_def split: recv_result.splits)
  with Cons show ?case by auto
qed simp

lemma idle_spec:
  assumes "ts_legal_loop N env (ws @ Wait_events (es @ e # es') now # ws') (Map.empty, False, False)"
    and "\<not> ts_spec_left env (ws @ Wait_events (es @ e # es') now # ws') (Map.empty, False, False)"
    and "activity env i e" and "\<forall>f \<in> set es'. \<not> concerns env i f" and "\<not> concerned env i ws'"
  shows "int i \<notin> reserved env \<and>
    (i \<in> dom (fst (ts_spec_loop env (ws @ Wait_events (es @ e # es') now # ws') (Map.empty, False, False))) \<longleftrightarrow>
     (\<forall>t \<in> set (alarm_times env (Wait_events (es @ e # es') now # ws')). t < time_ret e + 3 * TIMESLOT))"
proof -
  let ?v0 = "(Map.empty, False, False) :: ts_view" and ?d = "time_ret e + 3 * TIMESLOT"
    and ?round = "Wait_events (es @ e # es') now # ws'"
  obtain c stop where v: "ts_spec_loop env ws ?v0 = (c, False, stop)"
    using loop_flag[of ?v0 env ws] by (cases "ts_spec_loop env ws ?v0") auto
  have split: "ts_legal_loop N env ws ?v0" "\<not> ts_spec_left env ws ?v0"
    "ts_legal_loop N env ?round (c, False, stop)" "\<not> ts_spec_left env ?round (c, False, stop)"
    "ts_spec_loop env (ws @ ?round) ?v0 = ts_spec_loop env ?round (c, False, stop)"
    using assms(1,2) spec_loop_append[of env ws] v by (simp_all del: ts_spec_loop.simps ts_spec_left.simps ts_legal_loop.simps)
  obtain c1 tmo1 stop1 where v1: "fold (ts_spec env) es (c, False, stop) = (c1, tmo1, stop1)"
    by (metis prod_cases3)
  have tmo1: "tmo1 \<longleftrightarrow> (\<exists>f \<in> set es. brings_alarm env f)" using fold_flag[of env es "(c, False, stop)"] v1 by simp
  have legal: "ts_legal_events N env es (c, False, stop)" "ts_legal N env e (c1, tmo1, stop1)"
    "ts_legal_events N env es' (ts_spec env e (c1, tmo1, stop1))"
    using split(3,4) v1 by (simp_all add: legal_events_append del: ts_spec.simps ts_legal.simps)
  have "apart env c" using loop_apart[OF split(1)] v by simp
  then have "apart env c1" using events_apart[OF legal(1)] v1 by simp
  from activity_deadline[OF legal(2) assms(3) this] obtain a c2 where
    v2: "ts_spec env e (c1, tmo1, stop1) = (c2, tmo1, stop1)" "c2 i = Some (a, ?d)"
    "int i \<notin> reserved env" "\<not> brings_alarm env e" by blast
  obtain c3 stop3 where v3: "fold (ts_spec env) es' (c2, tmo1, stop1) =
      (c3, tmo1 \<or> (\<exists>f \<in> set es'. brings_alarm env f), stop3)" "c3 i = Some (a, ?d)"
    using spec_fold_keeps[of N env es' c2 tmo1 stop1 i] legal(3) assms(4) v2 by auto
  let ?alarm = "\<exists>f \<in> set (es @ e # es'). brings_alarm env f"
  define c4 where "c4 = (if ?alarm then still_waiting now c3 else c3)"
  have x: "ts_expire now (fold (ts_spec env) (es @ e # es') (c, False, stop)) = (c4, False, stop3)"
    using v1 v2 v3 tmo1 by (auto simp: ts_expire_def c4_def simp del: ts_spec.simps)
  have "\<not> stop" "ts_legal_loop N env ws' (c4, False, stop3)" "\<not> ts_spec_left env ws' (c4, False, stop3)"
    "fst (ts_spec_loop env (ws @ ?round) ?v0) = fst (ts_spec_loop env ws' (c4, False, stop3))"
    using split(3,4,5) x by (auto simp del: fold_append fold_Cons ts_spec.simps)
  with spec_loop_deadline[OF this(2,3) assms(5)] show ?thesis using v2(3) v3(2)
    by (cases ?alarm) (auto simp: still_waiting_def dom_def c4_def simp del: ts_spec_loop.simps)
qed

text \<open>
  C22 Idle connections. Take any legal history of the server from its set-up on that it has not
  left, and the last event in it that keeps the connection \<open>i\<close> alive: its \<open>accept\<close> or the
  arrival of data. If nothing else happens to the connection afterwards, its descriptor is still
  open at the end exactly if every alarm read since then was handled less than \<open>3 * TIMESLOT\<close>
  seconds after that event: an idle client is disconnected by the first alarm at or after this
  time, and by no earlier one, whatever the other clients do.
\<close>

theorem alarm_closes_idle_connections:
  assumes "start_ok env st" and "2 < argc"
    and "history = ws @ Wait_events (es @ e # es') now # ws'"
    and "ts_legal_loop N env history (Map.empty, False, False)"
    and "\<not> ts_spec_left env history (Map.empty, False, False)"
    and "activity env i e" and "\<forall>f \<in> set es'. \<not> concerns env i f" and "\<not> concerned env i ws'"
  shows "\<exists>s fds. test_timer_server N argc env st us history = Inr (None, Some s) \<and>
    open_fds (sys (ts_world s)) = Some fds \<and>
    (int i \<in> fds \<longleftrightarrow>
      (\<forall>t \<in> set (alarm_times env (Wait_events (es @ e # es') now # ws')). t < time_ret e + 3 * TIMESLOT))"
proof -
  obtain s0 where s0: "ts_setup env st us Map.empty = Inr s0" "ts_rel N env s0 (Map.empty, False, False)"
    using setup_rel[OF assms(1)] by blast
  obtain s where s: "ts_loop N env history s0 = Inr (False, s)"
    "ts_rel N env s (ts_spec_loop env history (Map.empty, False, False))"
    using loop_sim[OF s0(2) assms(4)] assms(5) by auto
  then have "open_fds (sys (ts_world s)) =
      Some (reserved env \<union> int ` dom (fst (ts_spec_loop env history (Map.empty, False, False))))"
    by (auto simp: ts_rel_def)
  moreover have "test_timer_server N argc env st us history = Inr (None, Some s)"
    using assms(2) s0(1) s(1) by (simp add: test_timer_server_def)
  moreover have "int i \<in> reserved env \<union> int ` dom (fst (ts_spec_loop env history (Map.empty, False, False))) \<longleftrightarrow>
      (\<forall>t \<in> set (alarm_times env (Wait_events (es @ e # es') now # ws')). t < time_ret e + 3 * TIMESLOT)"
    using idle_spec[OF assms(4,5)[unfolded assms(3)] assms(6,7,8), folded assms(3)]
    by (simp add: inj_image_mem_iff del: alarm_times.simps)
  ultimately show ?thesis by blast
qed

theorem alarm_closes_idle_connections_witness:
  \<comment> \<open>the client of 7 sends nothing after its \<open>accept\<close> at 0: the alarm at 20 closes it\<close>
  "\<forall>us. \<exists>s fds. test_timer_server 5 3 sample_env \<lparr>bind_ok = True, listen_ok = True, pair_ok = True, sigaction_ok = True\<rparr>
      us (take 3 sample_waits) = Inr (None, Some s) \<and> open_fds (sys (ts_world s)) = Some fds \<and> 7 \<notin> fds" (is "\<forall>us. ?P us")
proof (intro allI)
  fix us
  let ?st = "\<lparr>bind_ok = True, listen_ok = True, pair_ok = True, sigaction_ok = True\<rparr>"
  note defs = sample_waits_def sample_env_def sample_event_def sample_accept_def ts_expire_def
    accept_ok_def FD_LIMIT_def reserved_def SIGALRM_def SIGTERM_def
  let ?later = "[Wait_events [sample_event 8 (Recv_data [104, 105]) 10] 10, Wait_events [sample_event 5 (Recv_data [14]) 20] 20]"
  have "start_ok sample_env ?st" by (simp add: start_ok_def sample_env_def)
  moreover have "take 3 sample_waits = [] @ Wait_events ([] @ sample_accept 7 1 0 # [sample_accept 8 2 0]) 0 # ?later"
    by (simp add: sample_waits_def)
  moreover have "ts_legal_loop 5 sample_env (take 3 sample_waits) (Map.empty, False, False)"
    "\<not> ts_spec_left sample_env (take 3 sample_waits) (Map.empty, False, False)"
    by (simp_all add: defs)
  moreover have "activity sample_env 7 (sample_accept 7 1 0)"
    "\<forall>f \<in> set [sample_accept 8 2 0]. \<not> concerns sample_env 7 f" "\<not> concerned sample_env 7 ?later"
    by (simp_all add: activity_def concerns_def defs)
  ultimately have "\<exists>s fds. test_timer_server 5 3 sample_env ?st us (take 3 sample_waits) = Inr (None, Some s) \<and>
      open_fds (sys (ts_world s)) = Some fds \<and> (int 7 \<in> fds \<longleftrightarrow>
      (\<forall>t \<in> set (alarm_times sample_env (Wait_events ([] @ sample_accept 7 1 0 # [sample_accept 8 2 0]) 0 # ?later)).
         t < time_ret (sample_accept 7 1 0) + 3 * TIMESLOT))"
    by - (rule alarm_closes_idle_connections, assumption, simp, assumption+)
  moreover have "20 \<in> set (alarm_times sample_env (Wait_events ([] @ sample_accept 7 1 0 # [sample_accept 8 2 0]) 0 # ?later))"
    "\<not> 20 < time_ret (sample_accept 7 1 0) + 3 * TIMESLOT"
    by (simp_all add: brings_alarm_def defs TIMESLOT_def)
  ultimately show "?P us" by fastforce
qed

text \<open>
  A failed \<open>accept\<close> is not checked: its \<open>-1\<close> indexes the array of clients, whatever the
  state of the server.
\<close>

theorem accept_failure_out_of_bounds:
  "ts_handle N env (e\<lparr>ev_fd := listenfd env, accept_ret := -1\<rparr>) s = Inl Out_of_bounds"
  by (simp add: ts_handle_def on_connection_def user_index_def Let_def)

end
