(* ===== verification/Cgi_Conn.thy ===== *)
theory Cgi_Conn
  imports Posix
begin

section \<open>A CGI request (\<open>class cgi_conn\<close> of \<open>linux_server/cpt_15_3.h\<close>)\<close>

text \<open>
  \<open>cgi_conn::process\<close> reads from its socket into \<open>m_buf\<close> until a line that ends in CR LF has
  arrived, runs the program the line names in a child process and closes the connection.
  The connection and the unread bytes of its socket are the state; one element of the
  script is what happens to the socket before one call of \<open>recv\<close>.
\<close>

subsection \<open>State\<close>

definition BUFFER_SIZE :: nat where "BUFFER_SIZE = 1024"

datatype cgi_call =
    Deregister int int     \<comment> \<open>\<open>epoll_ctl\<close> with \<open>EPOLL_CTL_DEL\<close>\<close>
  | Close_fd int
  | Access "nat list"
  | Fork
  | Dup int
  | Execl "nat list"
  | Exit int

record cgi_conn =
  m_epollfd :: int         \<comment> \<open>a static member of the class\<close>
  m_sockfd :: int
  m_buf :: "nat list"
  m_read_idx :: nat
  pending :: "nat list"    \<comment> \<open>unread bytes of the socket\<close>
  calls :: "cgi_call list"

definition init :: "int \<Rightarrow> int \<Rightarrow> cgi_conn \<Rightarrow> cgi_conn" where
  "init epollfd sockfd s =
     s\<lparr>m_epollfd := epollfd, m_sockfd := sockfd, m_buf := replicate BUFFER_SIZE 0, m_read_idx := 0\<rparr>"

definition call :: "cgi_call \<Rightarrow> cgi_conn \<Rightarrow> cgi_conn" where
  "call c s = s\<lparr>calls := calls s @ [c]\<rparr>"

definition removefd :: "cgi_conn \<Rightarrow> cgi_conn" where
  \<comment> \<open>\<open>removefd(m_epollfd, m_sockfd)\<close>\<close>
  "removefd s = call (Close_fd (m_sockfd s)) (call (Deregister (m_epollfd s) (m_sockfd s)) s)"

subsection \<open>The loop\<close>

function find_crlf :: "nat list \<Rightarrow> nat \<Rightarrow> nat \<Rightarrow> nat res" where
  "find_crlf buf idx n =
     (if idx < n then
        rbind (if 1 \<le> idx then index_array buf (int idx - 1) else Inr 0) (\<lambda>c.
        rbind (index_array buf (int idx)) (\<lambda>d.
          if 1 \<le> idx \<and> c = 13 \<and> d = 10 then Inr idx else find_crlf buf (idx + 1) n))
      else Inr idx)"
  by pat_completeness auto
termination by (relation "measure (\<lambda>(buf, idx, n). n - idx)") auto

declare find_crlf.simps [simp del]

definition recv_into :: "nat list \<Rightarrow> nat \<Rightarrow> nat list \<Rightarrow> nat list res" where
  \<comment> \<open>the bytes \<open>recv\<close> writes from \<open>m_buf + idx\<close>\<close>
  "recv_into buf idx bs =
     (if idx + length bs \<le> length buf then Inr (take idx buf @ bs @ drop (idx + length bs) buf) else Inl Out_of_bounds)"

record cgi_env =
  access_ret :: "nat list \<Rightarrow> int"
  fork_ret :: int
  exec_ok :: bool          \<comment> \<open>\<open>execl\<close> does not return\<close>

datatype cgi_outcome = Broke | Child_ended | Still_looping
  \<comment> \<open>left the loop; the child process runs the program or exits; the script has ended\<close>

definition serve :: "cgi_env \<Rightarrow> nat \<Rightarrow> cgi_conn \<Rightarrow> (cgi_outcome \<times> cgi_conn) res" where
  \<comment> \<open>the rest of the body, once CR LF has been found at \<open>idx - 1\<close> and \<open>idx\<close>\<close>
  "serve env idx s =
     rbind (write_array (m_buf s) (int idx - 1) 0) (\<lambda>buf.
       let s1 = s\<lparr>m_buf := buf\<rparr>; file_name = c_string buf; s2 = call (Access file_name) s1 in
       if access_ret env file_name = -1 then Inr (Broke, removefd s2)
       else
         let s3 = call Fork s2 in
         if fork_ret env = -1 then Inr (Broke, removefd s3)
         else if fork_ret env > 0 then Inr (Broke, removefd s3)
         else
           let s4 = call (Execl (c_string buf)) (call (Dup (m_sockfd s3)) (call (Close_fd 1) s3)) in
           Inr (Child_ended, if exec_ok env then s4 else call (Exit 0) s4))"

fun process_loop :: "cgi_env \<Rightarrow> arrival list \<Rightarrow> cgi_conn \<Rightarrow> (cgi_outcome \<times> cgi_conn) res" where
  "process_loop env [] s = Inr (Still_looping, s)"
| "process_loop env (a # as) s =
     (let idx = m_read_idx s in
      if BUFFER_SIZE - 1 < idx then Inl Out_of_bounds
        \<comment> \<open>the count would be negative, and a huge \<open>size_t\<close>\<close>
      else
        (case sock_recv (BUFFER_SIZE - 1 - idx) a (pending s) of
           (Recv_error err, rest) \<Rightarrow>
             if err \<noteq> EAGAIN then Inr (Broke, removefd (s\<lparr>pending := rest\<rparr>))
             else process_loop env as (s\<lparr>pending := rest\<rparr>)
         | (Recv_data got, rest) \<Rightarrow>
             if got = [] then Inr (Broke, removefd (s\<lparr>pending := rest\<rparr>))
             else
               rbind (recv_into (m_buf s) idx got) (\<lambda>buf.
                 let s1 = s\<lparr>pending := rest, m_buf := buf, m_read_idx := idx + length got\<rparr> in
                 rbind (find_crlf buf idx (m_read_idx s1)) (\<lambda>i.
                   if i = m_read_idx s1 then process_loop env as s1 else serve env i s1))))"

definition process :: "cgi_env \<Rightarrow> arrival list \<Rightarrow> cgi_conn \<Rightarrow> (cgi_outcome \<times> cgi_conn) res" where
  "process env as s = process_loop env as s"

subsection \<open>The line of a request\<close>

definition crlf_at :: "nat list \<Rightarrow> nat \<Rightarrow> bool" where
  "crlf_at S i \<longleftrightarrow> 1 \<le> i \<and> i < length S \<and> S ! (i - 1) = 13 \<and> S ! i = 10"

definition line_end :: "nat list \<Rightarrow> nat option" where
  \<comment> \<open>the index of the first LF that follows a CR\<close>
  "line_end S = find (crlf_at S) [0..<length S]"

lemma find_cong_on: "(\<And>x. x \<in> set xs \<Longrightarrow> P x = Q x) \<Longrightarrow> find P xs = find Q xs"
  by (induction xs) auto

lemma find_append: "find P (xs @ ys) = (case find P xs of Some x \<Rightarrow> Some x | None \<Rightarrow> find P ys)"
  by (induction xs) auto

lemma crlf_at_prefix: "i < length S \<Longrightarrow> crlf_at (S @ R) i = crlf_at S i"
  by (auto simp: crlf_at_def nth_append)

lemma line_end_append:
  "line_end (S @ R) = (case line_end S of Some i \<Rightarrow> Some i | None \<Rightarrow> find (crlf_at (S @ R)) [length S..<length (S @ R)])"
proof -
  have "[0..<length (S @ R)] = [0..<length S] @ [length S..<length (S @ R)]"
    using upt_add_eq_append[of 0 "length S" "length R"] by simp
  moreover have "find (crlf_at (S @ R)) [0..<length S] = line_end S"
    unfolding line_end_def by (rule find_cong_on) (simp add: crlf_at_prefix)
  ultimately show ?thesis by (simp add: line_end_def find_append split: option.split)
qed

lemma line_end_mono: "line_end S = Some i \<Longrightarrow> line_end (S @ R) = Some i"
  by (simp add: line_end_append)

lemma line_end_bounds: "line_end S = Some i \<Longrightarrow> 1 \<le> i \<and> i < length S"
  unfolding line_end_def by (auto simp: find_Some_iff crlf_at_def)

lemma find_crlf_correct:
  assumes "n \<le> length buf" and "idx \<le> n"
  shows "find_crlf buf idx n =
    Inr (case find (crlf_at (take n buf)) [idx..<n] of None \<Rightarrow> n | Some i \<Rightarrow> i)"
  using assms
proof (induction buf idx n rule: find_crlf.induct)
  case (1 buf idx n)
  show ?case
  proof (cases "idx < n")
    case True
    then have upt: "[idx..<n] = idx # [idx + 1..<n]" by (simp add: upt_rec)
    have read: "index_array buf (int idx) = Inr (buf ! idx)"
      "1 \<le> idx \<Longrightarrow> index_array buf (int idx - 1) = Inr (buf ! (idx - 1))"
      using True 1(2) by simp_all
    have at: "crlf_at (take n buf) idx \<longleftrightarrow> 1 \<le> idx \<and> buf ! (idx - 1) = 13 \<and> buf ! idx = 10"
      using True 1(2) by (auto simp: crlf_at_def)
    show ?thesis
    proof (cases "crlf_at (take n buf) idx")
      case True
      then show ?thesis using \<open>idx < n\<close> read at by (subst find_crlf.simps) (simp add: upt)
    next
      case False
      have "find_crlf buf idx n = find_crlf buf (idx + 1) n"
        using \<open>idx < n\<close> False read unfolding at
        by (subst find_crlf.simps) (cases "1 \<le> idx"; simp; force)
      moreover have "find_crlf buf (idx + 1) n =
          Inr (case find (crlf_at (take n buf)) [idx + 1..<n] of None \<Rightarrow> n | Some i \<Rightarrow> i)"
        using 1(1)[OF True _ _] 1(2) True False read at by (cases "1 \<le> idx") auto
      ultimately show ?thesis using False by (simp add: upt)
    qed
  next
    case False
    then have "idx = n" using 1(3) by simp
    then show ?thesis by (subst find_crlf.simps) simp
  qed
qed

subsection \<open>What has been read\<close>

text \<open>
  \<open>read_so_far s S\<close>: the connection has read the bytes \<open>S\<close>, which hold no complete line;
  the buffer holds them and zeros behind, at least one.
\<close>

definition read_so_far :: "cgi_conn \<Rightarrow> nat list \<Rightarrow> bool" where
  "read_so_far s S \<longleftrightarrow> m_read_idx s = length S \<and> length S \<le> 1023 \<and>
     m_buf s = S @ replicate (1024 - length S) 0 \<and> line_end S = None"

lemma read_so_far_init: "read_so_far (init ep fd s) []"
  by (simp add: read_so_far_def init_def BUFFER_SIZE_def line_end_def)

definition answered :: "cgi_env \<Rightarrow> int \<Rightarrow> int \<Rightarrow> nat list \<Rightarrow> cgi_call list" where
  \<comment> \<open>the system calls made for a request line\<close>
  "answered env ep fd path =
     (let close = [Deregister ep fd, Close_fd fd] in
      if access_ret env path = -1 then Access path # close
      else if fork_ret env = -1 \<or> fork_ret env > 0 then [Access path, Fork] @ close
      else [Access path, Fork, Close_fd 1, Dup fd, Execl path] @ (if exec_ok env then [] else [Exit 0]))"

lemma serve_correct:
  assumes "line_end S = Some i" and "m_buf s = S @ zs"
  shows "\<exists>out s'. serve env i s = Inr (out, s') \<and> out \<noteq> Still_looping \<and>
    calls s' = calls s @ answered env (m_epollfd s) (m_sockfd s) (c_string (take (i - 1) S))"
proof -
  have i: "1 \<le> i" "i < length S" using line_end_bounds[OF assms(1)] by auto
  have "(m_buf s)[i - 1 := 0] = take (i - 1) S @ 0 # drop i (m_buf s)"
    using i by (simp add: assms(2) upd_conv_take_nth_drop)
  then have "c_string ((m_buf s)[i - 1 := 0]) = c_string (take (i - 1) S)" by simp
  moreover have "write_array (m_buf s) (int i - 1) 0 = Inr ((m_buf s)[i - 1 := 0])"
    using i by (simp add: assms(2))
  ultimately show ?thesis
    by (auto simp: serve_def Let_def removefd_def call_def answered_def)
qed

lemma recv_into_zeros:
  "length S + length got \<le> 1023 \<Longrightarrow>
   recv_into (S @ replicate (1024 - length S) 0) (length S) got =
     Inr ((S @ got) @ replicate (1024 - length (S @ got)) 0)"
  by (simp add: recv_into_def)

lemma process_read:
  \<comment> \<open>one call of \<open>recv\<close> that returns bytes\<close>
  assumes "read_so_far s S" and "sock_recv (1023 - length S) a (pending s) = (Recv_data got, rest)" and "got \<noteq> []"
  defines "s1 \<equiv> s\<lparr>pending := rest, m_buf := (S @ got) @ replicate (1024 - length (S @ got)) 0,
      m_read_idx := length (S @ got)\<rparr>"
  shows "process_loop env (a # as) s =
      (case line_end (S @ got) of None \<Rightarrow> process_loop env as s1 | Some i \<Rightarrow> serve env i s1)"
    and "line_end (S @ got) = None \<Longrightarrow> read_so_far s1 (S @ got)"
proof -
  have len: "length S + length got \<le> 1023"
    using sock_recv_bound[OF assms(2)] assms(1) unfolding read_so_far_def by linarith
  have find: "find_crlf (m_buf s1) (length S) (length (S @ got)) =
      Inr (case line_end (S @ got) of None \<Rightarrow> length (S @ got) | Some i \<Rightarrow> i)"
    using find_crlf_correct[of "length (S @ got)" "m_buf s1" "length S"] assms(1)
    by (simp add: s1_def line_end_append read_so_far_def)
  have other: "line_end (S @ got) = Some i \<Longrightarrow> i \<noteq> length (S @ got)" for i
    using line_end_bounds[of "S @ got" i] by auto
  have step: "process_loop env (a # as) s =
      rbind (find_crlf (m_buf s1) (length S) (length (S @ got)))
        (\<lambda>i. if i = length (S @ got) then process_loop env as s1 else serve env i s1)"
    using assms(1-3) len recv_into_zeros[OF len]
    by (simp add: read_so_far_def BUFFER_SIZE_def s1_def Let_def cong: if_cong)
  show "process_loop env (a # as) s =
      (case line_end (S @ got) of None \<Rightarrow> process_loop env as s1 | Some i \<Rightarrow> serve env i s1)"
    unfolding step find rbind.simps using other by (cases "line_end (S @ got)") simp_all
  show "line_end (S @ got) = None \<Longrightarrow> read_so_far s1 (S @ got)"
    using len by (simp add: read_so_far_def s1_def)
qed

lemma process_again:
  assumes "read_so_far s S" and "sock_recv (1023 - length S) a (pending s) = (Recv_error EAGAIN, rest)"
  shows "process_loop env (a # as) s = process_loop env as (s\<lparr>pending := rest\<rparr>)"
    and "read_so_far (s\<lparr>pending := rest\<rparr>) S"
  using assms by (simp_all add: read_so_far_def BUFFER_SIZE_def)

lemma process_dropped:
  assumes "read_so_far s S" and "sock_recv (1023 - length S) a (pending s) = (r, rest)"
    and "r = Recv_data [] \<or> (\<exists>e. r = Recv_error e \<and> e \<noteq> EAGAIN)"
  shows "process_loop env (a # as) s = Inr (Broke, removefd (s\<lparr>pending := rest\<rparr>))"
  using assms by (auto simp: read_so_far_def BUFFER_SIZE_def)

lemma process_total:
  "read_so_far s S \<Longrightarrow> \<exists>out s'. process_loop env as s = Inr (out, s')"
proof (induction as arbitrary: s S)
  case (Cons a as)
  obtain r rest where r: "sock_recv (1023 - length S) a (pending s) = (r, rest)" by fastforce
  show ?case
  proof (cases r)
    case (Recv_error e)
    show ?thesis
    proof (cases "e = EAGAIN")
      case True
      with r Recv_error have "sock_recv (1023 - length S) a (pending s) = (Recv_error EAGAIN, rest)" by simp
      note again = process_again[OF Cons.prems this]
      show ?thesis using Cons.IH[OF again(2)] unfolding again(1) by blast
    next
      case False
      then show ?thesis using process_dropped[OF Cons.prems r] Recv_error by blast
    qed
  next
    case (Recv_data got)
    show ?thesis
    proof (cases "got = []")
      case True
      then show ?thesis using process_dropped[OF Cons.prems r] Recv_data by blast
    next
      case False
      note read = process_read[OF Cons.prems r[unfolded Recv_data] False]
      show ?thesis
      proof (cases "line_end (S @ got)")
        case None
        then show ?thesis unfolding read(1) using Cons.IH[OF read(2)[OF None]] by simp
      next
        case (Some i)
        let ?s1 = "s\<lparr>pending := rest, m_buf := (S @ got) @ replicate (1024 - length (S @ got)) 0,
          m_read_idx := length (S @ got)\<rparr>"
        have "m_buf ?s1 = (S @ got) @ replicate (1024 - length (S @ got)) 0" by simp
        from serve_correct[OF Some this, of env] show ?thesis unfolding read(1) Some option.case by blast
      qed
    qed
  qed
qed simp

text \<open>How one portion of a stream is read, from a socket that has been emptied.\<close>

lemma arrive_empty: "0 < n \<Longrightarrow> sock_recv n (Arrive []) [] = (Recv_error EAGAIN, [])"
  by (simp add: sock_recv_def)

lemma arrive_some:
  "0 < n \<Longrightarrow> bs \<noteq> [] \<Longrightarrow> sock_recv n (Arrive bs) [] = (Recv_data (take n bs), drop n bs)"
  by (simp add: sock_recv_def)

lemma arrive_full: "sock_recv 0 (Arrive bs) p = (Recv_data [], p @ bs)"
  by (simp add: sock_recv_def)

definition drained :: "cgi_conn \<Rightarrow> nat list \<Rightarrow> bool" where
  "drained s S \<longleftrightarrow> pending s = [] \<or> length S = 1023"

lemma take_room:
  "length S \<le> 1023 \<Longrightarrow> take 1023 (S @ bs @ R) = (S @ take (1023 - length S) bs) @ take (1023 - length (S @ bs)) R"
  by simp

lemma process_stream:
  assumes "read_so_far s S" and "drained s S"
    and "line_end (take 1023 (S @ pending s @ concat bss)) = Some i"
  shows "\<exists>out s'. process_loop env (map Arrive bss) s = Inr (out, s') \<and> out \<noteq> Still_looping \<and>
    calls s' = calls s @ answered env (m_epollfd s) (m_sockfd s)
      (c_string (take (i - 1) (S @ pending s @ concat bss)))"
  using assms
proof (induction bss arbitrary: s S)
  case Nil
  have "take 1023 (S @ pending s) = S" using Nil(1,2) by (auto simp: drained_def read_so_far_def)
  then have "line_end S = Some i" using Nil(3) by simp
  then show ?case using Nil(1) by (simp add: read_so_far_def)
next
  case (Cons bs bss)
  have room: "length S < 1023" and empty: "pending s = []"
    using Cons.prems by (auto simp: drained_def read_so_far_def intro: le_neq_implies_less)
  then have n: "0 < 1023 - length S" by simp
  show ?case
  proof (cases "bs = []")
    case True
    note again = process_again[OF Cons.prems(1), of "Arrive bs" "[]"]
    from Cons.IH[OF again(2), of] again(1) Cons.prems True empty arrive_empty[OF n] show ?thesis
      by (simp add: drained_def)
  next
    case False
    let ?got = "take (1023 - length S) bs" and ?rest = "drop (1023 - length S) bs"
    have got: "?got \<noteq> []" using False n by simp
    have recv: "sock_recv (1023 - length S) (Arrive bs) (pending s) = (Recv_data ?got, ?rest)"
      using arrive_some[OF n False] empty by simp
    define s1 where "s1 = s\<lparr>pending := ?rest, m_buf := (S @ ?got) @ replicate (1024 - length (S @ ?got)) 0,
      m_read_idx := length (S @ ?got)\<rparr>"
    note read = process_read[OF Cons.prems(1) recv got, folded s1_def]
    have all: "S @ pending s @ concat (bs # bss) = (S @ ?got) @ ?rest @ concat bss" using empty by simp
    show ?thesis
    proof (cases "line_end (S @ ?got)")
      case None
      have rest: "pending s1 = ?rest" "m_epollfd s1 = m_epollfd s" "m_sockfd s1 = m_sockfd s" "calls s1 = calls s"
        by (simp_all add: s1_def)
      have "drained s1 (S @ ?got)" using room by (auto simp: drained_def rest)
      from Cons.IH[OF read(2)[OF None] this] Cons.prems(3) show ?thesis
        unfolding all rest using read(1) None by simp
    next
      case (Some j)
      have "take 1023 (S @ pending s @ concat (bs # bss)) = (S @ ?got) @ take (1023 - length (S @ bs)) (concat bss)"
        using take_room[of S bs "concat bss"] room empty by simp
      then have "j = i" using Cons.prems(3) line_end_mono[OF Some] by simp
      have j: "j < length (S @ ?got)" using line_end_bounds[OF Some] by simp
      have "take (i - 1) (S @ pending s @ concat (bs # bss)) = take (j - 1) (S @ ?got)"
        unfolding all \<open>j = i\<close>[symmetric] using j by (subst take_append) simp
      moreover have "m_buf s1 = (S @ ?got) @ replicate (1024 - length (S @ ?got)) 0" by (simp add: s1_def)
      ultimately show ?thesis
        using serve_correct[OF Some, of s1 _ env] read(1) Some by (simp add: s1_def)
    qed
  qed
qed

lemma process_too_long:
  assumes "read_so_far s S" and "drained s S" and "1023 \<le> length (S @ pending s @ concat xs)"
    and "line_end (take 1023 (S @ pending s @ concat xs)) = None"
  shows "\<exists>s'. process_loop env (map Arrive (xs @ y # ys)) s = Inr (Broke, s') \<and>
    calls s' = calls s @ [Deregister (m_epollfd s) (m_sockfd s), Close_fd (m_sockfd s)]"
  using assms
proof (induction xs arbitrary: s S)
  case Nil
  then have "length S = 1023" by (auto simp: drained_def read_so_far_def)
  then show ?case
    using process_dropped[OF Nil(1), of "Arrive y"] arrive_full[of y "pending s"]
    by (auto simp: removefd_def call_def)
next
  case (Cons bs bss)
  show ?case
  proof (cases "length S = 1023")
    case True
    then show ?thesis
      using process_dropped[OF Cons.prems(1), of "Arrive bs"] arrive_full[of bs "pending s"]
      by (auto simp: removefd_def call_def)
  next
    case False
    then have room: "length S < 1023" and empty: "pending s = []"
      using Cons.prems by (auto simp: drained_def read_so_far_def)
    then have n: "0 < 1023 - length S" by simp
    show ?thesis
    proof (cases "bs = []")
      case True
      note again = process_again[OF Cons.prems(1), of "Arrive bs" "[]"]
      from Cons.IH[OF again(2)] again(1) Cons.prems True empty arrive_empty[OF n] show ?thesis
        by (simp add: drained_def)
    next
      case bs: False
      let ?got = "take (1023 - length S) bs" and ?rest = "drop (1023 - length S) bs"
      have got: "?got \<noteq> []" using bs n by simp
      have recv: "sock_recv (1023 - length S) (Arrive bs) (pending s) = (Recv_data ?got, ?rest)"
        using arrive_some[OF n bs] empty by simp
      define s1 where "s1 = s\<lparr>pending := ?rest, m_buf := (S @ ?got) @ replicate (1024 - length (S @ ?got)) 0,
        m_read_idx := length (S @ ?got)\<rparr>"
      note read = process_read[OF Cons.prems(1) recv got, folded s1_def]
      have all: "S @ pending s @ concat (bs # bss) = (S @ ?got) @ ?rest @ concat bss" using empty by simp
      have "take 1023 (S @ pending s @ concat (bs # bss)) = (S @ ?got) @ take (1023 - length (S @ bs)) (concat bss)"
        using take_room[of S bs "concat bss"] room empty by simp
      then have none: "line_end (S @ ?got) = None"
        using Cons.prems(4) line_end_mono[of "S @ ?got"] by (cases "line_end (S @ ?got)") auto
      have rest: "pending s1 = ?rest" "m_epollfd s1 = m_epollfd s" "m_sockfd s1 = m_sockfd s" "calls s1 = calls s"
        by (simp_all add: s1_def)
      have "drained s1 (S @ ?got)" using room by (auto simp: drained_def rest)
      from Cons.IH[OF read(2)[OF none] this] Cons.prems(3,4) show ?thesis
        unfolding all rest using read(1) none by simp
    qed
  qed
qed

subsection \<open>Properties\<close>

definition request :: "int \<Rightarrow> int \<Rightarrow> cgi_conn \<Rightarrow> cgi_conn" where
  \<comment> \<open>a connection that has just been initialised, nothing read\<close>
  "request ep fd s = init ep fd (s\<lparr>pending := [], calls := []\<rparr>)"

lemma request_fresh [simp]:
  "read_so_far (request ep fd s) []" "drained (request ep fd s) []" "pending (request ep fd s) = []"
  "calls (request ep fd s) = []" "m_epollfd (request ep fd s) = ep" "m_sockfd (request ep fd s) = fd"
  using read_so_far_init[of ep fd "s\<lparr>pending := [], calls := []\<rparr>"]
  by (simp_all add: request_def drained_def init_def)

text \<open>
  C16 The answer to a request does not depend on how its bytes arrive. If the first line end
  of a stream is at index \<open>i\<close>, within the first 1023 bytes, then however the stream is cut
  into portions (between CR and LF, byte by byte, with empty portions) the connection
  makes the same system calls, in the same order: \<open>access\<close> for the bytes of the line up to
  the CR (or to the first zero byte), then, by its answer and that of \<open>fork\<close>, the closing
  of the connection once, or the program in the child with the socket as its output.
\<close>

theorem request_independent_of_portions:
  assumes "line_end (take 1023 (concat bss)) = Some i"
  shows "\<exists>out s'. process env (map Arrive bss) (request ep fd s) = Inr (out, s') \<and> out \<noteq> Still_looping \<and>
    calls s' = answered env ep fd (c_string (take (i - 1) (concat bss)))"
  using process_stream[of "request ep fd s" "[]" bss i env] assms by (simp add: process_def)

theorem request_independent_of_portions_witness:
  "\<forall>s. \<exists>out s'. process \<lparr>access_ret = \<lambda>_. 0, fork_ret = 42, exec_ok = True\<rparr>
      (map Arrive [[47, 97, 13], [], [10, 120]]) (request 3 7 s) = Inr (out, s') \<and>
    calls s' = [Access [47, 97], Fork, Deregister 3 7, Close_fd 7]" (is "\<forall>s. ?P s")
proof (intro allI)
  fix s
  have "line_end (take 1023 (concat [[47, 97, 13], [], [10, 120]])) = Some 3"
    by (simp add: line_end_def upt_rec crlf_at_def)
  from request_independent_of_portions[OF this, of "\<lparr>access_ret = \<lambda>_. 0, fork_ret = 42, exec_ok = True\<rparr>" 3 7 s]
  show "?P s" by (auto simp: answered_def c_string_def)
qed

text \<open>
  C34 A request whose first 1023 bytes hold no line end is dropped: once they have arrived,
  the next call of \<open>recv\<close> has no room, its \<open>0\<close> is taken for an end of stream, and the
  connection is closed without \<open>access\<close> or \<open>fork\<close>, whatever the portions were.
\<close>

theorem long_request_dropped:
  assumes "1023 \<le> length (concat xs)" and "line_end (take 1023 (concat xs)) = None"
  shows "\<exists>s'. process env (map Arrive (xs @ y # ys)) (request ep fd s) = Inr (Broke, s') \<and>
    calls s' = [Deregister ep fd, Close_fd fd]"
  using process_too_long[of "request ep fd s" "[]" xs env y ys] assms by (simp add: process_def)

lemma line_end_replicate: "c \<noteq> 13 \<Longrightarrow> line_end (replicate n c) = None"
  by (auto simp: line_end_def find_None_iff crlf_at_def)

theorem long_request_dropped_witness:
  "\<forall>s. \<exists>s'. process \<lparr>access_ret = \<lambda>_. 0, fork_ret = 42, exec_ok = True\<rparr>
      (map Arrive ([replicate 2000 65] @ [] # [])) (request 3 7 s) = Inr (Broke, s') \<and>
    calls s' = [Deregister 3 7, Close_fd 7]"
  by (intro allI, rule long_request_dropped) (simp_all add: line_end_replicate)

definition in_buffer :: "cgi_conn \<Rightarrow> bool" where
  \<comment> \<open>the last byte is the zero that ends every string in the buffer\<close>
  "in_buffer s \<longleftrightarrow> length (m_buf s) = 1024 \<and> m_read_idx s \<le> 1023 \<and> m_buf s ! 1023 = 0"

lemma init_in_buffer: "in_buffer (init ep fd s)"
  by (simp add: in_buffer_def init_def BUFFER_SIZE_def)

lemma find_crlf_bounds:
  assumes "n \<le> length buf" and "idx \<le> n"
  shows "\<exists>i. find_crlf buf idx n = Inr i \<and> i \<le> n \<and> (i \<noteq> n \<longrightarrow> 1 \<le> i)"
  using find_crlf_correct[OF assms] by (auto simp: find_Some_iff crlf_at_def split: option.split)

lemma serve_in_buffer:
  assumes "in_buffer s" and "1 \<le> i" and "i < m_read_idx s"
  shows "\<exists>out t. serve env i s = Inr (out, t) \<and> in_buffer t \<and> m_sockfd t = m_sockfd s"
  using assms by (auto simp: serve_def in_buffer_def Let_def call_def removefd_def)

lemma recv_into_bounds:
  assumes "length buf = 1024" and "buf ! 1023 = 0" and "idx + length got \<le> 1023"
  shows "\<exists>b. recv_into buf idx got = Inr b \<and> length b = 1024 \<and> b ! 1023 = 0"
  using assms by (auto simp: recv_into_def nth_append min_def)

lemma process_in_buffer:
  "in_buffer s \<Longrightarrow> \<exists>out t. process_loop env as s = Inr (out, t) \<and> in_buffer t \<and> m_sockfd t = m_sockfd s"
proof (induction as arbitrary: s)
  case (Cons a as)
  have idx: "m_read_idx s \<le> 1023" using Cons.prems by (simp add: in_buffer_def)
  obtain r rest where r: "sock_recv (1023 - m_read_idx s) a (pending s) = (r, rest)" by fastforce
  have keep: "in_buffer (s\<lparr>pending := rest\<rparr>)" "in_buffer (removefd (s\<lparr>pending := rest\<rparr>))"
    using Cons.prems by (simp_all add: in_buffer_def removefd_def call_def)
  show ?case
  proof (cases r)
    case (Recv_error err)
    then show ?thesis using keep Cons.IH[OF keep(1)] r idx
      by (auto simp: BUFFER_SIZE_def removefd_def call_def)
  next
    case (Recv_data got)
    show ?thesis
    proof (cases "got = []")
      case True
      then show ?thesis using keep Recv_data r idx by (auto simp: BUFFER_SIZE_def removefd_def call_def)
    next
      case False
      have len: "m_read_idx s + length got \<le> 1023"
        using sock_recv_bound[OF r[unfolded Recv_data]] idx by simp
      obtain b where b: "recv_into (m_buf s) (m_read_idx s) got = Inr b" "length b = 1024" "b ! 1023 = 0"
        using recv_into_bounds[OF _ _ len, of "m_buf s"] Cons.prems by (auto simp: in_buffer_def)
      define t where "t = s\<lparr>pending := rest, m_buf := b, m_read_idx := m_read_idx s + length got\<rparr>"
      have t: "in_buffer t" "m_sockfd t = m_sockfd s" using b len by (simp_all add: t_def in_buffer_def)
      obtain i where i: "find_crlf b (m_read_idx s) (m_read_idx s + length got) = Inr i"
        "i \<le> m_read_idx s + length got" "i \<noteq> m_read_idx s + length got \<longrightarrow> 1 \<le> i"
        using find_crlf_bounds[of "m_read_idx s + length got" b "m_read_idx s"] b(2) len by auto
      have step: "process_loop env (a # as) s =
          (if i = m_read_idx t then process_loop env as t else serve env i t)"
        using r Recv_data False b(1) i(1) idx by (simp add: BUFFER_SIZE_def t_def)
      show ?thesis
      proof (cases "i = m_read_idx t")
        case True
        then show ?thesis using Cons.IH[OF t(1)] t(2) unfolding step by simp
      next
        case False
        then have "1 \<le> i" "i < m_read_idx t" using i(2,3) by (simp_all add: t_def)
        from serve_in_buffer[OF t(1) this] t(2) False show ?thesis unfolding step by simp
      qed
    qed
  qed
qed simp

text \<open>
  C25 The buffer is never overrun. From any state in which the index is inside the buffer
  and its last byte is zero, as \<open>init\<close> leaves it, whatever arrives, whether the socket fails
  or the client closes, \<open>process\<close> runs without a fault and leaves such a state of the same
  socket: it writes and reads inside \<open>m_buf\<close> only, also when it is called again.
\<close>

theorem process_stays_in_buffer:
  assumes "in_buffer s"
  shows "\<exists>out t. process env as s = Inr (out, t) \<and> in_buffer t \<and> m_sockfd t = m_sockfd s"
  using process_in_buffer[OF assms] by (simp add: process_def)

theorem process_stays_in_buffer_witness:
  "\<forall>env as s. \<exists>out t. process env as (init 3 7 s) = Inr (out, t) \<and> m_sockfd t = 7"
proof (intro allI)
  fix env as s
  show "\<exists>out t. process env as (init 3 7 s) = Inr (out, t) \<and> m_sockfd t = 7"
    using process_stays_in_buffer[OF init_in_buffer[of 3 7 s], of env as] by (auto simp: init_def)
qed

lemma process_silence:
  "read_so_far t S \<Longrightarrow> length S < 1023 \<Longrightarrow> pending t = [] \<Longrightarrow>
   process_loop env (replicate n (Arrive [])) t = Inr (Still_looping, t)"
proof (induction n)
  case (Suc n)
  have "t\<lparr>pending := []\<rparr> = t" using Suc.prems by (cases t) simp
  then have "process_loop env (Arrive [] # replicate n (Arrive [])) t = process_loop env (replicate n (Arrive [])) t"
    using process_again(1)[OF Suc.prems(1), of "Arrive []" "[]"] Suc.prems by (simp only: arrive_empty)
  then show ?case using Suc by (simp del: process_loop.simps)
qed simp

text \<open>
  No bytes, no end: while a client that has sent part of a line stays silent, \<open>process\<close>
  goes round its loop without changing anything, for any number of calls of \<open>recv\<close>; the
  branch for \<open>EAGAIN\<close> lacks a \<open>break\<close>.
\<close>

theorem process_spins_on_silence:
  assumes "line_end S = None" and "S \<noteq> []" and "length S < 1023"
  shows "\<exists>s'. calls s' = [] \<and>
    (\<forall>n. process env (Arrive S # replicate n (Arrive [])) (request ep fd s) = Inr (Still_looping, s'))"
proof -
  let ?t = "request ep fd s"
  have recv: "sock_recv (1023 - length ([] :: nat list)) (Arrive S) (pending ?t) = (Recv_data S, [])"
    using arrive_some[of 1023 S] assms by simp
  define s1 where "s1 = ?t\<lparr>pending := [], m_buf := ([] @ S) @ replicate (1024 - length ([] @ S)) 0,
    m_read_idx := length ([] @ S)\<rparr>"
  note read = process_read[OF request_fresh(1) recv assms(2), folded s1_def]
  have none: "line_end ([] @ S) = None" using assms(1) by simp
  have "process env (Arrive S # replicate n (Arrive [])) ?t = Inr (Still_looping, s1)" for n
    unfolding process_def read(1) none option.case
    using read(2)[OF none] assms(3) by (intro process_silence) (simp_all add: s1_def)
  moreover have "calls s1 = []" by (simp add: s1_def)
  ultimately show ?thesis by blast
qed

theorem process_spins_on_silence_witness:
  "\<forall>s. \<exists>s'. calls s' = [] \<and>
    (\<forall>n. process \<lparr>access_ret = \<lambda>_. 0, fork_ret = 42, exec_ok = True\<rparr>
      (Arrive [47, 97] # replicate n (Arrive [])) (request 3 7 s) = Inr (Still_looping, s'))"
  by (intro allI, rule process_spins_on_silence) (simp_all add: line_end_def upt_rec crlf_at_def)

end
