(* ===== verification/Process_Pool.thy ===== *)
theory Process_Pool
  imports Posix
begin

section \<open>The process pool (\<open>processpool<T>\<close> of \<open>linux_server/cpt_15_3.h\<close>)\<close>

text \<open>
  A parent process accepts no connection itself: it tells one of its children, in turn, to
  do so. The state of one process of the pool is the record \<open>processpool\<close>: the members of
  the class and the log of the system calls made. What the kernel answers comes with each
  event. The class of the connections, the template parameter \<open>T\<close>, is a type variable and
  its two functions are arguments.
\<close>

subsection \<open>State\<close>

datatype pool_call =
    Close_fd int
  | Epoll_add int int
  | Nonblocking int
  | Sigaction nat
  | Send_new_conn int
  | Kill int nat

record sub_process =
  m_pid :: int
  pipe_parent :: int   \<comment> \<open>\<open>m_pipefd[0]\<close>\<close>
  pipe_child :: int    \<comment> \<open>\<open>m_pipefd[1]\<close>\<close>

definition new_process :: sub_process where
  "new_process = \<lparr>m_pid = -1, pipe_parent = 0, pipe_child = 0\<rparr>"

record processpool =
  m_process_number :: nat
  m_idx :: int
  m_epollfd :: int
  m_listenfd :: int
  m_stop :: bool
  m_sub_process :: "sub_process list"
  calls :: "pool_call list"

definition MAX_PROCESS_NUMBER :: nat where "MAX_PROCESS_NUMBER = 16"
definition USER_PER_PROCESS :: nat where "USER_PER_PROCESS = 65536"

definition call :: "pool_call \<Rightarrow> processpool \<Rightarrow> processpool" where
  "call c s = s\<lparr>calls := calls s @ [c]\<rparr>"

subsection \<open>Construction\<close>

record fork_env =
  pair_ret :: int
  pair_parent :: int
  pair_child :: int
  fork_ret :: int

fun fork_children :: "fork_env list \<Rightarrow> nat \<Rightarrow> processpool \<Rightarrow> processpool res" where
  \<comment> \<open>the loop of the constructor from its index \<open>i\<close>; one element for each iteration left\<close>
  "fork_children [] i s = Inr s"
| "fork_children (e # es) i s =
     (if pair_ret e \<noteq> 0 then Inl Assert_failed
      else if fork_ret e < 0 then Inl Assert_failed
      else
        let p = \<lparr>m_pid = fork_ret e, pipe_parent = pair_parent e, pipe_child = pair_child e\<rparr> in
        rbind (write_array (m_sub_process s) (int i) p) (\<lambda>ps.
          let s1 = s\<lparr>m_sub_process := ps\<rparr> in
          if fork_ret e > 0 then fork_children es (i + 1) (call (Close_fd (pair_child e)) s1)
          else Inr ((call (Close_fd (pair_parent e)) s1)\<lparr>m_idx := int i\<rparr>)))"

definition new_processpool :: "int \<Rightarrow> int \<Rightarrow> fork_env list \<Rightarrow> processpool res" where
  \<comment> \<open>\<open>processpool(listenfd, process_number)\<close>; the script has at least \<open>process_number\<close> elements\<close>
  "new_processpool listenfd process_number es =
     (if 0 < process_number \<and> process_number \<le> int MAX_PROCESS_NUMBER then
        fork_children (take (nat process_number) es) 0
          \<lparr>m_process_number = nat process_number, m_idx = -1, m_epollfd = 0, m_listenfd = listenfd,
           m_stop = False, m_sub_process = replicate (nat process_number) new_process, calls = []\<rparr>
      else Inl Assert_failed)"

definition create :: "processpool option \<Rightarrow> int \<Rightarrow> int \<Rightarrow> fork_env list \<Rightarrow> processpool res" where
  \<comment> \<open>the argument is \<open>m_instance\<close>, the result its new value\<close>
  "create m_instance listenfd process_number es =
     (case m_instance of Some p \<Rightarrow> Inr p | None \<Rightarrow> new_processpool listenfd process_number es)"

subsection \<open>Signals\<close>

record sig_env =
  sig_epollfd :: int
  sig_pair_ret :: int
  sig_pipe0 :: int
  sig_pipe1 :: int
  sigaction_ok :: "nat \<Rightarrow> bool"

definition addfd :: "int \<Rightarrow> int \<Rightarrow> processpool \<Rightarrow> processpool" where
  "addfd epollfd fd s = call (Nonblocking fd) (call (Epoll_add epollfd fd) s)"

definition addsig :: "sig_env \<Rightarrow> nat \<Rightarrow> processpool \<Rightarrow> processpool res" where
  "addsig env sig s = (if sigaction_ok env sig then Inr (call (Sigaction sig) s) else Inl Assert_failed)"

definition setup_sig_pipe :: "sig_env \<Rightarrow> processpool \<Rightarrow> processpool res" where
  "setup_sig_pipe env s =
     (if sig_epollfd env = -1 \<or> sig_pair_ret env = -1 then Inl Assert_failed
      else
        let s1 = s\<lparr>m_epollfd := sig_epollfd env\<rparr>;
            s2 = addfd (m_epollfd s1) (sig_pipe0 env) (call (Nonblocking (sig_pipe1 env)) s1) in
        run_events (addsig env) [SIGCHLD, SIGTERM, SIGINT, SIGPIPE] s2)"

subsection \<open>The child\<close>

record pool_event =
  ev_fd :: int
  ev_in :: bool
  recv_ret :: recv_result
  accept_ret :: int
  accept_addr :: nat
  wait_pids :: "int list list"  \<comment> \<open>what \<open>waitpid\<close> returns for each \<open>SIGCHLD\<close>, up to the first that is not positive\<close>

record 't child =
  pool :: processpool
  users :: "nat \<Rightarrow> 't"

definition user_index :: "int \<Rightarrow> nat res" where
  "user_index fd = (if 0 \<le> fd \<and> nat fd < USER_PER_PROCESS then Inr (nat fd) else Inl Out_of_bounds)"

definition child_signal :: "nat \<Rightarrow> 't child \<Rightarrow> 't child" where
  \<comment> \<open>one byte; for \<open>SIGCHLD\<close> the children are only waited for\<close>
  "child_signal b c = (if b = SIGTERM \<or> b = SIGINT then c\<lparr>pool := (pool c)\<lparr>m_stop := True\<rparr>\<rparr> else c)"

definition child_handle :: "(int \<Rightarrow> int \<Rightarrow> nat \<Rightarrow> 't \<Rightarrow> 't) \<Rightarrow> ('t \<Rightarrow> 't) \<Rightarrow> sig_env \<Rightarrow> int \<Rightarrow> pool_event
    \<Rightarrow> 't child \<Rightarrow> 't child res" where
  \<comment> \<open>\<open>init\<close> and \<open>process\<close> of \<open>T\<close>; \<open>pipefd\<close> is the child's end of its pipe\<close>
  "child_handle init_t process_t env pipefd e c =
     (if ev_fd e = pipefd \<and> ev_in e then
        (if (case recv_ret e of Recv_error err \<Rightarrow> err \<noteq> EAGAIN | Recv_data bs \<Rightarrow> received 4 bs = []) then Inr c
         else if accept_ret e < 0 then Inr c
         else rbind (user_index (accept_ret e)) (\<lambda>i.
                Inr (c\<lparr>pool := addfd (m_epollfd (pool c)) (accept_ret e) (pool c),
                       users := (users c)(i := init_t (m_epollfd (pool c)) (accept_ret e) (accept_addr e) (users c i))\<rparr>)))
      else if ev_fd e = sig_pipe0 env \<and> ev_in e then
        (case recv_ret e of
           Recv_error _ \<Rightarrow> Inr c
         | Recv_data bs \<Rightarrow> Inr (fold child_signal (received 1024 bs) c))
      else if ev_in e then
        rbind (user_index (ev_fd e)) (\<lambda>i. Inr (c\<lparr>users := (users c)(i := process_t (users c i))\<rparr>))
      else Inr c)"

datatype pool_wait = Wait_failed int | Wait_events "pool_event list"

fun child_loop :: "(int \<Rightarrow> int \<Rightarrow> nat \<Rightarrow> 't \<Rightarrow> 't) \<Rightarrow> ('t \<Rightarrow> 't) \<Rightarrow> sig_env \<Rightarrow> int \<Rightarrow> pool_wait list
    \<Rightarrow> 't child \<Rightarrow> 't child option res" where
  \<comment> \<open>\<open>None\<close> when the script ends while the child still waits\<close>
  "child_loop init_t process_t env pipefd [] c = Inr (if m_stop (pool c) then Some c else None)"
| "child_loop init_t process_t env pipefd (Wait_failed err # ws) c =
     (if m_stop (pool c) then Inr (Some c) else if err \<noteq> EINTR then Inr (Some c)
      else child_loop init_t process_t env pipefd ws c)"
| "child_loop init_t process_t env pipefd (Wait_events es # ws) c =
     (if m_stop (pool c) then Inr (Some c)
      else rbind (run_events (child_handle init_t process_t env pipefd) es c)
             (child_loop init_t process_t env pipefd ws))"

definition run_child :: "(int \<Rightarrow> int \<Rightarrow> nat \<Rightarrow> 't \<Rightarrow> 't) \<Rightarrow> ('t \<Rightarrow> 't) \<Rightarrow> sig_env \<Rightarrow> 't \<Rightarrow> pool_wait list
    \<Rightarrow> processpool \<Rightarrow> processpool option res" where
  \<comment> \<open>\<open>t0\<close> is what \<open>new T[]\<close> fills the array with; \<open>None\<close>: it still waits\<close>
  "run_child init_t process_t env t0 ws s =
     rbind (setup_sig_pipe env s) (\<lambda>s1.
     rbind (index_array (m_sub_process s1) (m_idx s1)) (\<lambda>p.
     rbind (child_loop init_t process_t env (pipe_child p) ws
             \<lparr>pool = addfd (m_epollfd s1) (pipe_child p) s1, users = \<lambda>_. t0\<rparr>) (\<lambda>r.
       Inr (map_option (\<lambda>c. call (Close_fd (m_epollfd (pool c))) (call (Close_fd (pipe_child p)) (pool c))) r))))"

subsection \<open>The parent\<close>

record parent =
  ppool :: processpool
  sub_process_counter :: nat

fun pick_child :: "nat \<Rightarrow> sub_process list \<Rightarrow> nat \<Rightarrow> nat \<Rightarrow> nat \<Rightarrow> nat res" where
  \<comment> \<open>the \<open>do ... while\<close>: from \<open>i\<close> the next living child, or back at \<open>counter\<close>\<close>
  "pick_child 0 ps n counter i = Inl Out_of_fuel"
| "pick_child (Suc k) ps n counter i =
     rbind (index_array ps (int i)) (\<lambda>p.
       if m_pid p \<noteq> -1 then Inr i
       else let i' = (i + 1) mod n in if i' \<noteq> counter then pick_child k ps n counter i' else Inr i')"

definition on_connection :: "parent \<Rightarrow> (parent \<times> bool) res" where
  \<comment> \<open>the second component: the \<open>break\<close> that leaves the loop over the events\<close>
  "on_connection s =
     (let n = m_process_number (ppool s); ps = m_sub_process (ppool s) in
      rbind (pick_child n ps n (sub_process_counter s) (sub_process_counter s)) (\<lambda>i.
      rbind (index_array ps (int i)) (\<lambda>p.
        if m_pid p = -1 then Inr (s\<lparr>ppool := (ppool s)\<lparr>m_stop := True\<rparr>\<rparr>, True)
        else Inr (s\<lparr>sub_process_counter := (i + 1) mod n, ppool := call (Send_new_conn (pipe_parent p)) (ppool s)\<rparr>, False))))"

definition reap :: "int \<Rightarrow> processpool \<Rightarrow> processpool" where
  \<comment> \<open>one pid that \<open>waitpid\<close> returned: the loop over the table\<close>
  "reap pid s =
     s\<lparr>calls := calls s @ map (\<lambda>p. Close_fd (pipe_parent p)) (filter (\<lambda>p. m_pid p = pid) (m_sub_process s)),
       m_sub_process := map (\<lambda>p. if m_pid p = pid then p\<lparr>m_pid := -1\<rparr> else p) (m_sub_process s)\<rparr>"

definition on_sigchld :: "int list \<Rightarrow> processpool \<Rightarrow> processpool" where
  "on_sigchld pids s =
     (let s1 = fold reap pids s in s1\<lparr>m_stop := (\<forall>p \<in> set (m_sub_process s1). m_pid p = -1)\<rparr>)"

definition kill_children :: "processpool \<Rightarrow> processpool" where
  "kill_children s =
     s\<lparr>calls := calls s @ map (\<lambda>p. Kill (m_pid p) SIGTERM) (filter (\<lambda>p. m_pid p \<noteq> -1) (m_sub_process s))\<rparr>"

fun parent_signals :: "nat list \<Rightarrow> int list list \<Rightarrow> processpool \<Rightarrow> processpool" where
  "parent_signals [] pids s = s"
| "parent_signals (b # bs) pids s =
     (if b = SIGCHLD then
        (case pids of [] \<Rightarrow> parent_signals bs [] (on_sigchld [] s)
         | ps # pids' \<Rightarrow> parent_signals bs pids' (on_sigchld ps s))
      else if b = SIGTERM \<or> b = SIGINT then parent_signals bs pids (kill_children s)
      else parent_signals bs pids s)"

definition parent_handle :: "sig_env \<Rightarrow> pool_event \<Rightarrow> parent \<times> bool \<Rightarrow> (parent \<times> bool) res" where
  "parent_handle env e sb =
     (case sb of (s, broke) \<Rightarrow>
        if broke then Inr (s, broke)
        else if ev_fd e = m_listenfd (ppool s) then on_connection s
        else if ev_fd e = sig_pipe0 env \<and> ev_in e then
          (case recv_ret e of
             Recv_error _ \<Rightarrow> Inr (s, False)
           | Recv_data bs \<Rightarrow> Inr (s\<lparr>ppool := parent_signals (received 1024 bs) (wait_pids e) (ppool s)\<rparr>, False))
        else Inr (s, False))"

fun parent_wait :: "pool_wait list \<Rightarrow> bool \<Rightarrow> pool_event list \<Rightarrow> pool_event list option" where
  \<comment> \<open>the \<open>while\<close> loop: \<open>seen\<close> are the \<open>number\<close> events returned last (none after an error),
    the result those the code behind the loop sees, \<open>None\<close> when the script ends first\<close>
  "parent_wait [] stop seen = (if stop then Some seen else None)"
| "parent_wait (w # ws) stop seen =
     (if stop then Some seen
      else (case w of
              Wait_failed err \<Rightarrow> if err \<noteq> EINTR then Some [] else parent_wait ws stop []
            | Wait_events es \<Rightarrow> parent_wait ws stop es))"

definition run_parent :: "sig_env \<Rightarrow> pool_wait list \<Rightarrow> processpool \<Rightarrow> processpool option res" where
  \<comment> \<open>\<open>None\<close>: it still waits\<close>
  "run_parent env ws s =
     rbind (setup_sig_pipe env s) (\<lambda>s1.
       let s2 = addfd (m_epollfd s1) (m_listenfd s1) s1 in
       (case parent_wait ws (m_stop s2) [] of
          None \<Rightarrow> Inr None
        | Some es \<Rightarrow>
            rbind (run_events (parent_handle env) es (\<lparr>ppool = s2, sub_process_counter = 0\<rparr>, False))
              (\<lambda>(p, _). Inr (Some (call (Close_fd (m_epollfd (ppool p))) (ppool p))))))"

definition run :: "(int \<Rightarrow> int \<Rightarrow> nat \<Rightarrow> 't \<Rightarrow> 't) \<Rightarrow> ('t \<Rightarrow> 't) \<Rightarrow> sig_env \<Rightarrow> 't \<Rightarrow> pool_wait list
    \<Rightarrow> processpool \<Rightarrow> processpool option res" where
  "run init_t process_t env t0 ws s =
     (if m_idx s \<noteq> -1 then run_child init_t process_t env t0 ws s
      else run_parent env ws s)"

definition destroy_pool :: "processpool \<Rightarrow> processpool" where
  \<comment> \<open>\<open>~processpool()\<close>: \<open>delete []\<close> of the table; it ends no child and closes no pipe\<close>
  "destroy_pool s = s\<lparr>m_sub_process := []\<rparr>"

subsection \<open>The constructor\<close>

lemma fork_children_parent:
  assumes "\<forall>e \<in> set es. pair_ret e = 0 \<and> 0 < fork_ret e" and "i + length es \<le> length (m_sub_process s)"
  shows "fork_children (es @ fs) i s = fork_children fs (i + length es)
    (s\<lparr>m_sub_process := take i (m_sub_process s) @
         map (\<lambda>e. \<lparr>m_pid = fork_ret e, pipe_parent = pair_parent e, pipe_child = pair_child e\<rparr>) es @
         drop (i + length es) (m_sub_process s),
       calls := calls s @ map (\<lambda>e. Close_fd (pair_child e)) es\<rparr>)"
  using assms
proof (induction es arbitrary: i s)
  case (Cons e es)
  let ?p = "\<lparr>m_pid = fork_ret e, pipe_parent = pair_parent e, pipe_child = pair_child e\<rparr>"
  let ?s = "s\<lparr>m_sub_process := (m_sub_process s)[i := ?p], calls := calls s @ [Close_fd (pair_child e)]\<rparr>"
  have i: "i < length (m_sub_process s)" using Cons.prems(2) by simp
  then have "fork_children ((e # es) @ fs) i s = fork_children (es @ fs) (i + 1) ?s"
    using Cons.prems(1) by (simp add: Let_def call_def)
  also have "\<dots> = fork_children fs (i + 1 + length es)
    (?s\<lparr>m_sub_process := take (i + 1) (m_sub_process ?s) @
         map (\<lambda>e. \<lparr>m_pid = fork_ret e, pipe_parent = pair_parent e, pipe_child = pair_child e\<rparr>) es @
         drop (i + 1 + length es) (m_sub_process ?s),
       calls := calls ?s @ map (\<lambda>e. Close_fd (pair_child e)) es\<rparr>)"
    using Cons.prems by (intro Cons.IH) simp_all
  also have "take (i + 1) (m_sub_process ?s) = take i (m_sub_process s) @ [?p]"
    using i by (simp add: take_Suc_conv_app_nth)
  finally show ?case by simp
qed simp

subsection \<open>The choice of a child\<close>

definition next_alive :: "sub_process list \<Rightarrow> nat \<Rightarrow> nat option" where
  \<comment> \<open>the first living child at or behind \<open>c\<close>, cyclically\<close>
  "next_alive ps c = find (\<lambda>i. m_pid (ps ! i) \<noteq> -1) (map (\<lambda>k. (c + k) mod length ps) [0..<length ps])"

lemma pick_child_correct:
  assumes "c < length ps" and "d < length ps" and "k + d = length ps"
  shows "pick_child k ps (length ps) c ((c + d) mod length ps) =
    Inr (case find (\<lambda>i. m_pid (ps ! i) \<noteq> -1) (map (\<lambda>k. (c + k) mod length ps) [d..<length ps]) of
           None \<Rightarrow> c | Some i \<Rightarrow> i)"
  using assms(2,3)
proof (induction k arbitrary: d)
  case (Suc k)
  let ?n = "length ps" and ?i = "(c + d) mod length ps"
  have i: "?i < ?n" using assms(1) by (intro mod_less_divisor) linarith
  have upt: "[d..<?n] = d # [Suc d..<?n]" using Suc.prems(1) by (simp add: upt_rec)
  show ?case
  proof (cases "m_pid (ps ! ?i) = -1")
    case False
    then show ?thesis using i by (simp add: upt)
  next
    case True
    have next_i: "(?i + 1) mod ?n = (c + Suc d) mod ?n" by (simp add: mod_Suc_eq)
    show ?thesis
    proof (cases "Suc d = ?n")
      case True
      then have "(c + Suc d) mod ?n = c" using assms(1) by simp
      then have "Suc (c + d) mod ?n = c" by simp
      then show ?thesis using i \<open>m_pid (ps ! ?i) = -1\<close> True by (simp add: next_i upt mod_Suc_eq Let_def)
    next
      case False
      then have d: "Suc d < ?n" using Suc.prems(1) by simp
      have "(c + Suc d) mod ?n \<noteq> c"
      proof (cases "c + Suc d < ?n")
        case False
        then have "(c + Suc d) mod ?n = c + Suc d - ?n" using d assms(1) by (simp add: le_mod_geq)
        then show ?thesis using d False by simp
      qed simp
      moreover have "k + Suc d = ?n" using Suc.prems(2) by simp
      ultimately show ?thesis
        using i True Suc.IH[OF d] by (simp add: next_i upt mod_Suc_eq Let_def)
    qed
  qed
qed simp

definition pool_ok :: "parent \<Rightarrow> bool" where
  "pool_ok s \<longleftrightarrow> 0 < m_process_number (ppool s) \<and>
     length (m_sub_process (ppool s)) = m_process_number (ppool s) \<and>
     sub_process_counter s < m_process_number (ppool s)"

lemma next_alive_bound: "next_alive ps c = Some i \<Longrightarrow> i < length ps \<and> m_pid (ps ! i) \<noteq> -1"
  by (cases "length ps = 0") (auto simp: next_alive_def find_Some_iff)

lemma next_alive_None: "c < length ps \<Longrightarrow> next_alive ps c = None \<Longrightarrow> m_pid (ps ! c) = -1"
  by (force simp: next_alive_def find_None_iff dest: bspec[of _ _ 0])

lemma on_connection_correct:
  assumes "pool_ok s"
  shows "on_connection s =
    (case next_alive (m_sub_process (ppool s)) (sub_process_counter s) of
       None \<Rightarrow> Inr (s\<lparr>ppool := (ppool s)\<lparr>m_stop := True\<rparr>\<rparr>, True)
     | Some i \<Rightarrow> Inr (s\<lparr>sub_process_counter := (i + 1) mod m_process_number (ppool s),
         ppool := call (Send_new_conn (pipe_parent (m_sub_process (ppool s) ! i))) (ppool s)\<rparr>, False))"
proof -
  let ?ps = "m_sub_process (ppool s)" and ?c = "sub_process_counter s"
  have n: "m_process_number (ppool s) = length ?ps" "?c < length ?ps" using assms by (auto simp: pool_ok_def)
  have pick: "pick_child (length ?ps) ?ps (length ?ps) ?c ?c =
      Inr (case next_alive ?ps ?c of None \<Rightarrow> ?c | Some i \<Rightarrow> i)"
    using pick_child_correct[OF n(2), of 0 "length ?ps"] n(2) by (cases "?ps = []") (simp_all add: next_alive_def)
  show ?thesis
    using next_alive_bound[of ?ps ?c] next_alive_None[OF n(2)] n(2)
    by (auto simp: on_connection_def n(1) pick Let_def split: option.split)
qed

subsection \<open>The handler of the parent keeps its table\<close>

lemma on_connection_ok: "pool_ok s \<Longrightarrow> on_connection s = Inr (t, b) \<Longrightarrow> pool_ok t"
  using on_connection_correct[of s] by (auto simp: pool_ok_def call_def split: option.splits)

lemma reap_table [simp]:
  "m_process_number (reap pid s) = m_process_number s" "m_stop (reap pid s) = m_stop s"
  "m_sub_process (reap pid s) = map (\<lambda>p. if m_pid p = pid then p\<lparr>m_pid := -1\<rparr> else p) (m_sub_process s)"
  by (simp_all add: reap_def)

lemma fold_reap_table:
  assumes "-1 \<notin> set pids"
  shows "m_process_number (fold reap pids s) = m_process_number s \<and>
    m_sub_process (fold reap pids s) =
      map (\<lambda>p. if m_pid p \<in> set pids then p\<lparr>m_pid := -1\<rparr> else p) (m_sub_process s)"
  using assms by (induction pids arbitrary: s) auto

lemma fold_reap_length [simp]:
  "length (m_sub_process (fold reap pids s)) = length (m_sub_process s)"
  "m_process_number (fold reap pids s) = m_process_number s"
  by (induction pids arbitrary: s) auto

lemma parent_signals_length [simp]:
  "length (m_sub_process (parent_signals bs pids s)) = length (m_sub_process s)"
  "m_process_number (parent_signals bs pids s) = m_process_number s"
  by (induction bs pids s rule: parent_signals.induct)
     (auto simp: on_sigchld_def kill_children_def Let_def split: list.split)

lemma parent_handle_total:
  assumes "pool_ok (fst sb)"
  shows "\<exists>t. parent_handle env e sb = Inr t \<and> pool_ok (fst t)"
proof (cases sb)
  case (Pair s broke)
  then have ok: "pool_ok s" using assms by simp
  obtain u b where "on_connection s = Inr (u, b)" using on_connection_correct[OF ok] by (auto split: option.splits)
  with on_connection_ok[OF ok this] ok show ?thesis
    by (auto simp: Pair parent_handle_def pool_ok_def split: recv_result.split)
qed

interpretation parent: event_handler "parent_handle env" "\<lambda>sb. pool_ok (fst sb)" "\<lambda>e sb. True" for env
proof unfold_locales
  show "\<exists>t. parent_handle env e s = Inr t" if "pool_ok (fst s)" for s e
    using parent_handle_total[OF that] by blast
  show "pool_ok (fst t)" if "pool_ok (fst s)" "parent_handle env e s = Inr t" for s e t
    using parent_handle_total[OF that(1), of env e] that(2) by auto
qed

lemma parent_all_ok: "parent.all_ok env es sb"
  by (induction es arbitrary: sb) simp_all

subsection \<open>Properties\<close>

text \<open>
  C18 Round robin. In every state of the pool a new connection goes to the first living child
  at or behind the counter, cyclically, and the counter moves behind it; the search ends
  after at most \<open>m_process_number\<close> steps and stays inside the table. Only when no child
  lives, the pool stops.
\<close>

theorem connection_goes_to_next_alive:
  assumes "pool_ok s"
  shows "on_connection s =
    (case next_alive (m_sub_process (ppool s)) (sub_process_counter s) of
       None \<Rightarrow> Inr (s\<lparr>ppool := (ppool s)\<lparr>m_stop := True\<rparr>\<rparr>, True)
     | Some i \<Rightarrow> Inr (s\<lparr>sub_process_counter := (i + 1) mod m_process_number (ppool s),
         ppool := call (Send_new_conn (pipe_parent (m_sub_process (ppool s) ! i))) (ppool s)\<rparr>, False))"
  using assms by (rule on_connection_correct)

definition three_children :: processpool where
  "three_children = \<lparr>m_process_number = 3, m_idx = -1, m_epollfd = 4, m_listenfd = 3, m_stop = False,
     m_sub_process = [\<lparr>m_pid = 101, pipe_parent = 10, pipe_child = 11\<rparr>,
                      \<lparr>m_pid = -1, pipe_parent = 12, pipe_child = 13\<rparr>,
                      \<lparr>m_pid = 103, pipe_parent = 14, pipe_child = 15\<rparr>], calls = []\<rparr>"

lemma three_upt: "[0..<Suc (Suc (Suc 0))] = [0, 1, 2]"
  by (simp add: numeral_2_eq_2)

theorem connection_goes_to_next_alive_witness:
  "on_connection \<lparr>ppool = three_children, sub_process_counter = 1\<rparr> =
     Inr (\<lparr>ppool = call (Send_new_conn 14) three_children, sub_process_counter = 0\<rparr>, False)"
proof -
  have "pool_ok \<lparr>ppool = three_children, sub_process_counter = 1\<rparr>" by (simp add: pool_ok_def three_children_def)
  from connection_goes_to_next_alive[OF this] show ?thesis
    by (simp add: next_alive_def three_children_def three_upt)
qed

definition sample_event :: "int \<Rightarrow> int \<Rightarrow> pool_event" where
  "sample_event fd acc = \<lparr>ev_fd = fd, ev_in = True, recv_ret = Recv_data [1, 0, 0, 0], accept_ret = acc,
     accept_addr = 0, wait_pids = []\<rparr>"

text \<open>
  C33 The table of the parent. Whatever events arrive, in any order and number, the handler of
  the parent never indexes outside its table of children, its search for a child ends, and
  the table keeps its size and the counter its range.
\<close>

theorem parent_events_keep_table:
  assumes "pool_ok s"
  shows "\<exists>t b. run_events (parent_handle env) es (s, False) = Inr (t, b) \<and> pool_ok t"
  using parent.run_total_inv[of "(s, False)" env es] parent_all_ok assms by auto

theorem parent_events_keep_table_witness:
  "\<forall>env es. \<exists>t b. run_events (parent_handle env) es (\<lparr>ppool = three_children, sub_process_counter = 1\<rparr>, False) = Inr (t, b) \<and> pool_ok t"
  by (intro allI, rule parent_events_keep_table) (simp add: pool_ok_def three_children_def)

lemma reap_other:
  "q \<noteq> pid \<Longrightarrow> q \<noteq> -1 \<Longrightarrow>
   filter (\<lambda>p. m_pid p = q) (map (\<lambda>p. if m_pid p = pid then p\<lparr>m_pid := -1\<rparr> else p) ps) =
   filter (\<lambda>p. m_pid p = q) ps"
  by (induction ps) auto

lemma reap_calls:
  "-1 \<notin> set pids \<Longrightarrow> distinct pids \<Longrightarrow> calls (fold reap pids s) = calls s @
    concat (map (\<lambda>pid. map (\<lambda>p. Close_fd (pipe_parent p)) (filter (\<lambda>p. m_pid p = pid) (m_sub_process s))) pids)"
proof (induction pids arbitrary: s)
  case (Cons pid pids)
  have "filter (\<lambda>p. m_pid p = q) (m_sub_process (reap pid s)) = filter (\<lambda>p. m_pid p = q) (m_sub_process s)"
    if "q \<in> set pids" for q
    using that Cons.prems unfolding reap_table by (intro reap_other) auto
  then have "map (\<lambda>q. map (\<lambda>p. Close_fd (pipe_parent p)) (filter (\<lambda>p. m_pid p = q) (m_sub_process (reap pid s)))) pids
    = map (\<lambda>q. map (\<lambda>p. Close_fd (pipe_parent p)) (filter (\<lambda>p. m_pid p = q) (m_sub_process s))) pids"
    by (intro map_cong) (auto simp del: reap_table)
  moreover have "calls (fold reap (pid # pids) s) = calls (reap pid s) @
      concat (map (\<lambda>q. map (\<lambda>p. Close_fd (pipe_parent p)) (filter (\<lambda>p. m_pid p = q) (m_sub_process (reap pid s)))) pids)"
    using Cons.IH[of "reap pid s"] Cons.prems by simp
  moreover have "calls (reap pid s) = calls s @
      map (\<lambda>p. Close_fd (pipe_parent p)) (filter (\<lambda>p. m_pid p = pid) (m_sub_process s))"
    by (simp add: reap_def)
  ultimately show ?case by (simp only: list.map concat.simps append_assoc)
qed simp

text \<open>
  C32 Children that end. When \<open>waitpid\<close> reports the pids of ended children, exactly their
  entries become free, the parent's ends of their pipes are closed once each, the other
  entries are left alone, and the pool stops exactly when no child is left.
\<close>

theorem sigchld_reaps_exactly:
  assumes "-1 \<notin> set pids" and "distinct pids"
  shows "m_sub_process (on_sigchld pids s) =
      map (\<lambda>p. if m_pid p \<in> set pids then p\<lparr>m_pid := -1\<rparr> else p) (m_sub_process s) \<and>
    (m_stop (on_sigchld pids s) \<longleftrightarrow> (\<forall>p \<in> set (m_sub_process s). m_pid p = -1 \<or> m_pid p \<in> set pids)) \<and>
    calls (on_sigchld pids s) = calls s @
      concat (map (\<lambda>pid. map (\<lambda>p. Close_fd (pipe_parent p)) (filter (\<lambda>p. m_pid p = pid) (m_sub_process s))) pids)"
  using fold_reap_table[OF assms(1), of s] reap_calls[OF assms, of s]
  by (auto simp: on_sigchld_def Let_def)

theorem sigchld_reaps_exactly_witness:
  "m_stop (on_sigchld [103, 101] three_children) \<and>
   calls (on_sigchld [103, 101] three_children) = [Close_fd 14, Close_fd 10]"
  using sigchld_reaps_exactly[of "[103, 101]" three_children] by (simp add: three_children_def)

subsection \<open>What the code behind the waiting loop sees\<close>

lemma parent_wait_sees_nothing: "parent_wait ws False seen = Some es \<Longrightarrow> es = []"
  by (induction ws arbitrary: seen) (auto split: pool_wait.splits if_splits)

lemma run_addsig:
  "\<forall>sig \<in> set sigs. sigaction_ok env sig \<Longrightarrow>
   run_events (addsig env) sigs s = Inr (s\<lparr>calls := calls s @ map Sigaction sigs\<rparr>)"
  by (induction sigs arbitrary: s) (simp_all add: addsig_def call_def)

definition sig_ok :: "sig_env \<Rightarrow> bool" where
  "sig_ok env \<longleftrightarrow> sig_epollfd env \<noteq> -1 \<and> sig_pair_ret env \<noteq> -1 \<and>
     (\<forall>sig \<in> {SIGCHLD, SIGTERM, SIGINT, SIGPIPE}. sigaction_ok env sig)"

definition setup_calls :: "sig_env \<Rightarrow> pool_call list" where
  "setup_calls env =
     [Nonblocking (sig_pipe1 env), Epoll_add (sig_epollfd env) (sig_pipe0 env), Nonblocking (sig_pipe0 env)] @
     map Sigaction [SIGCHLD, SIGTERM, SIGINT, SIGPIPE]"

lemma setup_correct:
  "sig_ok env \<Longrightarrow> setup_sig_pipe env s =
     Inr (s\<lparr>m_epollfd := sig_epollfd env, calls := calls s @ setup_calls env\<rparr>)"
  by (simp add: setup_sig_pipe_def sig_ok_def Let_def run_addsig addfd_def call_def setup_calls_def
      del: run_events.simps)

text \<open>
  The parent dispatches nothing. The loop over the events stands behind the loop that
  waits for them, which only an error of \<open>epoll_wait\<close> ends: for every sequence of results
  of \<open>epoll_wait\<close>, \<open>run_parent\<close> either waits on or returns having sent no connection to a
  child, killed none and reaped none. Its system calls are those of its set-up and the
  final \<open>close\<close>.
\<close>

theorem parent_dispatches_nothing:
  assumes "sig_ok env" and "\<not> m_stop s"
  shows "run_parent env ws s = Inr None \<or>
    (\<exists>s'. run_parent env ws s = Inr (Some s') \<and> m_sub_process s' = m_sub_process s \<and>
      calls s' = calls s @ setup_calls env @
        [Epoll_add (sig_epollfd env) (m_listenfd s), Nonblocking (m_listenfd s), Close_fd (sig_epollfd env)])"
proof (cases "parent_wait ws False []")
  case None
  then show ?thesis using assms by (simp add: run_parent_def setup_correct addfd_def call_def)
next
  case (Some es)
  then have "es = []" by (rule parent_wait_sees_nothing)
  with Some show ?thesis using assms by (simp add: run_parent_def setup_correct addfd_def call_def)
qed

definition sample_sig :: sig_env where
  "sample_sig = \<lparr>sig_epollfd = 4, sig_pair_ret = 0, sig_pipe0 = 20, sig_pipe1 = 21, sigaction_ok = \<lambda>_. True\<rparr>"

theorem parent_dispatches_nothing_witness:
  "\<forall>ws. run_parent sample_sig ws three_children = Inr None \<or>
    (\<exists>s'. run_parent sample_sig ws three_children = Inr (Some s') \<and> m_sub_process s' = m_sub_process three_children)" (is "\<forall>ws. ?P ws")
proof (intro allI)
  fix ws
  have "sig_ok sample_sig" "\<not> m_stop three_children"
    by (simp_all add: sig_ok_def sample_sig_def three_children_def)
  from parent_dispatches_nothing[OF this, of ws] show "?P ws" by blast
qed

subsection \<open>Who is parent and who is child\<close>

text \<open>
  The ends of the pipes a process has open after a log of calls: \<open>socketpair\<close> opened both ends
  in each iteration of the constructor's loop it has run, its parent's before the \<open>fork\<close>
  included, and \<open>close\<close> closed some of them.
\<close>

definition pipe_ends :: "fork_env list \<Rightarrow> int list" where
  "pipe_ends es = concat (map (\<lambda>e. [pair_parent e, pair_child e]) es)"

definition open_pipe_ends :: "fork_env list \<Rightarrow> pool_call list \<Rightarrow> int set" where
  "open_pipe_ends es log = set (pipe_ends es) - {fd. Close_fd fd \<in> set log}"

lemma pipe_ends_append: "pipe_ends (es @ fs) = pipe_ends es @ pipe_ends fs"
  by (simp add: pipe_ends_def)

lemma open_ends_after:
  assumes "distinct (pipe_ends (es @ fs))"
  shows "set (pipe_ends (es @ fs)) - (pair_child ` set es \<union> pair_parent ` set fs) =
    pair_parent ` set es \<union> pair_child ` set fs"
proof -
  have "pair_parent ` set es \<inter> pair_child ` set es = {}" if "distinct (pipe_ends es)" for es
    using that by (induction es) (auto simp: pipe_ends_def)
  then have "pair_parent ` set es \<inter> pair_child ` set es = {}" "pair_parent ` set fs \<inter> pair_child ` set fs = {}"
    using assms by (simp_all add: pipe_ends_append)
  moreover have ends: "set (pipe_ends es) = pair_parent ` set es \<union> pair_child ` set es" for es
    by (auto simp: pipe_ends_def)
  moreover have "(P \<union> C \<union> (P' \<union> C')) - (C \<union> P') = P \<union> C'"
    if "P \<inter> C = {}" "P' \<inter> C' = {}" "(P \<union> C) \<inter> (P' \<union> C') = {}" for P C P' C' :: "int set"
    using that by auto
  ultimately show ?thesis using assms unfolding pipe_ends_append distinct_append set_append ends by simp
qed

lemma open_ends_closed:
  assumes "distinct (pipe_ends (es @ fs))"
  shows "open_pipe_ends (es @ fs) (map (\<lambda>e. Close_fd (pair_child e)) es @ map (\<lambda>e. Close_fd (pair_parent e)) fs) =
    pair_parent ` set es \<union> pair_child ` set fs"
proof -
  have "{x. Close_fd x \<in> set (map (\<lambda>e. Close_fd (pair_child e)) es @ map (\<lambda>e. Close_fd (pair_parent e)) fs)} =
      pair_child ` set es \<union> pair_parent ` set fs" by auto
  then show ?thesis using open_ends_after[OF assms] unfolding open_pipe_ends_def by argo
qed

lemma distinct_ends_take: "distinct (pipe_ends es) \<Longrightarrow> distinct (pipe_ends (take k es))"
  using pipe_ends_append[of "take k es" "drop k es"] by simp


definition sample_fork :: "int \<Rightarrow> int \<Rightarrow> fork_env" where
  "sample_fork fd pid = \<lparr>pair_ret = 0, pair_parent = fd, pair_child = fd + 1, fork_ret = pid\<rparr>"


subsection \<open>The child serves initialised connections\<close>

text \<open>
  \<open>Q i t\<close> is a property of the connection object in slot \<open>i\<close> that \<open>init\<close> establishes for its
  descriptor and \<open>process\<close> keeps; \<open>R\<close> holds the descriptors accepted in earlier rounds.
  \<open>epoll\<close> reports what has been registered with it: the pipe, the signals and the accepted
  connections. The code takes what \<open>accept\<close> returns as an index of \<open>users\<close> and compares it
  with nothing but \<open>0\<close>.
\<close>

definition accepts :: "int \<Rightarrow> pool_event \<Rightarrow> bool" where
  "accepts pipefd e \<longleftrightarrow> ev_fd e = pipefd \<and> ev_in e \<and> 0 \<le> accept_ret e \<and>
     \<not> (case recv_ret e of Recv_error err \<Rightarrow> err \<noteq> EAGAIN | Recv_data bs \<Rightarrow> received 4 bs = [])"

definition known :: "int \<Rightarrow> pool_event \<Rightarrow> nat set \<Rightarrow> nat set" where
  "known pipefd e R = (if accepts pipefd e then insert (nat (accept_ret e)) R else R)"

fun reported_known :: "sig_env \<Rightarrow> int \<Rightarrow> nat set \<Rightarrow> pool_event list \<Rightarrow> bool" where
  \<comment> \<open>every event is for a registered descriptor\<close>
  "reported_known env pipefd R [] \<longleftrightarrow> True"
| "reported_known env pipefd R (e # es) \<longleftrightarrow>
     (ev_fd e = pipefd \<or> ev_fd e = sig_pipe0 env \<or> (0 \<le> ev_fd e \<and> nat (ev_fd e) \<in> R)) \<and>
     reported_known env pipefd (known pipefd e R) es"

definition child_inv :: "(nat \<Rightarrow> 't \<Rightarrow> bool) \<Rightarrow> nat set \<Rightarrow> 't child \<Rightarrow> bool" where
  "child_inv Q R c \<longleftrightarrow> (\<forall>i \<in> R. i < USER_PER_PROCESS \<and> Q i (users c i))"

lemma fold_child_signal [simp]: "users (fold child_signal bs c) = users c"
  by (induction bs arbitrary: c) (simp_all add: child_signal_def)

lemma child_handle_cases:
  assumes init: "\<And>ep fd a t. 0 \<le> fd \<Longrightarrow> Q (nat fd) (init_t ep fd a t)" and step: "\<And>i t. Q i t \<Longrightarrow> Q i (process_t t)"
    and inv: "child_inv Q R c" and known: "reported_known env pipefd R [e]"
  shows "(\<exists>d. child_handle init_t process_t env pipefd e c = Inr d \<and> child_inv Q (known pipefd e R) d) \<or>
    (child_handle init_t process_t env pipefd e c = Inl Out_of_bounds \<and> accepts pipefd e \<and>
     int USER_PER_PROCESS \<le> accept_ret e)"
proof (cases "accepts pipefd e")
  case True
  then show ?thesis using inv init
    by (auto simp: accepts_def child_handle_def child_inv_def user_index_def known_def)
next
  case False
  have R: "known pipefd e R = R" using False by (simp add: known_def)
  show ?thesis
  proof (cases "ev_fd e = pipefd \<and> ev_in e")
    case True
    then have "child_handle init_t process_t env pipefd e c = Inr c"
      using False by (auto simp: accepts_def child_handle_def)
    then show ?thesis using inv R by simp
  next
    case other: False
    then show ?thesis using inv known step unfolding R
      by (cases "recv_ret e") (auto simp: child_handle_def child_inv_def user_index_def)
  qed
qed

fun all_known :: "int \<Rightarrow> nat set \<Rightarrow> pool_event list \<Rightarrow> nat set" where
  \<comment> \<open>the descriptors accepted before and in these events\<close>
  "all_known pipefd R [] = R"
| "all_known pipefd R (e # es) = all_known pipefd (known pipefd e R) es"

lemma child_serves:
  assumes "\<And>ep fd a t. 0 \<le> fd \<Longrightarrow> Q (nat fd) (init_t ep fd a t)" and "\<And>i t. Q i t \<Longrightarrow> Q i (process_t t)"
    and "child_inv Q R c" and "reported_known env pipefd R es"
  shows "case run_events (child_handle init_t process_t env pipefd) es c of
      Inl err \<Rightarrow> err = Out_of_bounds \<and> (\<exists>e \<in> set es. accepts pipefd e \<and> int USER_PER_PROCESS \<le> accept_ret e)
    | Inr d \<Rightarrow> child_inv Q (all_known pipefd R es) d"
  using assms(3,4)
proof (induction es arbitrary: c R)
  case (Cons e es)
  have "reported_known env pipefd R [e]" "reported_known env pipefd (known pipefd e R) es"
    using Cons.prems(2) by simp_all
  then have "(\<exists>d. child_handle init_t process_t env pipefd e c = Inr d \<and> child_inv Q (known pipefd e R) d) \<or>
    (child_handle init_t process_t env pipefd e c = Inl Out_of_bounds \<and> accepts pipefd e \<and>
     int USER_PER_PROCESS \<le> accept_ret e)"
    using assms(1,2) Cons.prems(1) by (intro child_handle_cases) auto
  then show ?case
  proof
    assume "\<exists>d. child_handle init_t process_t env pipefd e c = Inr d \<and> child_inv Q (known pipefd e R) d"
    then obtain d where d: "child_handle init_t process_t env pipefd e c = Inr d"
      "child_inv Q (known pipefd e R) d" by blast
    from Cons.IH[OF d(2)] Cons.prems(2) d(1) show ?thesis by (simp split: sum.splits)
  qed simp
qed simp

lemma child_serves_in_range:
  assumes "reported_known env pipefd R es" and "\<forall>i \<in> R. i < USER_PER_PROCESS"
    and "\<forall>e \<in> set es. accepts pipefd e \<longrightarrow> accept_ret e < int USER_PER_PROCESS"
  shows "\<exists>d. run_events (child_handle init_t process_t env pipefd) es c = Inr d"
proof -
  have "child_inv (\<lambda>_ _. True) R c" using assms(2) by (simp add: child_inv_def)
  from child_serves[where Q = "\<lambda>_ _. True", OF _ _ this assms(1), of init_t process_t] assms(3)
  show ?thesis by (fastforce split: sum.splits)
qed

end
