(* ===== verification/Pool_Cgi.thy ===== *)
theory Pool_Cgi
  imports Cgi_Conn Process_Pool
begin

section \<open>The children of the pool serve CGI requests (\<open>cpt_15_3.h\<close>, \<open>main.cpp\<close>)\<close>

text \<open>
  \<open>processpool<cgi_conn>\<close>, which \<open>main.cpp\<close> runs: the pool with the connections it serves.
  The template parameter is \<open>cgi_conn\<close>. An element of \<open>users\<close> comes with what the kernel will
  answer to each of its calls of \<open>process\<close>, and with whether one of them ran into a fault.
\<close>

record cgi_user =
  conn :: cgi_conn
  answers :: "(cgi_env \<times> arrival list) list"
  faulted :: bool

definition cgi_init :: "int \<Rightarrow> int \<Rightarrow> nat \<Rightarrow> cgi_user \<Rightarrow> cgi_user" where
  "cgi_init epollfd sockfd addr u = u\<lparr>conn := init epollfd sockfd (conn u), faulted := False\<rparr>"

definition cgi_process :: "cgi_user \<Rightarrow> cgi_user" where
  "cgi_process u =
     (case answers u of
        [] \<Rightarrow> u
      | (env, as) # rest \<Rightarrow>
          (case process env as (conn u) of
             Inl _ \<Rightarrow> u\<lparr>answers := rest, faulted := True\<rparr>
           | Inr (out, c) \<Rightarrow> u\<lparr>conn := c, answers := rest\<rparr>))"

definition serving_socket :: "nat \<Rightarrow> cgi_user \<Rightarrow> bool" where
  "serving_socket i u \<longleftrightarrow> \<not> faulted u \<and> in_buffer (conn u) \<and> m_sockfd (conn u) = int i"

lemma cgi_init_serves: "0 \<le> fd \<Longrightarrow> serving_socket (nat fd) (cgi_init ep fd a u)"
  by (simp add: serving_socket_def cgi_init_def init_in_buffer, simp add: init_def)

lemma cgi_process_serves: "serving_socket i u \<Longrightarrow> serving_socket i (cgi_process u)"
proof (cases "answers u")
  case (Cons ea rest)
  assume u: "serving_socket i u"
  obtain env as where ea: "ea = (env, as)" by fastforce
  obtain out c where "process env as (conn u) = Inr (out, c)" "in_buffer c" "m_sockfd c = m_sockfd (conn u)"
    using process_in_buffer[of "conn u" env as] u by (auto simp: process_def serving_socket_def)
  with u show ?thesis by (simp add: cgi_process_def Cons ea serving_socket_def)
qed (simp add: cgi_process_def)

text \<open>
  C17 The children of the CGI server. Start from any state of a child in which the connections
  \<open>R\<close> accepted so far have descriptors inside \<open>users\<close> and objects in order, and let \<open>epoll\<close>
  report any events for what is registered, with whatever the clients send and the kernel
  answers. Unless \<open>accept\<close> returns a descriptor of \<open>USER_PER_PROCESS\<close> or more, which the code
  takes as an index unchecked, the child indexes inside \<open>users\<close>, no call of
  \<open>cgi_conn::process\<close> leaves its buffer, and the object of every descriptor accepted is the
  one of this descriptor; if it does, the child runs over the end of \<open>users\<close>.
\<close>

theorem pool_child_serves_cgi:
  assumes "\<forall>i \<in> R. i < USER_PER_PROCESS \<and> \<not> faulted (users c i) \<and> in_buffer (conn (users c i)) \<and>
      m_sockfd (conn (users c i)) = int i"
    and "reported_known env pipefd R es"
  shows "case run_events (child_handle cgi_init cgi_process env pipefd) es c of
      Inl err \<Rightarrow> err = Out_of_bounds \<and> (\<exists>e \<in> set es. accepts pipefd e \<and> int USER_PER_PROCESS \<le> accept_ret e)
    | Inr d \<Rightarrow> \<forall>i \<in> all_known pipefd R es. i < USER_PER_PROCESS \<and> \<not> faulted (users d i) \<and>
        in_buffer (conn (users d i)) \<and> m_sockfd (conn (users d i)) = int i"
proof -
  have "child_inv serving_socket R c" using assms(1) by (simp add: child_inv_def serving_socket_def)
  from child_serves[where Q = serving_socket and init_t = cgi_init and process_t = cgi_process, OF cgi_init_serves cgi_process_serves this assms(2)]
  show ?thesis by (auto simp: child_inv_def serving_socket_def split: sum.splits)
qed

theorem pool_child_serves_cgi_witness:
  "\<forall>u. \<exists>d. run_events (child_handle cgi_init cgi_process sample_sig 11) [sample_event 11 7, sample_event 7 (-1)]
      \<lparr>pool = three_children, users = \<lambda>_. u\<rparr> = Inr d \<and> \<not> faulted (users d 7) \<and> m_sockfd (conn (users d 7)) = 7"
proof
  fix u :: cgi_user
  let ?es = "[sample_event 11 7, sample_event 7 (-1)]" and ?c = "\<lparr>pool = three_children, users = \<lambda>_. u\<rparr> :: cgi_user child"
  have "reported_known sample_sig 11 {} ?es" and R: "all_known 11 {} ?es = {7}"
    by (simp_all add: sample_event_def accepts_def known_def received_def sample_sig_def)
  from pool_child_serves_cgi[OF _ this(1), of ?c]
  show "\<exists>d. run_events (child_handle cgi_init cgi_process sample_sig 11) ?es ?c = Inr d \<and>
      \<not> faulted (users d 7) \<and> m_sockfd (conn (users d 7)) = 7"
    unfolding R by (auto simp: sample_event_def USER_PER_PROCESS_def split: sum.splits simp del: run_events.simps)
qed

end
