(* ===== verification/Thread_Pool.thy ===== *)
theory Thread_Pool
  imports Net_Prelude "HOL-Library.Multiset"
begin

section \<open>The thread pool (\<open>class ThreadPool\<close> of \<open>thread_pool_server.h\<close> and \<open>.cpp\<close>)\<close>

text \<open>
  The only code of the program in which threads share memory: workers, the threads that
  call \<open>enqueue\<close> and the owner that destroys the pool, over a mutex, a condition variable,
  a queue and an atomic flag. The state holds these and the program point of every thread;
  a label names the next atomic action of one thread, and \<open>tp_step\<close> is what it does, or
  \<open>None\<close> where the thread cannot do it. Threads interleave in any order.
\<close>

subsection \<open>State\<close>

datatype 't worker =
    W_idle        \<comment> \<open>at the top of the loop, before the lock\<close>
  | W_test        \<comment> \<open>in \<open>wait\<close>, with the lock, before the predicate\<close>
  | W_sleep       \<comment> \<open>in \<open>wait\<close>, with the lock, the predicate was false\<close>
  | W_wait        \<comment> \<open>blocked on the condition variable\<close>
  | W_woken       \<comment> \<open>notified, before the lock\<close>
  | W_take        \<comment> \<open>behind \<open>wait\<close>, with the lock\<close>
  | W_run 't      \<comment> \<open>about to call its task\<close>
  | W_done        \<comment> \<open>returned\<close>

datatype 't client =
    C_idle
  | C_want 't     \<comment> \<open>in \<open>enqueue\<close>, before the lock\<close>
  | C_locked 't   \<comment> \<open>before it reads \<open>stop_\<close>\<close>
  | C_push 't     \<comment> \<open>before \<open>emplace\<close>\<close>
  | C_notify      \<comment> \<open>behind the block, before \<open>notify_one\<close>\<close>

datatype owner = O_serving | O_stored | O_joining nat
datatype holder = Worker nat | Client nat

record 't tpool =
  n_workers :: nat
  n_clients :: nat
  workers :: "nat \<Rightarrow> 't worker"
  clients :: "nat \<Rightarrow> 't client"
  owner :: owner
  tasks :: "'t list"
  tasks_mutex :: "holder option"
  stop :: bool
  accepted :: "'t list"   \<comment> \<open>tasks that \<open>enqueue\<close> took, in order\<close>
  taken :: "'t list"      \<comment> \<open>tasks that a worker took, in order\<close>
  executed :: "'t list"
  rejected :: "'t list"   \<comment> \<open>tasks for which \<open>enqueue\<close> threw\<close>
  broken :: bool          \<comment> \<open>\<open>front\<close> of an empty queue\<close>

definition new_tpool :: "nat \<Rightarrow> nat \<Rightarrow> 't tpool" where
  \<comment> \<open>\<open>ThreadPool(thread_count)\<close>, with \<open>c\<close> threads that may call \<open>enqueue\<close>\<close>
  "new_tpool thread_count c =
     \<lparr>n_workers = (if thread_count = 0 then 1 else thread_count), n_clients = c, workers = \<lambda>_. W_idle,
      clients = \<lambda>_. C_idle, owner = O_serving, tasks = [], tasks_mutex = None, stop = False,
      accepted = [], taken = [], executed = [], rejected = [], broken = False\<rparr>"

definition threadCount :: "'t tpool \<Rightarrow> nat" where
  \<comment> \<open>the size of \<open>workers_\<close>\<close>
  "threadCount s = n_workers s"

subsection \<open>Steps\<close>

datatype 't label =
    Lock nat | Test nat | Block nat | Spurious nat | Take nat | Execute nat
  | Call nat 't | Lock_client nat | Check nat | Push nat | Notify_one nat "nat option"
  | Store_stop | Notify_all | Join

definition set_worker :: "nat \<Rightarrow> 't worker \<Rightarrow> 't tpool \<Rightarrow> 't tpool" where
  "set_worker i w s = s\<lparr>workers := (workers s)(i := w)\<rparr>"

definition set_client :: "nat \<Rightarrow> 't client \<Rightarrow> 't tpool \<Rightarrow> 't tpool" where
  "set_client j c s = s\<lparr>clients := (clients s)(j := c)\<rparr>"

fun worker_step :: "'t label \<Rightarrow> 't tpool \<Rightarrow> 't tpool option" where
  \<comment> \<open>the lambda of the constructor\<close>
  "worker_step (Lock i) s =
     (if i < n_workers s \<and> (workers s i = W_idle \<or> workers s i = W_woken) \<and> tasks_mutex s = None
      then Some (set_worker i W_test (s\<lparr>tasks_mutex := Some (Worker i)\<rparr>)) else None)"
| "worker_step (Test i) s =
     (if i < n_workers s \<and> workers s i = W_test
      then Some (set_worker i (if stop s \<or> tasks s \<noteq> [] then W_take else W_sleep) s) else None)"
| "worker_step (Block i) s =
     (if i < n_workers s \<and> workers s i = W_sleep
      then Some (set_worker i W_wait (s\<lparr>tasks_mutex := None\<rparr>)) else None)"
| "worker_step (Spurious i) s =
     (if i < n_workers s \<and> workers s i = W_wait then Some (set_worker i W_woken s) else None)"
| "worker_step (Take i) s =
     (if i < n_workers s \<and> workers s i = W_take then
        (if stop s \<and> tasks s = [] then Some (set_worker i W_done (s\<lparr>tasks_mutex := None\<rparr>))
         else (case tasks s of
                 [] \<Rightarrow> Some (s\<lparr>broken := True\<rparr>)
               | t # ts \<Rightarrow> Some (set_worker i (W_run t)
                   (s\<lparr>tasks := ts, taken := taken s @ [t], tasks_mutex := None\<rparr>))))
      else None)"
| "worker_step (Execute i) s =
     (if i < n_workers s then
        (case workers s i of
           W_run t \<Rightarrow> Some (set_worker i W_idle (s\<lparr>executed := executed s @ [t]\<rparr>))
         | _ \<Rightarrow> None)
      else None)"
| "worker_step _ s = None"

fun enqueue_step :: "'t label \<Rightarrow> 't tpool \<Rightarrow> 't tpool option" where
  \<comment> \<open>\<open>enqueue\<close>\<close>
  "enqueue_step (Call j t) s =
     (if j < n_clients s \<and> clients s j = C_idle then Some (set_client j (C_want t) s) else None)"
| "enqueue_step (Lock_client j) s =
     (if j < n_clients s \<and> tasks_mutex s = None then
        (case clients s j of
           C_want t \<Rightarrow> Some (set_client j (C_locked t) (s\<lparr>tasks_mutex := Some (Client j)\<rparr>))
         | _ \<Rightarrow> None)
      else None)"
| "enqueue_step (Check j) s =
     (if j < n_clients s then
        (case clients s j of
           C_locked t \<Rightarrow>
             (if stop s then Some (set_client j C_idle (s\<lparr>tasks_mutex := None, rejected := rejected s @ [t]\<rparr>))
              else Some (set_client j (C_push t) s))
         | _ \<Rightarrow> None)
      else None)"
| "enqueue_step (Push j) s =
     (if j < n_clients s then
        (case clients s j of
           C_push t \<Rightarrow> Some (set_client j C_notify
             (s\<lparr>tasks := tasks s @ [t], accepted := accepted s @ [t], tasks_mutex := None\<rparr>))
         | _ \<Rightarrow> None)
      else None)"
| "enqueue_step (Notify_one j w) s =
     (if j < n_clients s \<and> clients s j = C_notify then
        (case w of
           None \<Rightarrow> if \<forall>i < n_workers s. workers s i \<noteq> W_wait then Some (set_client j C_idle s) else None
         | Some i \<Rightarrow> if i < n_workers s \<and> workers s i = W_wait
                     then Some (set_worker i W_woken (set_client j C_idle s)) else None)
      else None)"
| "enqueue_step _ s = None"

fun destructor_step :: "'t label \<Rightarrow> 't tpool \<Rightarrow> 't tpool option" where
  \<comment> \<open>\<open>~ThreadPool()\<close>\<close>
  "destructor_step Store_stop s =
     (if owner s = O_serving then Some (s\<lparr>stop := True, owner := O_stored\<rparr>) else None)"
| "destructor_step Notify_all s =
     (if owner s = O_stored then
        Some (s\<lparr>workers := (\<lambda>i. if workers s i = W_wait then W_woken else workers s i), owner := O_joining 0\<rparr>)
      else None)"
| "destructor_step Join s =
     (case owner s of
        O_joining k \<Rightarrow> if k < n_workers s \<and> workers s k = W_done then Some (s\<lparr>owner := O_joining (k + 1)\<rparr>) else None
      | _ \<Rightarrow> None)"
| "destructor_step _ s = None"

definition tp_step :: "'t label \<Rightarrow> 't tpool \<Rightarrow> 't tpool option" where
  "tp_step l s =
     (case worker_step l s of Some t \<Rightarrow> Some t
      | None \<Rightarrow> (case enqueue_step l s of Some t \<Rightarrow> Some t | None \<Rightarrow> destructor_step l s))"

inductive reachable :: "nat \<Rightarrow> nat \<Rightarrow> 't tpool \<Rightarrow> bool" for n c where
  start: "reachable n c (new_tpool n c)"
| step: "reachable n c s \<Longrightarrow> tp_step l s = Some t \<Longrightarrow> reachable n c t"

text \<open>What a step is, by its label.\<close>

lemma tp_step_simps:
  "tp_step (Lock i) s = worker_step (Lock i) s"
  "tp_step (Test i) s = worker_step (Test i) s"
  "tp_step (Block i) s = worker_step (Block i) s"
  "tp_step (Spurious i) s = worker_step (Spurious i) s"
  "tp_step (Take i) s = worker_step (Take i) s"
  "tp_step (Execute i) s = worker_step (Execute i) s"
  "tp_step (Call j t) s = enqueue_step (Call j t) s"
  "tp_step (Lock_client j) s = enqueue_step (Lock_client j) s"
  "tp_step (Check j) s = enqueue_step (Check j) s"
  "tp_step (Push j) s = enqueue_step (Push j) s"
  "tp_step (Notify_one j w) s = enqueue_step (Notify_one j w) s"
  "tp_step Store_stop s = destructor_step Store_stop s"
  "tp_step Notify_all s = destructor_step Notify_all s"
  "tp_step Join s = destructor_step Join s"
  unfolding tp_step_def by (simp_all split: option.split)

lemmas step_defs = tp_step_simps set_worker_def set_client_def

subsection \<open>Invariants\<close>

definition locks :: "'t worker \<Rightarrow> bool" where
  "locks w \<longleftrightarrow> w = W_test \<or> w = W_sleep \<or> w = W_take"

definition locks_client :: "'t client \<Rightarrow> bool" where
  "locks_client c \<longleftrightarrow> (case c of C_locked t \<Rightarrow> True | C_push t \<Rightarrow> True | _ \<Rightarrow> False)"

definition mutex_inv :: "'t tpool \<Rightarrow> bool" where
  \<comment> \<open>the mutex is held by exactly the thread that is inside a critical section\<close>
  "mutex_inv s \<longleftrightarrow>
     (\<forall>i. locks (workers s i) \<longleftrightarrow> tasks_mutex s = Some (Worker i)) \<and>
     (\<forall>j. locks_client (clients s j) \<longleftrightarrow> tasks_mutex s = Some (Client j)) \<and>
     (\<forall>i. workers s i \<noteq> W_idle \<longrightarrow> i < n_workers s) \<and> (\<forall>j. clients s j \<noteq> C_idle \<longrightarrow> j < n_clients s)"

lemma locks_simps [simp]:
  "locks W_test" "locks W_sleep" "locks W_take" "\<not> locks W_idle" "\<not> locks W_wait" "\<not> locks W_woken"
  "\<not> locks (W_run t)" "\<not> locks W_done"
  "locks_client (C_locked t)" "locks_client (C_push t)" "\<not> locks_client C_idle" "\<not> locks_client (C_want t)"
  "\<not> locks_client C_notify"
  by (simp_all add: locks_def locks_client_def)

lemma mutex_new: "mutex_inv (new_tpool n c)"
  by (simp add: mutex_inv_def new_tpool_def)

text \<open>One worker or one client moves; it may take or release the mutex.\<close>

definition worker_moves :: "nat \<Rightarrow> 't worker \<Rightarrow> 't tpool \<Rightarrow> 't tpool \<Rightarrow> bool" where
  "worker_moves i w s t \<longleftrightarrow> i < n_workers s \<and> workers t = (workers s)(i := w) \<and> clients t = clients s \<and>
     n_workers t = n_workers s \<and> n_clients t = n_clients s \<and> owner t = owner s \<and>
     tasks_mutex t = (if locks w then Some (Worker i) else if locks (workers s i) then None else tasks_mutex s) \<and>
     (locks w \<and> \<not> locks (workers s i) \<longrightarrow> tasks_mutex s = None)"

definition client_moves :: "nat \<Rightarrow> 't client \<Rightarrow> 't tpool \<Rightarrow> 't tpool \<Rightarrow> bool" where
  "client_moves j c s t \<longleftrightarrow> j < n_clients s \<and> clients t = (clients s)(j := c) \<and> workers t = workers s \<and>
     n_workers t = n_workers s \<and> n_clients t = n_clients s \<and> owner t = owner s \<and>
     tasks_mutex t = (if locks_client c then Some (Client j) else if locks_client (clients s j) then None else tasks_mutex s) \<and>
     (locks_client c \<and> \<not> locks_client (clients s j) \<longrightarrow> tasks_mutex s = None)"

lemma mutex_worker_moves:
  assumes inv: "mutex_inv s" and moves: "worker_moves i w s t"
  shows "mutex_inv t"
proof -
  have own: "locks (workers s k) \<longleftrightarrow> tasks_mutex s = Some (Worker k)"
    "locks_client (clients s j) \<longleftrightarrow> tasks_mutex s = Some (Client j)" for k j
    using inv unfolding mutex_inv_def by blast+
  have "locks (workers t k) \<longleftrightarrow> tasks_mutex t = Some (Worker k)" for k
    using moves own(1)[of k] own(1)[of i] by (auto simp: worker_moves_def)
  moreover have "locks_client (clients t j) \<longleftrightarrow> tasks_mutex t = Some (Client j)" for j
    using moves own(2)[of j] own(1)[of i] by (auto simp: worker_moves_def)
  ultimately show ?thesis using inv moves by (auto simp: mutex_inv_def worker_moves_def)
qed

lemma mutex_client_moves:
  assumes inv: "mutex_inv s" and moves: "client_moves j c s t"
  shows "mutex_inv t"
proof -
  have own: "locks (workers s k) \<longleftrightarrow> tasks_mutex s = Some (Worker k)"
    "locks_client (clients s l) \<longleftrightarrow> tasks_mutex s = Some (Client l)" for k l
    using inv unfolding mutex_inv_def by blast+
  have "locks (workers t k) \<longleftrightarrow> tasks_mutex t = Some (Worker k)" for k
    using moves own(1)[of k] own(2)[of j] by (auto simp: client_moves_def)
  moreover have "locks_client (clients t l) \<longleftrightarrow> tasks_mutex t = Some (Client l)" for l
    using moves own(2)[of l] own(2)[of j] by (auto simp: client_moves_def)
  ultimately show ?thesis using inv moves by (auto simp: mutex_inv_def client_moves_def)
qed

text \<open>
  The steps, one by one: who moves from where to where, and what else changes. The proofs
  of the invariants are by these cases.
\<close>

lemma tp_step_elim:
  assumes "tp_step l s = Some t" and inv: "mutex_inv s"
  obtains
    (lock) i where "l = Lock i" "worker_moves i W_test s t" "workers s i = W_idle \<or> workers s i = W_woken"
      "tasks t = tasks s" "stop t = stop s" "accepted t = accepted s" "taken t = taken s" "executed t = executed s" "broken t = broken s"
  | (test) i where "l = Test i" "workers s i = W_test" "worker_moves i (if stop s \<or> tasks s \<noteq> [] then W_take else W_sleep) s t"
      "tasks t = tasks s" "stop t = stop s" "accepted t = accepted s" "taken t = taken s" "executed t = executed s" "broken t = broken s"
  | (block) i where "l = Block i" "workers s i = W_sleep" "worker_moves i W_wait s t"
      "tasks t = tasks s" "stop t = stop s" "accepted t = accepted s" "taken t = taken s" "executed t = executed s" "broken t = broken s"
  | (spurious) i where "l = Spurious i" "workers s i = W_wait" "worker_moves i W_woken s t"
      "tasks t = tasks s" "stop t = stop s" "accepted t = accepted s" "taken t = taken s" "executed t = executed s" "broken t = broken s"
  | (exit) i where "l = Take i" "workers s i = W_take" "worker_moves i W_done s t" "stop s" "tasks s = []"
      "tasks t = tasks s" "stop t = stop s" "accepted t = accepted s" "taken t = taken s" "executed t = executed s" "broken t = broken s"
  | (broke) i where "l = Take i" "workers s i = W_take" "\<not> stop s" "tasks s = []" "t = s\<lparr>broken := True\<rparr>"
  | (take) i x where "l = Take i" "workers s i = W_take" "worker_moves i (W_run x) s t" "tasks s = x # tasks t"
      "stop t = stop s" "accepted t = accepted s" "taken t = taken s @ [x]" "executed t = executed s" "broken t = broken s"
  | (execute) i x where "l = Execute i" "workers s i = W_run x" "worker_moves i W_idle s t"
      "tasks t = tasks s" "stop t = stop s" "accepted t = accepted s" "taken t = taken s" "executed t = executed s @ [x]" "broken t = broken s"
  | (client) j c where "client_moves j c s t" "\<And>x. clients s j \<noteq> C_push x" "\<And>x. c = C_push x \<Longrightarrow> \<not> stop s"
      "clients s j \<noteq> C_notify" "\<And>x. c = C_push x \<Longrightarrow> tasks_mutex t = Some (Client j)"
      "tasks t = tasks s" "stop t = stop s" "accepted t = accepted s" "taken t = taken s" "executed t = executed s" "broken t = broken s"
      "(\<exists>x. l = Call j x \<and> clients s j = C_idle \<and> c = C_want x) \<or> (\<exists>x. l = Lock_client j \<and> clients s j = C_want x \<and> c = C_locked x) \<or>
        (\<exists>x. l = Check j \<and> clients s j = C_locked x \<and> c = (if stop s then C_idle else C_push x))"
  | (push) j x where "l = Push j" "clients s j = C_push x" "client_moves j C_notify s t" "tasks t = tasks s @ [x]"
      "accepted t = accepted s @ [x]" "stop t = stop s" "taken t = taken s" "executed t = executed s" "broken t = broken s"
  | (notify) j w where "l = Notify_one j w" "clients s j = C_notify" "j < n_clients s"
      "w = None \<longrightarrow> (\<forall>i < n_workers s. workers s i \<noteq> W_wait)"
      "\<And>i. w = Some i \<Longrightarrow> i < n_workers s \<and> workers s i = W_wait"
      "t = s\<lparr>clients := (clients s)(j := C_idle),
             workers := (case w of None \<Rightarrow> workers s | Some i \<Rightarrow> (workers s)(i := W_woken))\<rparr>"
  | (store) "l = Store_stop" "owner s = O_serving" "t = s\<lparr>stop := True, owner := O_stored\<rparr>"
  | (notify_all) "l = Notify_all" "owner s = O_stored"
      "t = s\<lparr>workers := (\<lambda>i. if workers s i = W_wait then W_woken else workers s i), owner := O_joining 0\<rparr>"
  | (join) k where "l = Join" "owner s = O_joining k" "k < n_workers s" "workers s k = W_done" "t = s\<lparr>owner := O_joining (k + 1)\<rparr>"
proof -
  have own: "locks (workers s k) \<Longrightarrow> tasks_mutex s = Some (Worker k)"
    "locks_client (clients s m) \<Longrightarrow> tasks_mutex s = Some (Client m)" for k m
    using inv unfolding mutex_inv_def by blast+
  note defs = step_defs worker_moves_def client_moves_def
  show thesis
  proof (cases l)
    case (Lock i) then show thesis using assms(1) by (intro lock[of i]) (auto simp: defs split: if_splits)
  next
    case (Test i) then show thesis using assms(1) own(1)[of i] by (intro test[of i]) (auto simp: defs split: if_splits)
  next
    case (Block i) then show thesis using assms(1) by (intro block[of i]) (auto simp: defs split: if_splits)
  next
    case (Spurious i) then show thesis using assms(1) by (intro spurious[of i]) (auto simp: defs split: if_splits)
  next
    case (Take i)
    show thesis
    proof (cases "tasks s")
      case Nil
      then show thesis using Take assms(1) exit[of i] broke[of i] by (auto simp: defs split: if_splits)
    next
      case (Cons x xs)
      then show thesis using Take assms(1) by (intro take[of i x]) (auto simp: defs split: if_splits)
    qed
  next
    case (Execute i)
    then obtain x where "workers s i = W_run x" using assms(1) by (auto simp: defs split: if_splits worker.splits)
    then show thesis using Execute assms(1) by (intro execute[of i x]) (auto simp: defs split: if_splits)
  next
    case (Call j x) then show thesis using assms(1) by (intro client[of j "C_want x"]) (auto simp: defs split: if_splits)
  next
    case (Lock_client j)
    then obtain x where "clients s j = C_want x" using assms(1) by (auto simp: defs split: if_splits client.splits)
    then show thesis using Lock_client assms(1) by (intro client[of j "C_locked x"]) (auto simp: defs split: if_splits)
  next
    case (Check j)
    then obtain x where x: "clients s j = C_locked x" using assms(1) by (auto simp: defs split: if_splits client.splits)
    then show thesis using Check assms(1) own(2)[of j]
      by (intro client[of j "if stop s then C_idle else C_push x"]) (auto simp: defs split: if_splits)
  next
    case (Push j)
    then obtain x where x: "clients s j = C_push x" using assms(1) by (auto simp: defs split: if_splits client.splits)
    then show thesis using Push assms(1) by (intro push[of j x]) (auto simp: defs split: if_splits)
  next
    case (Notify_one j w)
    then show thesis using assms(1) by (intro notify[of j w]) (auto simp: defs split: if_splits option.splits)
  next
    case Store_stop then show thesis using assms(1) by (intro store) (auto simp: defs split: if_splits)
  next
    case Notify_all then show thesis using assms(1) by (intro notify_all) (auto simp: defs split: if_splits)
  next
    case Join
    then obtain k where k: "owner s = O_joining k" using assms(1) by (auto simp: defs split: owner.splits)
    then show thesis using Join assms(1) by (intro join[of k]) (auto simp: defs split: if_splits)
  qed
qed

lemma mutex_step:
  assumes inv: "mutex_inv s" and step: "tp_step l s = Some t"
  shows "mutex_inv t"
  using step inv
proof (cases rule: tp_step_elim)
  case (notify j w)
  let ?u = "s\<lparr>clients := (clients s)(j := C_idle)\<rparr>"
  have u: "mutex_inv ?u"
  proof (rule mutex_client_moves[OF inv])
    show "client_moves j C_idle s ?u" using notify(2,3) by (simp add: client_moves_def)
  qed
  show ?thesis
  proof (cases w)
    case (Some i)
    with notify(5)[OF Some] have "worker_moves i W_woken ?u t" by (simp add: worker_moves_def notify(6))
    with u show ?thesis by (rule mutex_worker_moves)
  qed (use u in \<open>simp add: notify(6)\<close>)
next
  case notify_all
  have "locks (if w = W_wait then W_woken else w) = locks w" "(if w = W_wait then W_woken else w) \<noteq> W_idle \<longleftrightarrow> w \<noteq> W_idle"
    for w :: "'a worker" by auto
  then show ?thesis using inv notify_all by (simp add: mutex_inv_def)
next
  case (broke i)
  show ?thesis using inv unfolding broke(5) by (simp add: mutex_inv_def)
next
  case store
  show ?thesis using inv unfolding store(3) by (simp add: mutex_inv_def)
next
  case (join k)
  show ?thesis using inv unfolding join(5) by (simp add: mutex_inv_def)
qed (blast intro: mutex_worker_moves[OF inv] mutex_client_moves[OF inv])+

lemma mutex_reachable: "reachable n c s \<Longrightarrow> mutex_inv s"
  by (induction rule: reachable.induct) (auto intro: mutex_new mutex_step)

definition queue_inv :: "'t tpool \<Rightarrow> bool" where
  "queue_inv s \<longleftrightarrow>
     accepted s = taken s @ tasks s \<and> \<not> broken s \<and>
     (\<forall>i. workers s i = W_take \<longrightarrow> stop s \<or> tasks s \<noteq> []) \<and>
     (\<forall>i. workers s i = W_sleep \<longrightarrow> tasks s = []) \<and>
     (\<forall>i. workers s i = W_done \<longrightarrow> stop s \<and> tasks s = [] \<and> (\<forall>j x. clients s j \<noteq> C_push x)) \<and>
     (owner s = O_serving \<longleftrightarrow> \<not> stop s) \<and>
     (\<forall>k. owner s = O_joining k \<longrightarrow> k \<le> n_workers s \<and> (\<forall>i < k. workers s i = W_done))"

lemma queue_new: "queue_inv (new_tpool n c)"
  by (simp add: queue_inv_def new_tpool_def)

lemma holders_agree:
  assumes "mutex_inv s"
  shows "locks (workers s i) \<Longrightarrow> locks (workers s k) \<Longrightarrow> i = k"
    and "locks (workers s i) \<Longrightarrow> locks_client (clients s j) \<Longrightarrow> False"
  using assms unfolding mutex_inv_def by (metis holder.inject(1) option.inject, metis holder.distinct(1) option.inject)

lemma queue_worker_moves:
  assumes inv: "queue_inv s" and moves: "worker_moves i w s t" and was: "workers s i \<noteq> W_done"
    and same: "accepted t = accepted s" "stop t = stop s" "broken t = broken s" "taken t = taken s" "tasks t = tasks s"
    and "w = W_take \<Longrightarrow> stop s \<or> tasks s \<noteq> []" and "w = W_sleep \<Longrightarrow> tasks s = []"
    and "w = W_done \<Longrightarrow> stop s \<and> tasks s = [] \<and> (\<forall>j x. clients s j \<noteq> C_push x)"
  shows "queue_inv t"
proof -
  have "owner t = owner s" "clients t = clients s" "n_workers t = n_workers s" "workers t = (workers s)(i := w)"
    using moves by (simp_all add: worker_moves_def)
  then show ?thesis using inv was same assms(9-11) unfolding queue_inv_def by auto
qed

lemma queue_step:
  assumes mutex: "mutex_inv s" and inv: "queue_inv s" and step: "tp_step l s = Some t"
  shows "queue_inv t"
  using step mutex
proof (cases rule: tp_step_elim)
  case (lock i)
  then show ?thesis by (intro queue_worker_moves[OF inv, of i W_test t]) auto
next
  case (test i)
  then show ?thesis by (intro queue_worker_moves[OF inv test(3)]) (auto split: if_splits)
next
  case (block i)
  then show ?thesis by (intro queue_worker_moves[OF inv block(3)]) auto
next
  case (spurious i)
  then show ?thesis by (intro queue_worker_moves[OF inv spurious(3)]) auto
next
  case (exit i)
  have "clients s j \<noteq> C_push x" for j x
    using holders_agree(2)[OF mutex, of i j] exit(2) by auto
  with exit show ?thesis by (intro queue_worker_moves[OF inv exit(3)]) auto
next
  case (broke i)
  then show ?thesis using inv by (auto simp: queue_inv_def)
next
  case (execute i x)
  then show ?thesis by (intro queue_worker_moves[OF inv execute(3)]) auto
next
  case (take i x)
  have same: "owner t = owner s" "clients t = clients s" "n_workers t = n_workers s" "workers t = (workers s)(i := W_run x)"
    using take(3) by (simp_all add: worker_moves_def)
  have only: "k = i" if "workers s k = W_take \<or> workers s k = W_sleep" for k
    using that holders_agree(1)[OF mutex, of k i] take(2) by auto
  have no_done: "workers s k \<noteq> W_done" for k
    using inv take(4) by (auto simp: queue_inv_def)
  have "accepted t = taken t @ tasks t" "\<not> broken t" "owner t = O_serving \<longleftrightarrow> \<not> stop t"
    using inv take by (auto simp: queue_inv_def same)
  moreover have "workers t k \<noteq> W_take" "workers t k \<noteq> W_sleep" "workers t k \<noteq> W_done" for k
    using only[of k] no_done[of k] by (auto simp: same)
  moreover have "owner t = O_joining k \<Longrightarrow> k \<le> n_workers t \<and> (\<forall>i < k. workers t i = W_done)" for k
    using inv no_done by (force simp: queue_inv_def same)
  ultimately show ?thesis by (simp add: queue_inv_def)
next
  case (client j c)
  have same: "owner t = owner s" "workers t = workers s" "n_workers t = n_workers s" "clients t = (clients s)(j := c)"
    using client(1) by (simp_all add: client_moves_def)
  then show ?thesis using inv client(2-) unfolding queue_inv_def same by auto
next
  case (push j x)
  have same: "owner t = owner s" "workers t = workers s" "n_workers t = n_workers s" "clients t = (clients s)(j := C_notify)"
    using push(3) by (simp_all add: client_moves_def)
  have "workers s k \<noteq> W_take" "workers s k \<noteq> W_sleep" for k
    using holders_agree(2)[OF mutex, of k j] push(2) by auto
  then show ?thesis using inv push(2,4-) unfolding queue_inv_def same by auto
next
  case (notify j w)
  then show ?thesis using inv unfolding queue_inv_def by (cases w) auto
next
  case store
  then show ?thesis using inv unfolding queue_inv_def by auto
next
  case notify_all
  then show ?thesis using inv unfolding queue_inv_def by auto
next
  case (join k)
  then show ?thesis using inv unfolding queue_inv_def by (auto simp: less_Suc_eq)
qed

lemma queue_reachable: "reachable n c s \<Longrightarrow> queue_inv s"
  by (induction rule: reachable.induct) (auto intro: queue_new queue_step mutex_reachable)

subsection \<open>Every task taken is executed once\<close>

fun running :: "'t worker \<Rightarrow> 't multiset" where
  "running (W_run x) = {#x#}"
| "running _ = {#}"

definition work_inv :: "'t tpool \<Rightarrow> bool" where
  "work_inv s \<longleftrightarrow> mset (taken s) = mset (executed s) + (\<Sum>i < n_workers s. running (workers s i))"

lemma sum_moves:
  fixes f :: "'a \<Rightarrow> 'b :: comm_monoid_add" and i n :: nat
  assumes "i < n"
  shows "(\<Sum>j < n. f ((w(i := x)) j)) + f (w i) = (\<Sum>j < n. f (w j)) + f x"
proof -
  have "(\<Sum>j \<in> {..<n} - {i}. f ((w(i := x)) j)) = (\<Sum>j \<in> {..<n} - {i}. f (w j))"
    by (rule sum.cong) auto
  then show ?thesis
    using sum.remove[OF finite_lessThan, of i n "\<lambda>j. f ((w(i := x)) j)"]
      sum.remove[OF finite_lessThan, of i n "\<lambda>j. f (w j)"] assms
    by (simp add: ac_simps)
qed

lemma work_moves:
  assumes inv: "work_inv s" and moves: "worker_moves i w s t"
    and "mset (taken t) + mset (executed s) + running (workers s i) =
      mset (taken s) + mset (executed t) + running w"
  shows "work_inv t"
proof -
  let ?S = "\<Sum>j < n_workers s. running (workers s j)" and ?T = "\<Sum>j < n_workers t. running (workers t j)"
  have sum: "?T + running (workers s i) = ?S + running w"
    using moves sum_moves[of i "n_workers s" running "workers s" w] by (simp add: worker_moves_def)
  have "mset (taken t) + (mset (executed s) + running (workers s i)) =
      (mset (executed s) + ?S) + mset (executed t) + running w"
    using assms(3) inv by (simp add: work_inv_def add.assoc)
  also have "\<dots> = (mset (executed t) + mset (executed s)) + (?S + running w)"
    by (simp add: ac_simps)
  also have "\<dots> = (mset (executed t) + ?T) + (mset (executed s) + running (workers s i))"
    unfolding sum[symmetric] by (simp add: ac_simps)
  finally show ?thesis unfolding work_inv_def by (rule add_right_imp_eq)
qed

lemma work_step:
  assumes mutex: "mutex_inv s" and inv: "work_inv s" and step: "tp_step l s = Some t"
  shows "work_inv t"
  using step mutex
proof (cases rule: tp_step_elim)
  case (lock i)
  then show ?thesis by (intro work_moves[OF inv lock(2)]) auto
next
  case (test i)
  then show ?thesis by (intro work_moves[OF inv test(3)]) auto
next
  case (block i)
  then show ?thesis by (intro work_moves[OF inv block(3)]) auto
next
  case (spurious i)
  then show ?thesis by (intro work_moves[OF inv spurious(3)]) auto
next
  case (exit i)
  then show ?thesis by (intro work_moves[OF inv exit(3)]) auto
next
  case (take i x)
  then show ?thesis by (intro work_moves[OF inv take(3)]) auto
next
  case (execute i x)
  then show ?thesis by (intro work_moves[OF inv execute(3)]) auto
next
  case (client j c)
  then show ?thesis using inv by (simp add: work_inv_def client_moves_def)
next
  case (push j x)
  then show ?thesis using inv by (simp add: work_inv_def client_moves_def)
next
  case (notify j w)
  show ?thesis
  proof (cases w)
    case None
    then show ?thesis using inv unfolding notify(6) by (simp add: work_inv_def)
  next
    case (Some i)
    let ?u = "s\<lparr>clients := (clients s)(j := C_idle)\<rparr>"
    have i: "i < n_workers s" "workers s i = W_wait" using notify(5)[OF Some] by auto
    have "work_inv ?u" using inv by (simp add: work_inv_def)
    moreover have "worker_moves i W_woken ?u t" using i by (simp add: worker_moves_def notify(6) Some)
    ultimately show ?thesis by (rule work_moves) (simp add: notify(6) i)
  qed
next
  case notify_all
  have "running (if w = W_wait then W_woken else w) = running w" for w :: "'a worker" by auto
  then show ?thesis using inv by (simp add: work_inv_def notify_all(3))
qed (use inv in \<open>simp_all add: work_inv_def\<close>)

lemma work_reachable: "reachable n c s \<Longrightarrow> work_inv s"
proof (induction rule: reachable.induct)
  case start
  show ?case by (simp add: work_inv_def new_tpool_def)
qed (auto intro: work_step mutex_reachable)

subsection \<open>No wake-up of \<open>enqueue\<close> is lost\<close>

definition wake_inv :: "'t tpool \<Rightarrow> bool" where
  "wake_inv s \<longleftrightarrow> 0 < n_workers s \<and>
     (tasks s \<noteq> [] \<longrightarrow> (\<exists>i < n_workers s. workers s i \<noteq> W_wait \<and> workers s i \<noteq> W_done) \<or>
        (\<exists>j < n_clients s. clients s j = C_notify))"

lemma wake_moves:
  assumes "wake_inv s" and "worker_moves i w s t" and "tasks t = [] \<or> (w \<noteq> W_wait \<and> w \<noteq> W_done)"
  shows "wake_inv t"
  using assms by (auto simp: wake_inv_def worker_moves_def)

lemma wake_step:
  assumes mutex: "mutex_inv s" and queue: "queue_inv s" and inv: "wake_inv s" and step: "tp_step l s = Some t"
  shows "wake_inv t"
  using step mutex
proof (cases rule: tp_step_elim)
  case (lock i)
  then show ?thesis by (intro wake_moves[OF inv lock(2)]) auto
next
  case (test i)
  then show ?thesis by (intro wake_moves[OF inv test(3)]) auto
next
  case (block i)
  then have "tasks s = []" using queue by (auto simp: queue_inv_def)
  with block show ?thesis by (intro wake_moves[OF inv block(3)]) auto
next
  case (spurious i)
  then show ?thesis by (intro wake_moves[OF inv spurious(3)]) auto
next
  case (exit i)
  then show ?thesis by (intro wake_moves[OF inv exit(3)]) auto
next
  case (take i x)
  then show ?thesis by (intro wake_moves[OF inv take(3)]) auto
next
  case (execute i x)
  then show ?thesis by (intro wake_moves[OF inv execute(3)]) auto
next
  case (client j c)
  have "clients t k = C_notify" if "clients s k = C_notify" for k
    using that client(1,4) by (auto simp: client_moves_def)
  then show ?thesis using inv client(1,6) unfolding wake_inv_def client_moves_def by metis
next
  case (push j x)
  then show ?thesis using inv by (auto simp: wake_inv_def client_moves_def)
next
  case (notify j w)
  have n: "0 < n_workers s" using inv by (simp add: wake_inv_def)
  have no_done: "tasks s \<noteq> [] \<Longrightarrow> workers s 0 \<noteq> W_done" using queue by (auto simp: queue_inv_def)
  show ?thesis
  proof (cases w)
    case None
    then have "workers s 0 \<noteq> W_wait" using notify(4) n by blast
    then have "tasks t \<noteq> [] \<longrightarrow> (\<exists>i < n_workers t. workers t i \<noteq> W_wait \<and> workers t i \<noteq> W_done)"
      using n no_done by (auto simp: notify(6) None)
    then show ?thesis using n by (simp add: wake_inv_def notify(6))
  next
    case (Some i)
    then have "i < n_workers s" using notify(5) by blast
    then have "\<exists>i < n_workers t. workers t i \<noteq> W_wait \<and> workers t i \<noteq> W_done"
      by (intro exI[of _ i]) (simp add: notify(6) Some)
    then show ?thesis using n by (simp add: wake_inv_def notify(6))
  qed
next
  case notify_all
  then show ?thesis using inv by (auto simp: wake_inv_def)
qed (use inv in \<open>simp_all add: wake_inv_def\<close>)

lemma wake_reachable: "reachable n c s \<Longrightarrow> wake_inv s"
proof (induction rule: reachable.induct)
  case start
  show ?case by (simp add: wake_inv_def new_tpool_def)
qed (auto intro: wake_step mutex_reachable queue_reachable)

lemma reachable_workers: "reachable n c s \<Longrightarrow> n_workers s = max 1 n \<and> n_clients s = c"
proof (induction rule: reachable.induct)
  case (step s l t)
  from step(2) mutex_reachable[OF step(1)] have "n_workers t = n_workers s \<and> n_clients t = n_clients s"
    by (cases rule: tp_step_elim) (auto simp: worker_moves_def client_moves_def)
  with step(3) show ?case by simp
qed (auto simp: new_tpool_def)

lemma thread_count: "reachable n c s \<Longrightarrow> threadCount s = max 1 n"
  by (simp add: threadCount_def reachable_workers)

subsection \<open>Properties\<close>

text \<open>
  C9 Order and no loss. In every reachable state of the pool, under every interleaving of
  the workers, the callers of \<open>enqueue\<close> and the destructor: no worker takes from an empty
  queue, tasks are taken in the order in which \<open>enqueue\<close> accepted them and each at most
  once, and every task taken is either executed, once, or with the worker that runs it.
\<close>

theorem tasks_taken_in_order:
  assumes "reachable n c s"
  shows "\<not> broken s \<and> accepted s = taken s @ tasks s \<and>
    mset (taken s) = mset (executed s) + (\<Sum>i < n_workers s. running (workers s i))"
  using queue_reachable[OF assms] work_reachable[OF assms] by (simp add: queue_inv_def work_inv_def)

interpretation pool: transition_system tp_step "reachable n c" for n c
  by unfold_locales (rule reachable.step)

abbreviation tp_run :: "'t label list \<Rightarrow> 't tpool \<Rightarrow> 't tpool option" where
  "tp_run \<equiv> run_labels tp_step"

lemmas reachable_run = pool.run_labels_inv

definition sample_run :: "nat label list" where
  \<comment> \<open>two workers, one caller: a task is enqueued and taken\<close>
  "sample_run = [Lock 0, Test 0, Block 0, Call 0 7, Lock_client 0, Check 0, Push 0, Notify_one 0 (Some 0),
     Lock 0, Test 0, Take 0]"

definition sample_state :: "nat tpool" where
  "sample_state = (new_tpool 2 1)\<lparr>workers := (\<lambda>_. W_idle)(0 := W_run 7), accepted := [7], taken := [7]\<rparr>"

lemma sample_run_state: "tp_run sample_run (new_tpool 2 1) = Some sample_state"
  by (simp add: sample_run_def sample_state_def new_tpool_def step_defs fun_upd_def fun_eq_iff)

theorem tasks_taken_in_order_witness:
  "accepted sample_state = taken sample_state @ tasks sample_state"
  using tasks_taken_in_order[OF reachable_run[OF start sample_run_state]] by blast

text \<open>
  C21 Mutual exclusion. In every reachable state at most one thread is inside a critical
  section of the pool, and it is the holder of the mutex.
\<close>

theorem critical_sections_exclude:
  assumes "reachable n c s"
  shows "(locks (workers s i) \<longrightarrow> tasks_mutex s = Some (Worker i)) \<and>
    (locks_client (clients s j) \<longrightarrow> tasks_mutex s = Some (Client j)) \<and>
    (locks (workers s i) \<and> locks (workers s k) \<longrightarrow> i = k) \<and> \<not> (locks (workers s i) \<and> locks_client (clients s j))"
proof -
  have "mutex_inv s" using mutex_reachable[OF assms] .
  then show ?thesis using holders_agree[of s] unfolding mutex_inv_def by blast
qed

lemma lock_taken: "tp_run [Lock 1] (new_tpool 2 1 :: nat tpool) =
    Some ((new_tpool 2 1)\<lparr>workers := (\<lambda>_. W_idle)(1 := W_test), tasks_mutex := Some (Worker 1)\<rparr>)"
  by (simp add: new_tpool_def step_defs)

theorem critical_sections_exclude_witness:
  "\<exists>s :: nat tpool. reachable 2 1 s \<and> locks (workers s 1) \<and> tasks_mutex s = Some (Worker 1)"
  using critical_sections_exclude[OF reachable_run[OF start lock_taken], of 1 0 1] reachable_run[OF start lock_taken]
  by (intro exI) auto

lemma joined_pool:
  assumes "reachable n c s" and "owner s = O_joining (n_workers s)"
  shows "tasks s = [] \<and> mset (executed s) = mset (accepted s) \<and> (\<forall>i < n_workers s. workers s i = W_done) \<and> stop s"
proof -
  have fin: "\<forall>i < n_workers s. workers s i = W_done"
    using queue_reachable[OF assms(1)] assms(2) by (simp add: queue_inv_def)
  moreover have "0 < n_workers s" using wake_reachable[OF assms(1)] by (simp add: wake_inv_def)
  ultimately have "tasks s = []" "stop s"
    using queue_reachable[OF assms(1)] unfolding queue_inv_def by blast+
  moreover have "(\<Sum>i < n_workers s. running (workers s i)) = {#}" using fin by simp
  ultimately show ?thesis
    using fin queue_reachable[OF assms(1)] work_reachable[OF assms(1)] by (simp add: queue_inv_def work_inv_def)
qed

text \<open>
  C2 Shutdown drains the queue. When the destructor has joined every worker, the queue is
  empty and exactly the accepted tasks have been executed, each once: stopping loses no
  task that \<open>enqueue\<close> accepted, also not one accepted while the flag was being set.
\<close>

theorem shutdown_drains_queue:
  assumes "reachable n c s" and "owner s = O_joining (n_workers s)"
  shows "tasks s = [] \<and> mset (executed s) = mset (accepted s) \<and> (\<forall>i < n_workers s. workers s i = W_done)"
  using joined_pool[OF assms] by blast

definition shutdown_run :: "nat label list" where
  "shutdown_run = [Call 0 7, Lock_client 0, Check 0, Push 0, Store_stop, Notify_one 0 None, Notify_all,
     Lock 0, Test 0, Take 0, Execute 0, Lock 0, Test 0, Take 0, Join]"

definition shut_down :: "nat tpool" where
  "shut_down = (new_tpool 1 1)\<lparr>workers := (\<lambda>_. W_idle)(0 := W_done), owner := O_joining 1, stop := True,
     accepted := [7], taken := [7], executed := [7]\<rparr>"

lemma shutdown_run_state: "tp_run shutdown_run (new_tpool 1 1) = Some shut_down"
  by (simp add: shutdown_run_def shut_down_def new_tpool_def step_defs fun_upd_def fun_eq_iff)

theorem shutdown_drains_queue_witness:
  "mset (executed shut_down) = mset (accepted shut_down)"
proof -
  have "owner shut_down = O_joining (n_workers shut_down)" by (simp add: shut_down_def new_tpool_def)
  from shutdown_drains_queue[OF reachable_run[OF start shutdown_run_state] this] show ?thesis by blast
qed

fun internal :: "'t label \<Rightarrow> bool" where
  "internal (Spurious i) \<longleftrightarrow> False"
| "internal (Call j x) \<longleftrightarrow> False"
| "internal Store_stop \<longleftrightarrow> False"
| "internal Notify_all \<longleftrightarrow> False"
| "internal Join \<longleftrightarrow> False"
| "internal _ \<longleftrightarrow> True"

definition goes_on :: "'t tpool \<Rightarrow> bool" where
  \<comment> \<open>some worker or some call of \<open>enqueue\<close> has a step of its own\<close>
  "goes_on s \<longleftrightarrow> (\<exists>l t. internal l \<and> tp_step l s = Some t)"

lemma goes_onI: "internal l \<Longrightarrow> tp_step l s = Some t \<Longrightarrow> goes_on s"
  by (auto simp: goes_on_def)

lemma running_goes_on: "i < n_workers s \<Longrightarrow> workers s i = W_run x \<Longrightarrow> goes_on s"
  by (rule goes_onI[of "Execute i"]) (simp_all add: step_defs)

lemma holder_goes_on:
  assumes mutex: "mutex_inv s" and held: "tasks_mutex s = Some h"
  shows "goes_on s"
proof (cases h)
  case (Worker i)
  then have "locks (workers s i)" and i: "i < n_workers s"
    using mutex held unfolding mutex_inv_def by (blast, metis locks_simps(4))
  then consider "workers s i = W_test" | "workers s i = W_sleep" | "workers s i = W_take" by (auto simp: locks_def)
  then show ?thesis
  proof cases
    case 1 with i show ?thesis by (intro goes_onI[of "Test i"]) (simp_all add: step_defs)
  next
    case 2 with i show ?thesis by (intro goes_onI[of "Block i"]) (simp_all add: step_defs)
  next
    case 3 with i have "tp_step (Take i) s \<noteq> None" by (simp add: step_defs split: list.split)
    then show ?thesis by (auto intro: goes_onI[of "Take i"])
  qed
next
  case (Client j)
  then have "locks_client (clients s j)" and j: "j < n_clients s"
    using mutex held unfolding mutex_inv_def by (blast, metis locks_simps(11))
  then consider x where "clients s j = C_locked x" | x where "clients s j = C_push x"
    by (auto simp: locks_client_def split: client.splits)
  then show ?thesis
  proof cases
    case 1
    with j have "tp_step (Check j) s \<noteq> None" by (simp add: step_defs)
    then show ?thesis by (auto intro: goes_onI[of "Check j"])
  next
    case 2 with j show ?thesis by (intro goes_onI[of "Push j"]) (simp_all add: step_defs)
  qed
qed

lemma awake_worker_goes_on:
  assumes mutex: "mutex_inv s" and i: "i < n_workers s" and awake: "workers s i \<noteq> W_wait" "workers s i \<noteq> W_done"
  shows "goes_on s"
proof (cases "tasks_mutex s")
  case None
  then have "\<not> locks (workers s i)" using mutex by (simp add: mutex_inv_def)
  with awake consider "workers s i = W_idle \<or> workers s i = W_woken" | x where "workers s i = W_run x"
    by (cases "workers s i") auto
  then show ?thesis
  proof cases
    case 1 with i None show ?thesis by (intro goes_onI[of "Lock i"]) (simp_all add: step_defs)
  qed (use i in \<open>rule running_goes_on\<close>)
qed (rule holder_goes_on[OF mutex])

lemma caller_goes_on:
  assumes mutex: "mutex_inv s" and busy: "clients s j \<noteq> C_idle"
  shows "goes_on s"
proof (cases "tasks_mutex s")
  case None
  have j: "j < n_clients s" using mutex busy unfolding mutex_inv_def by blast
  have "\<not> locks_client (clients s j)" using mutex None by (simp add: mutex_inv_def)
  with busy consider x where "clients s j = C_want x" | "clients s j = C_notify" by (cases "clients s j") auto
  then show ?thesis
  proof cases
    case 1 with j None show ?thesis by (intro goes_onI[of "Lock_client j"]) (simp_all add: step_defs)
  next
    case 2
    show ?thesis
    proof (cases "\<exists>i < n_workers s. workers s i = W_wait")
      case True
      then obtain i where "i < n_workers s" "workers s i = W_wait" by blast
      with 2 j show ?thesis by (intro goes_onI[of "Notify_one j (Some i)"]) (simp_all add: step_defs)
    next
      case False
      with 2 j show ?thesis by (intro goes_onI[of "Notify_one j None"]) (simp_all add: step_defs)
    qed
  qed
qed (rule holder_goes_on[OF mutex])

text \<open>
  A queued task is never forgotten. In every reachable state with a task in the queue
  some thread of the pool can go on without a spurious wake-up, a new call of \<open>enqueue\<close> or
  the destructor: no interleaving loses the notification of \<open>enqueue\<close>.
\<close>

theorem queued_task_makes_progress:
  assumes "reachable n c s" and "tasks s \<noteq> []"
  shows "\<exists>l t. internal l \<and> tp_step l s = Some t"
proof -
  note mutex = mutex_reachable[OF assms(1)]
  have "\<exists>j. clients s j \<noteq> C_idle" if "\<not> (\<exists>i < n_workers s. workers s i \<noteq> W_wait \<and> workers s i \<noteq> W_done)"
    using that wake_reachable[OF assms(1)] assms(2) unfolding wake_inv_def by (metis client.distinct(7))
  then have "goes_on s" using awake_worker_goes_on[OF mutex] caller_goes_on[OF mutex] by blast
  then show ?thesis by (simp only: goes_on_def)
qed

definition queued :: "nat tpool" where
  "queued = (new_tpool 1 1)\<lparr>clients := (\<lambda>_. C_idle)(0 := C_notify), tasks := [7], accepted := [7]\<rparr>"

lemma queued_run: "tp_run [Call 0 7, Lock_client 0, Check 0, Push 0] (new_tpool 1 1) = Some queued"
  by (simp add: queued_def new_tpool_def step_defs fun_upd_def fun_eq_iff)

theorem queued_task_makes_progress_witness:
  "\<exists>l t. internal l \<and> tp_step l queued = Some t"
  by (rule queued_task_makes_progress[OF reachable_run[OF start queued_run]]) (simp add: queued_def)

text \<open>
  C12 Shutdown may hang. The destructor sets the flag without the mutex: if it stores and
  notifies while a worker has found the predicate false but has not yet blocked, the worker
  blocks for good. There is a reachable state in which the destructor waits for that worker
  and no thread can go on, but for a spurious wake-up.
\<close>

theorem shutdown_may_hang:
  "\<exists>s :: nat tpool. reachable 1 0 s \<and> owner s = O_joining 0 \<and> workers s 0 = W_wait \<and>
     (\<forall>l t. tp_step l s = Some t \<longrightarrow> (\<exists>i. l = Spurious i))"
proof -
  define s :: "nat tpool" where "s = (new_tpool 1 0)\<lparr>workers := (\<lambda>_. W_idle)(0 := W_wait), owner := O_joining 0, stop := True\<rparr>"
  have "tp_run [Lock 0, Test 0, Store_stop, Notify_all, Block 0] (new_tpool 1 0) = Some s"
    by (simp add: s_def new_tpool_def step_defs fun_upd_def fun_eq_iff)
  from reachable_run[OF start this] have "reachable 1 0 s" .
  moreover have "\<exists>i. l = Spurious i" if "tp_step l s = Some t" for l t
    using that by (cases l) (auto simp: s_def new_tpool_def step_defs split: if_splits)
  ultimately show ?thesis by (intro exI[of _ s]) (auto simp: s_def)
qed

theorem shutdown_may_hang_witness:
  "\<exists>s :: nat tpool. reachable 1 0 s \<and> owner s = O_joining 0 \<and> tp_step (Lock 0) s = None \<and> tp_step (Block 0) s = None"
proof -
  obtain s :: "nat tpool" where s: "reachable 1 0 s" "owner s = O_joining 0"
    and stuck: "\<forall>l t. tp_step l s = Some t \<longrightarrow> (\<exists>i. l = Spurious i)"
    using shutdown_may_hang by blast
  have "tp_step (Lock 0) s = None" "tp_step (Block 0) s = None"
    using stuck by (cases "tp_step (Lock 0) s"; cases "tp_step (Block 0) s"; force)+
  with s show ?thesis by blast
qed

end
