(* ===== verification/Tcp_Server.thy ===== *)
theory Tcp_Server
  imports Posix
begin

section \<open>Sockets and the server around the thread pool\<close>

text \<open>
  The rest of \<open>thread_pool_server.h\<close> and \<open>.cpp\<close> and \<open>thread_pool_main.cpp\<close>: the owner of a
  descriptor (\<open>SocketHandle\<close>), the echo of a connection (\<open>TcpConnection\<close>), the accepting
  thread (\<open>ThreadPoolTcpServer\<close>) and \<open>main\<close>. Exceptions are values of the type \<open>exn\<close>.
\<close>

subsection \<open>\<open>SocketHandle\<close>\<close>

text \<open>
  The state holds the live \<open>SocketHandle\<close> objects by name with their \<open>fd_\<close>, the descriptors
  that are open, and those that \<open>release\<close> gave to the caller.
\<close>

record sockets =
  handles :: "nat \<rightharpoonup> int"
  open_set :: "int set"
  released :: "int set"

definition close_fd :: "int \<Rightarrow> sockets \<Rightarrow> sockets res" where
  \<comment> \<open>\<open>if (fd_ != -1) ::close(fd_);\<close> closing what is not open is a fault\<close>
  "close_fd fd s =
     (if fd = -1 then Inr s
      else if fd \<in> open_set s then Inr (s\<lparr>open_set := open_set s - {fd}\<rparr>) else Inl Dangling)"

definition get_handle :: "nat \<Rightarrow> sockets \<Rightarrow> int res" where
  "get_handle i s = (case handles s i of None \<Rightarrow> Inl Dangling | Some fd \<Rightarrow> Inr fd)"

definition valid_handle :: "nat \<Rightarrow> sockets \<Rightarrow> bool res" where
  \<comment> \<open>\<open>operator bool\<close>\<close>
  "valid_handle i s = rbind (get_handle i s) (\<lambda>fd. Inr (fd \<noteq> -1))"

definition set_handle :: "nat \<Rightarrow> int option \<Rightarrow> sockets \<Rightarrow> sockets" where
  "set_handle i v s = s\<lparr>handles := (handles s)(i := v)\<rparr>"

datatype sh_op =
    New nat int          \<comment> \<open>\<open>SocketHandle(fd)\<close> for a descriptor just opened, or \<open>-1\<close>\<close>
  | Move_new nat nat     \<comment> \<open>\<open>SocketHandle(SocketHandle&&)\<close>\<close>
  | Move_assign nat nat
  | Release nat
  | Destroy nat

fun sh_step :: "sh_op \<Rightarrow> sockets \<Rightarrow> sockets res" where
  "sh_step (New i fd) s =
     Inr (set_handle i (Some fd) (s\<lparr>open_set := open_set s \<union> (if fd = -1 then {} else {fd})\<rparr>))"
| "sh_step (Move_new i j) s =
     rbind (get_handle j s) (\<lambda>fd. Inr (set_handle j (Some (-1)) (set_handle i (Some fd) s)))"
| "sh_step (Move_assign i j) s =
     (if i = j then Inr s
      else
        rbind (get_handle i s) (\<lambda>fd.
        rbind (close_fd fd s) (\<lambda>s1.
        rbind (get_handle j s1) (\<lambda>other. Inr (set_handle j (Some (-1)) (set_handle i (Some other) s1))))))"
| "sh_step (Release i) s =
     rbind (get_handle i s) (\<lambda>fd.
       Inr (set_handle i (Some (-1)) (s\<lparr>released := released s \<union> (if fd = -1 then {} else {fd})\<rparr>)))"
| "sh_step (Destroy i) s =
     rbind (get_handle i s) (\<lambda>fd. rbind (close_fd fd s) (\<lambda>s1. Inr (set_handle i None s1)))"

definition owned :: "sockets \<Rightarrow> int set" where
  "owned s = ran (handles s) - {-1}"

definition sh_inv :: "sockets \<Rightarrow> bool" where
  \<comment> \<open>every open descriptor has one owner: a handle, or whoever it was released to\<close>
  "sh_inv s \<longleftrightarrow>
     (\<forall>i j fd. handles s i = Some fd \<longrightarrow> handles s j = Some fd \<longrightarrow> fd \<noteq> -1 \<longrightarrow> i = j) \<and>
     open_set s = owned s \<union> released s \<and> owned s \<inter> released s = {} \<and> -1 \<notin> released s"

fun sh_ok :: "sh_op \<Rightarrow> sockets \<Rightarrow> bool" where
  "sh_ok (New i fd) s \<longleftrightarrow> handles s i = None \<and> fd \<notin> open_set s"
| "sh_ok (Move_new i j) s \<longleftrightarrow> handles s i = None \<and> handles s j \<noteq> None"
| "sh_ok (Move_assign i j) s \<longleftrightarrow> handles s i \<noteq> None \<and> handles s j \<noteq> None"
| "sh_ok (Release i) s \<longleftrightarrow> handles s i \<noteq> None"
| "sh_ok (Destroy i) s \<longleftrightarrow> handles s i \<noteq> None"

lemma owned_iff: "fd \<in> owned s \<longleftrightarrow> fd \<noteq> -1 \<and> (\<exists>i. handles s i = Some fd)"
  by (auto simp: owned_def ran_def)

lemma sh_invD:
  assumes "sh_inv s"
  shows "handles s i = Some fd \<Longrightarrow> handles s j = Some fd \<Longrightarrow> fd \<noteq> -1 \<Longrightarrow> i = j"
    and "fd \<in> open_set s \<longleftrightarrow> fd \<in> owned s \<or> fd \<in> released s"
    and "fd \<in> owned s \<Longrightarrow> fd \<in> released s \<Longrightarrow> False" and "-1 \<notin> released s"
  using assms unfolding sh_inv_def by blast+

lemma sh_invI:
  assumes "\<And>i j fd. handles s i = Some fd \<Longrightarrow> handles s j = Some fd \<Longrightarrow> fd \<noteq> -1 \<Longrightarrow> i = j"
    and "\<And>fd. fd \<in> open_set s \<longleftrightarrow> fd \<in> owned s \<or> fd \<in> released s"
    and "\<And>fd. fd \<in> owned s \<Longrightarrow> fd \<in> released s \<Longrightarrow> False" and "-1 \<notin> released s"
  shows "sh_inv s"
  unfolding sh_inv_def using assms by blast

lemma valid_handle_open:
  \<comment> \<open>a handle converts to \<open>true\<close> exactly when its descriptor is open\<close>
  assumes "sh_inv s" and "handles s i = Some fd"
  shows "valid_handle i s = Inr (fd \<in> open_set s)"
  using sh_invD(2,4)[OF assms(1)] assms(2) owned_iff[of fd s] by (auto simp: valid_handle_def get_handle_def)

lemma sh_new:
  assumes inv: "sh_inv s" and ok: "sh_ok (New i fd) s"
  shows "\<exists>t. sh_step (New i fd) s = Inr t \<and> sh_inv t"
proof -
  let ?t = "set_handle i (Some fd) (s\<lparr>open_set := open_set s \<union> (if fd = -1 then {} else {fd})\<rparr>)"
  note D = sh_invD[OF inv]
  have h: "handles ?t = (handles s)(i \<mapsto> fd)" "open_set ?t = open_set s \<union> (if fd = -1 then {} else {fd})"
    "released ?t = released s" by (simp_all add: set_handle_def)
  have own: "x \<in> owned ?t \<longleftrightarrow> x \<in> owned s \<or> (x = fd \<and> fd \<noteq> -1)" for x
  proof
    show "x \<in> owned s \<or> (x = fd \<and> fd \<noteq> -1)" if "x \<in> owned ?t"
      using that unfolding owned_iff h by (auto split: if_splits)
    have "handles s i = None" using ok by simp
    then show "x \<in> owned ?t" if "x \<in> owned s \<or> (x = fd \<and> fd \<noteq> -1)"
      using that unfolding owned_iff h by (metis fun_upd_apply option.distinct(1))
  qed
  have "sh_inv ?t"
  proof (rule sh_invI)
    fix k l x assume "handles ?t k = Some x" "handles ?t l = Some x" "x \<noteq> -1"
    moreover have "handles s m = Some fd \<Longrightarrow> fd \<noteq> -1 \<Longrightarrow> False" for m
      using ok D(2)[of fd] owned_iff by auto
    ultimately show "k = l" using D(1)[of k x l] unfolding h by (auto split: if_splits)
  next
    show "x \<in> open_set ?t \<longleftrightarrow> x \<in> owned ?t \<or> x \<in> released ?t" for x
      using D(2)[of x] own[of x] unfolding h by auto
    show "x \<in> owned ?t \<Longrightarrow> x \<in> released ?t \<Longrightarrow> False" for x
      using D(2,3)[of x] own[of x] ok unfolding h by auto
    show "-1 \<notin> released ?t" using D(4) unfolding h .
  qed
  then show ?thesis by simp
qed

lemma sh_move:
  \<comment> \<open>the descriptor of \<open>j\<close> goes to \<open>i\<close>, which holds none\<close>
  assumes inv: "sh_inv s" and "handles s i = None \<or> handles s i = Some (-1)" and j: "handles s j = Some fd" and "i \<noteq> j"
  shows "sh_inv (set_handle j (Some (-1)) (set_handle i (Some fd) s))"
proof -
  let ?t = "set_handle j (Some (-1)) (set_handle i (Some fd) s)"
  note D = sh_invD[OF inv]
  have h: "handles ?t = (handles s)(i \<mapsto> fd, j \<mapsto> -1)" "open_set ?t = open_set s" "released ?t = released s"
    by (simp_all add: set_handle_def)
  have own: "x \<in> owned ?t \<longleftrightarrow> x \<in> owned s" for x
  proof
    show "x \<in> owned s" if "x \<in> owned ?t"
      using that j unfolding owned_iff h by (auto split: if_splits)
    assume "x \<in> owned s"
    then obtain k where k: "handles s k = Some x" "x \<noteq> -1" unfolding owned_iff by blast
    then have "k \<noteq> i" using assms(2) by auto
    have "handles ?t (if k = j then i else k) = Some x"
    proof (cases "k = j")
      case True
      then have "fd = x" using k(1) j by simp
      then show ?thesis using True assms(4) unfolding h by simp
    next
      case False
      then show ?thesis using \<open>k \<noteq> i\<close> k(1) by (simp add: h)
    qed
    with k(2) show "x \<in> owned ?t" unfolding owned_iff by blast
  qed
  have orig: "k \<noteq> j \<and> handles s (if k = i then j else k) = Some x" if "handles ?t k = Some x" "x \<noteq> -1" for k x
    using that j assms(4) unfolding h by (auto split: if_splits)
  show ?thesis
  proof (rule sh_invI)
    fix k l x assume "handles ?t k = Some x" "handles ?t l = Some x" and nm: "x \<noteq> -1"
    then have "k \<noteq> j" "l \<noteq> j" "(if k = i then j else k) = (if l = i then j else l)"
      using orig[of k x] orig[of l x] D(1) by blast+
    then show "k = l" by (auto split: if_splits)
  next
    show "x \<in> open_set ?t \<longleftrightarrow> x \<in> owned ?t \<or> x \<in> released ?t" for x
      using D(2)[of x] own[of x] unfolding h by simp
    show "x \<in> owned ?t \<Longrightarrow> x \<in> released ?t \<Longrightarrow> False" for x
      using D(3)[of x] own[of x] unfolding h by simp
    show "-1 \<notin> released ?t" using D(4) unfolding h .
  qed
qed

lemma sh_close:
  \<comment> \<open>the descriptor of a handle is closed and the handle holds \<open>v\<close>, none\<close>
  assumes inv: "sh_inv s" and i: "handles s i = Some fd" and v: "v = None \<or> v = Some (-1)"
  shows "\<exists>t. close_fd fd s = Inr t \<and> handles t = handles s \<and> sh_inv (set_handle i v t)"
proof -
  note D = sh_invD[OF inv]
  have in_open: "fd \<noteq> -1 \<Longrightarrow> fd \<in> open_set s" using D(2) i owned_iff by blast
  define t where "t = (if fd = -1 then s else s\<lparr>open_set := open_set s - {fd}\<rparr>)"
  let ?t = "set_handle i v t"
  have h: "handles ?t = (handles s)(i := v)" "open_set ?t = (if fd = -1 then open_set s else open_set s - {fd})"
    "released ?t = released s" by (simp_all add: set_handle_def t_def)
  have own: "x \<in> owned ?t \<longleftrightarrow> x \<in> owned s \<and> x \<noteq> fd" for x
  proof
    assume "x \<in> owned ?t"
    then obtain k where "handles s k = Some x" "k \<noteq> i" "x \<noteq> -1"
      using v unfolding owned_iff h by (auto split: if_splits)
    then show "x \<in> owned s \<and> x \<noteq> fd" using D(1)[of k x i] i owned_iff by blast
  next
    assume "x \<in> owned s \<and> x \<noteq> fd"
    then show "x \<in> owned ?t" using i unfolding owned_iff h by (metis fun_upd_other option.inject)
  qed
  have "sh_inv ?t"
  proof (rule sh_invI)
    fix k l x assume "handles ?t k = Some x" "handles ?t l = Some x" "x \<noteq> -1"
    then show "k = l" using D(1)[of k x l] v unfolding h by (auto split: if_splits)
  next
    have "fd \<in> owned s \<or> fd = -1" using i owned_iff by blast
    then show "x \<in> open_set ?t \<longleftrightarrow> x \<in> owned ?t \<or> x \<in> released ?t" for x
      using D(2)[of x] D(3)[of fd] D(4) own[of x] owned_iff[of x s] unfolding h by auto
    show "x \<in> owned ?t \<Longrightarrow> x \<in> released ?t \<Longrightarrow> False" for x
      using D(3)[of x] own[of x] unfolding h by blast
    show "-1 \<notin> released ?t" using D(4) unfolding h .
  qed
  moreover have "close_fd fd s = Inr t" using in_open by (simp add: close_fd_def t_def)
  moreover have "handles t = handles s" by (simp add: t_def)
  ultimately show ?thesis by blast
qed

lemma sh_release:
  assumes inv: "sh_inv s" and i: "handles s i = Some fd"
  shows "sh_inv (set_handle i (Some (-1)) (s\<lparr>released := released s \<union> (if fd = -1 then {} else {fd})\<rparr>))"
proof -
  let ?t = "set_handle i (Some (-1)) (s\<lparr>released := released s \<union> (if fd = -1 then {} else {fd})\<rparr>)"
  note D = sh_invD[OF inv]
  have h: "handles ?t = (handles s)(i \<mapsto> -1)" "open_set ?t = open_set s"
    "released ?t = released s \<union> (if fd = -1 then {} else {fd})" by (simp_all add: set_handle_def)
  have own: "x \<in> owned ?t \<longleftrightarrow> x \<in> owned s \<and> x \<noteq> fd" for x
  proof
    assume "x \<in> owned ?t"
    then obtain k where "handles s k = Some x" "k \<noteq> i" "x \<noteq> -1"
      unfolding owned_iff h by (auto split: if_splits)
    then show "x \<in> owned s \<and> x \<noteq> fd" using D(1)[of k x i] i owned_iff by blast
  next
    assume "x \<in> owned s \<and> x \<noteq> fd"
    then show "x \<in> owned ?t" using i unfolding owned_iff h by (metis fun_upd_other option.inject)
  qed
  show ?thesis
  proof (rule sh_invI)
    fix k l x assume "handles ?t k = Some x" "handles ?t l = Some x" "x \<noteq> -1"
    then show "k = l" using D(1)[of k x l] unfolding h by (auto split: if_splits)
  next
    have "fd \<in> owned s \<or> fd = -1" using i owned_iff by blast
    then show "x \<in> open_set ?t \<longleftrightarrow> x \<in> owned ?t \<or> x \<in> released ?t" for x
      using D(2)[of x] D(3)[of fd] D(4) own[of x] owned_iff[of x s] unfolding h by auto
    show "x \<in> owned ?t \<Longrightarrow> x \<in> released ?t \<Longrightarrow> False" for x
      using D(3)[of x] own[of x] unfolding h by (auto split: if_splits)
    show "-1 \<notin> released ?t" using D(4) unfolding h by auto
  qed
qed

lemma sh_step_correct:
  assumes inv: "sh_inv s" and ok: "sh_ok c s"
  shows "\<exists>t. sh_step c s = Inr t \<and> sh_inv t"
proof (cases c)
  case (New i fd)
  then show ?thesis using sh_new[OF inv] ok by simp
next
  case (Move_new i j)
  then obtain fd where "handles s j = Some fd" "handles s i = None" "i \<noteq> j" using ok by fastforce
  then show ?thesis using sh_move[OF inv, of i j fd] Move_new by (simp add: get_handle_def)
next
  case (Move_assign i j)
  show ?thesis
  proof (cases "i = j")
    case True
    then show ?thesis using Move_assign inv by simp
  next
    case False
    obtain fd fd' where h: "handles s i = Some fd" "handles s j = Some fd'" using Move_assign ok by auto
    obtain t where t: "close_fd fd s = Inr t" "handles t = handles s" "sh_inv (set_handle i (Some (-1)) t)"
      using sh_close[OF inv h(1)] by blast
    have "sh_inv (set_handle j (Some (-1)) (set_handle i (Some fd') (set_handle i (Some (-1)) t)))"
      using False h t(2) by (intro sh_move[OF t(3)]) (simp_all add: set_handle_def)
    moreover have "set_handle i (Some fd') (set_handle i (Some (-1)) t) = set_handle i (Some fd') t"
      by (simp add: set_handle_def)
    ultimately show ?thesis using Move_assign False h t(1,2) by (simp add: get_handle_def)
  qed
next
  case (Release i)
  then obtain fd where "handles s i = Some fd" using ok by auto
  then show ?thesis using sh_release[OF inv] Release by (simp add: get_handle_def)
next
  case (Destroy i)
  then obtain fd where h: "handles s i = Some fd" using ok by auto
  then show ?thesis using sh_close[OF inv h, of None] Destroy by (auto simp: get_handle_def)
qed

interpretation sh: event_handler sh_step sh_inv sh_ok
proof unfold_locales
  show "\<exists>t. sh_step c s = Inr t" if "sh_inv s" "sh_ok c s" for s c
    using sh_step_correct[OF that] by blast
  show "sh_inv t" if "sh_inv s" "sh_ok c s" "sh_step c s = Inr t" for s c t
    using sh_step_correct[OF that(1,2)] that(3) by simp
qed

fun sh_history :: "sh_op list \<Rightarrow> sockets \<Rightarrow> bool" where
  "sh_history [] s \<longleftrightarrow> True"
| "sh_history (c # cs) s \<longleftrightarrow> sh_ok c s \<and> (case sh_step c s of Inl f \<Rightarrow> True | Inr t \<Rightarrow> sh_history cs t)"

lemma sh_history_ok: "sh_history cs s \<Longrightarrow> sh.all_ok cs s"
  by (induction cs arbitrary: s) (auto split: sum.splits)

definition no_sockets :: sockets where
  "no_sockets = \<lparr>handles = Map.empty, open_set = {}, released = {}\<rparr>"

lemma sh_inv_empty: "sh_inv no_sockets"
  by (simp add: sh_inv_def owned_def no_sockets_def)

text \<open>
  C23 A descriptor has one owner. Over any history of constructions, move constructions,
  move assignments (also to itself), releases and destructions of \<open>SocketHandle\<close> objects no
  descriptor is closed that is not open, so none is closed twice; the open ones are at every
  time exactly those in a live handle and those released. When every handle is destroyed,
  everything that was not released is closed.
\<close>

theorem sockets_have_one_owner:
  assumes "sh_history cs no_sockets"
  shows "\<exists>t. run_events sh_step cs no_sockets = Inr t \<and> open_set t = owned t \<union> released t \<and>
    owned t \<inter> released t = {} \<and> (handles t = Map.empty \<longrightarrow> open_set t = released t)"
proof -
  obtain t where t: "run_events sh_step cs no_sockets = Inr t" "sh_inv t"
    using sh.run_total_inv[OF sh_inv_empty sh_history_ok[OF assms]] by blast
  have "handles t = Map.empty \<longrightarrow> owned t = {}" by (simp add: owned_def)
  with t show ?thesis unfolding sh_inv_def by auto
qed

theorem sockets_have_one_owner_witness:
  "\<exists>t. run_events sh_step [New 0 7, Move_new 1 0, New 2 8, Move_assign 2 1, Destroy 0, Destroy 1, Destroy 2] no_sockets = Inr t \<and>
    open_set t = {}"
proof -
  let ?cs = "[New 0 7, Move_new 1 0, New 2 8, Move_assign 2 1, Destroy 0, Destroy 1, Destroy 2]"
  have "sh_history ?cs no_sockets"
    by (simp add: no_sockets_def set_handle_def get_handle_def close_fd_def)
  from sockets_have_one_owner[OF this] show ?thesis
    by (simp add: no_sockets_def set_handle_def get_handle_def close_fd_def)
qed

subsection \<open>\<open>TcpConnection\<close>\<close>

datatype exn = System_error string | Runtime_error string | Invalid_argument | Out_of_range

definition setNonBlocking :: "int \<Rightarrow> int \<Rightarrow> exn option" where
  \<comment> \<open>what the two calls of \<open>fcntl\<close> return\<close>
  "setNonBlocking flags set_ret =
     (if flags = -1 then Some (System_error ''fcntl(F_GETFL) failed'')
      else if set_ret = -1 then Some (System_error ''fcntl(F_SETFL) failed'') else None)"

type_synonym connection = "int \<times> string"
  \<comment> \<open>the descriptor that a \<open>TcpConnection\<close> owns and the address of its peer\<close>

definition new_connection :: "int \<Rightarrow> string \<Rightarrow> int \<Rightarrow> int \<Rightarrow> exn + connection" where
  \<comment> \<open>\<open>TcpConnection(sockfd, peer_address)\<close>; when it throws, its \<open>socket_\<close> is destroyed\<close>
  "new_connection sockfd peer flags set_ret =
     (case setNonBlocking flags set_ret of Some x \<Rightarrow> Inl x | None \<Rightarrow> Inr (sockfd, peer))"

definition kBufferSize :: nat where "kBufferSize = 1024"

definition echo_prefix :: "nat list" where
  \<comment> \<open>\<open>"Echo: "\<close>\<close>
  "echo_prefix = [69, 99, 104, 111, 58, 32]"

fun processRequest :: "(recv_result \<times> int) list \<Rightarrow> nat list list \<Rightarrow> bool \<times> nat list list" where
  \<comment> \<open>what \<open>recv\<close> and the \<open>send\<close> that may follow return; whether the loop has been left, and
    the bytes each \<open>send\<close> took\<close>
  "processRequest [] sent = (False, sent)"
| "processRequest ((r, n) # rs) sent =
     (case r of
        Recv_data bs \<Rightarrow>
          let request = received (kBufferSize - 1) bs in
          if request = [] then (True, sent)
          else
            let response = echo_prefix @ request in
            processRequest rs (if n < 0 then sent else sent @ [take (nat n) response])
      | Recv_error err \<Rightarrow> if err = EAGAIN then processRequest rs sent else (True, sent))"

definition complete :: "recv_result \<times> int \<Rightarrow> bool" where
  \<comment> \<open>no data, or data that fits and is answered by a \<open>send\<close> that takes everything\<close>
  "complete rn = (case rn of
     (Recv_error err, n) \<Rightarrow> err = EAGAIN
   | (Recv_data bs, n) \<Rightarrow> bs \<noteq> [] \<and> length bs < kBufferSize \<and> n = int (length bs + 6))"

fun requests :: "(recv_result \<times> int) list \<Rightarrow> nat list list" where
  "requests [] = []"
| "requests ((Recv_data bs, n) # rs) = bs # requests rs"
| "requests ((Recv_error err, n) # rs) = requests rs"

definition stream_ends :: "recv_result \<Rightarrow> bool" where
  "stream_ends r = (case r of Recv_data bs \<Rightarrow> bs = [] | Recv_error err \<Rightarrow> err \<noteq> EAGAIN)"

lemma processRequest_complete:
  "\<forall>rn \<in> set rs. complete rn \<Longrightarrow>
   processRequest (rs @ ts) sent = processRequest ts (sent @ map ((@) echo_prefix) (requests rs))"
proof (induction rs arbitrary: sent)
  case (Cons rn rs)
  obtain r n where rn: "rn = (r, n)" by fastforce
  show ?case
  proof (cases r)
    case (Recv_error err)
    then show ?thesis using Cons rn by (simp add: complete_def)
  next
    case (Recv_data bs)
    then have "bs \<noteq> []" "length bs \<le> 1023" "n = int (length bs + 6)"
      using Cons.prems rn by (auto simp: complete_def kBufferSize_def)
    then have "take (kBufferSize - 1) bs = bs" "take (nat n) (echo_prefix @ bs) = echo_prefix @ bs" "\<not> n < 0"
      by (auto simp: echo_prefix_def kBufferSize_def nat_add_distrib)
    then show ?thesis using Cons Recv_data rn \<open>bs \<noteq> []\<close> by (simp add: received_def Let_def)
  qed
qed simp

text \<open>
  C27 The echo. Whatever mixture of data and empty reads a client causes, if each \<open>send\<close>
  takes its whole response, then every request is answered by \<open>Echo: \<close> and the request, in
  order, and the connection ends with the first end of stream or error of \<open>recv\<close>, whatever
  would follow.
\<close>

theorem connection_echoes:
  assumes "\<forall>rn \<in> set rs. complete rn" and "stream_ends r"
  shows "processRequest (rs @ (r, n) # ts) [] = (True, map ((@) echo_prefix) (requests rs))"
  using processRequest_complete[OF assms(1), of "(r, n) # ts" "[]"] assms(2)
  by (auto simp: stream_ends_def received_def split: recv_result.splits)

theorem connection_echoes_witness:
  "processRequest ([(Recv_data [104, 105], 8), (Recv_error EAGAIN, 0)] @ (Recv_data [], 0) # []) [] =
     (True, [[69, 99, 104, 111, 58, 32, 104, 105]])"
  by (subst connection_echoes) (simp_all add: complete_def stream_ends_def kBufferSize_def echo_prefix_def)

text \<open>
  The worker of a silent client spins. When \<open>recv\<close> would block, the loop is not left, as
  its comment says, but goes round without sending, for any number of calls: the worker
  thread is occupied until the client closes.
\<close>

theorem silent_client_occupies_worker:
  "processRequest (replicate k (Recv_error EAGAIN, n)) sent = (False, sent)"
  by (induction k) simp_all

text \<open>
  A \<open>send\<close> that takes only part of a response is not continued: the rest of the response
  is lost, and the answer to the next request follows the truncated one.
\<close>

theorem partial_send_loses_bytes:
  assumes "0 < length bs" and "length bs < kBufferSize" and "k < length bs + 6"
  shows "processRequest [(Recv_data bs, int k), (Recv_data [], 0)] [] = (True, [take k (echo_prefix @ bs)]) \<and>
    take k (echo_prefix @ bs) \<noteq> echo_prefix @ bs"
proof -
  have "received (kBufferSize - 1) bs = bs" using assms(2) by (simp add: received_def kBufferSize_def)
  moreover have "take k (echo_prefix @ bs) \<noteq> echo_prefix @ bs"
  proof
    assume "take k (echo_prefix @ bs) = echo_prefix @ bs"
    then have "length (take k (echo_prefix @ bs)) = length (echo_prefix @ bs)" by (rule arg_cong)
    then show False using assms(3) by (simp add: echo_prefix_def)
  qed
  ultimately show ?thesis using assms(1) by (auto simp: Let_def received_def)
qed

theorem partial_send_loses_bytes_witness:
  "processRequest [(Recv_data [104, 105], int 3), (Recv_data [], 0)] [] = (True, [[69, 99, 104]])"
  using partial_send_loses_bytes[of "[104, 105]" 3] by (simp add: kBufferSize_def echo_prefix_def)

end
