(* ===== verification/Tcp_Listen.thy ===== *)
theory Tcp_Listen
  imports Tcp_Server
begin

section \<open>The accepting thread and \<open>main\<close>\<close>

text \<open>
  \<open>ThreadPoolTcpServer\<close> of \<open>thread_pool_server.cpp\<close> and \<open>thread_pool_main.cpp\<close>: the
  listening socket and its ownership, the loop that accepts clients and hands each to the
  pool, \<open>stop\<close> and the destructor, and the reading of the command line.
\<close>

subsection \<open>Numbers of the standard library\<close>

fun to_string :: "nat \<Rightarrow> string" where
  "to_string n = (if n < 10 then [char_of (48 + n)] else to_string (n div 10) @ [char_of (48 + n mod 10)])"

declare to_string.simps [simp del]

definition stoi :: "string \<Rightarrow> exn + int" where
  \<comment> \<open>white space, a sign, digits; what follows is ignored\<close>
  "stoi s =
     (let s1 = dropWhile is_space s;
          neg = (s1 \<noteq> [] \<and> hd s1 = CHR ''-'');
          s2 = (if s1 \<noteq> [] \<and> (hd s1 = CHR ''-'' \<or> hd s1 = CHR ''+'') then tl s1 else s1);
          ds = takeWhile is_digit s2;
          v = (if neg then - decimal ds else decimal ds) in
      if ds = [] then Inl Invalid_argument
      else if v < - 2147483648 \<or> 2147483647 < v then Inl Out_of_range else Inr v)"

subsection \<open>The listening socket\<close>

record server =
  server_ip :: string
  server_port :: "16 word"
  listen_socket :: int
  running :: bool
  closed :: "int list"     \<comment> \<open>descriptors closed, in order\<close>

definition new_server :: "string \<Rightarrow> 16 word \<Rightarrow> server" where
  "new_server ip port = \<lparr>server_ip = ip, server_port = port, listen_socket = -1, running = False, closed = []\<rparr>"

definition assign_listen :: "int \<Rightarrow> server \<Rightarrow> server" where
  \<comment> \<open>\<open>listen_socket_ = SocketHandle(fd)\<close>\<close>
  "assign_listen fd s =
     s\<lparr>closed := closed s @ (if listen_socket s \<noteq> -1 then [listen_socket s] else []), listen_socket := fd\<rparr>"

record listen_env =
  socket_ret :: int
  setsockopt_ret :: int
  pton :: "string \<Rightarrow> int"
  bind_ret :: "string \<Rightarrow> 16 word \<Rightarrow> int"
  listen_ret :: int
  fcntl_get :: int
  fcntl_set :: int

definition createListenSocket :: "listen_env \<Rightarrow> server \<Rightarrow> exn option \<times> server" where
  "createListenSocket env s =
     (if socket_ret env < 0 then (Some (System_error ''socket() failed''), s)
      else
        let s1 = assign_listen (socket_ret env) s in
        if setsockopt_ret env < 0 then (Some (System_error ''setsockopt(SO_REUSEADDR) failed''), s1)
        else if pton env (server_ip s1) \<noteq> 1 then (Some (Runtime_error ''inet_pton() failed: invalid IP address''), s1)
        else if bind_ret env (server_ip s1) (htons (server_port s1)) < 0 then (Some (System_error ''bind() failed''), s1)
        else if listen_ret env < 0 then (Some (System_error ''listen() failed''), s1)
        else (setNonBlocking (fcntl_get env) (fcntl_set env), s1))"

definition stop :: "server \<Rightarrow> server" where
  "stop s = (if running s then assign_listen (-1) (s\<lparr>running := False\<rparr>) else s)"

definition destroy_server :: "server \<Rightarrow> server" where
  \<comment> \<open>\<open>~ThreadPoolTcpServer()\<close> and the destruction of \<open>listen_socket_\<close>\<close>
  "destroy_server s = assign_listen (-1) (stop s)"

subsection \<open>Accepting\<close>

definition acceptConnection :: "int \<Rightarrow> int \<Rightarrow> exn + int" where
  \<comment> \<open>what \<open>accept\<close> returns, and \<open>errno\<close>\<close>
  "acceptConnection ret err =
     (if ret < 0 then (if err = EAGAIN then Inr (-1) else Inl (System_error ''accept() failed'')) else Inr ret)"

record accept_event =
  is_running :: bool       \<comment> \<open>\<open>running_\<close>, which another thread may clear\<close>
  terminate_flag :: bool
  accept_ret :: int
  accept_errno :: int
  peer_text :: string
  peer_port :: "16 word"
  client_get :: int
  client_set :: int
  pool_stopped :: bool

record accepting =
  pool_tasks :: "connection list"  \<comment> \<open>the connections handed to the pool\<close>
  dropped :: "int list"                \<comment> \<open>clients closed by the destruction of their connection\<close>

definition peer_address :: "accept_event \<Rightarrow> string" where
  "peer_address e = peer_text e @ '':'' @ to_string (unat (ntohs (peer_port e)))"

fun accept_loop :: "accept_event list \<Rightarrow> accepting \<Rightarrow> exn option \<times> accepting" where
  \<comment> \<open>one event for each evaluation of the condition; behind the last one it no longer holds\<close>
  "accept_loop [] a = (None, a)"
| "accept_loop (e # es) a =
     (if \<not> (is_running e \<and> \<not> terminate_flag e) then (None, a)
      else
        (case acceptConnection (accept_ret e) (accept_errno e) of
           Inl x \<Rightarrow> (Some x, a)
         | Inr fd \<Rightarrow>
             if fd = -1 then accept_loop es a
             else
               (case new_connection fd (peer_address e) (client_get e) (client_set e) of
                  Inl x \<Rightarrow> (Some x, a\<lparr>dropped := dropped a @ [fd]\<rparr>)
                | Inr c \<Rightarrow>
                    if pool_stopped e then
                      (Some (Runtime_error ''enqueue on stopped ThreadPool''), a\<lparr>dropped := dropped a @ [fd]\<rparr>)
                    else accept_loop es (a\<lparr>pool_tasks := pool_tasks a @ [c]\<rparr>))))"

definition run :: "listen_env \<Rightarrow> accept_event list \<Rightarrow> server \<Rightarrow> exn option \<times> server \<times> accepting" where
  "run env es s =
     (case createListenSocket env s of
        (Some x, s1) \<Rightarrow> (Some x, s1, \<lparr>pool_tasks = [], dropped = []\<rparr>)
      | (None, s1) \<Rightarrow>
          (case accept_loop es \<lparr>pool_tasks = [], dropped = []\<rparr> of
             (x, a) \<Rightarrow> (x, s1\<lparr>running := True\<rparr>, a)))"

subsection \<open>\<open>main\<close>\<close>

datatype outcome = Exit int | Uncaught exn

definition main :: "string list \<Rightarrow> listen_env \<Rightarrow> accept_event list \<Rightarrow> outcome \<times> server option \<times> accepting option" where
  \<comment> \<open>\<open>argv\<close>; how the process ends, the server after its destruction, what it accepted\<close>
  "main argv env es =
     (if length argv \<noteq> 3 then (Exit 1, None, None)
      else
        (case stoi (argv ! 2) of
           Inl x \<Rightarrow> (Uncaught x, None, None)
         | Inr p \<Rightarrow>
             (case run env es (new_server (argv ! 1) (word_of_int p)) of
                (Some x, s, a) \<Rightarrow> (Exit 1, Some (destroy_server s), Some a)
              | (None, s, a) \<Rightarrow> (Exit 0, Some (destroy_server s), Some a))))"

subsection \<open>Properties\<close>

lemma createListenSocket_owns:
  "createListenSocket env s = (x, t) \<Longrightarrow>
     (if socket_ret env < 0 then t = s \<and> x \<noteq> None else t = assign_listen (socket_ret env) s)"
  by (auto simp: createListenSocket_def Let_def split: if_splits)

lemma run_socket:
  assumes "run env es (new_server ip port) = (x, s, a)"
  shows "listen_socket s = (if socket_ret env < 0 then -1 else socket_ret env) \<and> closed s = []"
proof -
  obtain y s1 where c: "createListenSocket env (new_server ip port) = (y, s1)" by fastforce
  note o = createListenSocket_owns[OF c]
  have "listen_socket s1 = (if socket_ret env < 0 then -1 else socket_ret env) \<and> closed s1 = []"
    using o by (auto simp: assign_listen_def new_server_def split: if_splits)
  moreover have "listen_socket s = listen_socket s1 \<and> closed s = closed s1"
    using assms c by (auto simp: run_def split: option.splits prod.splits)
  ultimately show ?thesis by simp
qed

text \<open>
  C30 The listening socket is closed once. However far \<open>main\<close> gets (a call of the set-up
  fails, a client cannot be accepted, a signal arrives), the descriptor that \<open>socket\<close>
  returned is closed exactly once when the server is destroyed, and nothing else is.
\<close>

theorem listening_socket_closed_once:
  "case main argv env es of (out, s, a) \<Rightarrow>
     (case s of None \<Rightarrow> True
      | Some t \<Rightarrow> listen_socket t = -1 \<and> closed t = (if socket_ret env < 0 then [] else [socket_ret env]))"
proof (cases "length argv = 3")
  case True
  show ?thesis
  proof (cases "stoi (argv ! 2)")
    case (Inr p)
    obtain x s a where r: "run env es (new_server (argv ! 1) (word_of_int p)) = (x, s, a)"
      by (metis prod_cases3)
    from run_socket[OF r] have
      "listen_socket (destroy_server s) = -1 \<and> closed (destroy_server s) = (if socket_ret env < 0 then [] else [socket_ret env])"
      by (auto simp: destroy_server_def stop_def assign_listen_def)
    then show ?thesis using True Inr r by (cases x) (simp_all add: main_def)
  qed (use True in \<open>simp add: main_def\<close>)
qed (simp add: main_def)

definition handed_over :: "accept_event \<Rightarrow> bool" where
  \<comment> \<open>the loop goes on behind this event\<close>
  "handed_over e \<longleftrightarrow> is_running e \<and> \<not> terminate_flag e \<and>
     (if accept_ret e < 0 then accept_errno e = EAGAIN
      else client_get e \<noteq> -1 \<and> client_set e \<noteq> -1 \<and> \<not> pool_stopped e)"

lemma accept_loop_append:
  "\<forall>e \<in> set es. handed_over e \<Longrightarrow> accept_loop (es @ fs) a =
     accept_loop fs (a\<lparr>pool_tasks := pool_tasks a @
       map (\<lambda>e. (accept_ret e, peer_address e)) (filter (\<lambda>e. 0 \<le> accept_ret e) es)\<rparr>)"
  by (induction es arbitrary: a) (auto simp: handed_over_def acceptConnection_def new_connection_def setNonBlocking_def)

text \<open>
  C31 Every accepted client has one owner. Over any events that let the loop go on, the
  clients are handed to the pool in the order of their acceptance, each once; a client whose
  connection cannot be made non-blocking, or whom the stopped pool refuses, ends the loop by
  an exception and is closed, and no other client is.
\<close>

theorem accepted_clients_owned:
  assumes "\<forall>e \<in> set es. handed_over e" and "is_running f" and "\<not> terminate_flag f" and "0 \<le> accept_ret f"
    and "\<not> handed_over f"
  shows "\<exists>x t. accept_loop (es @ f # fs) \<lparr>pool_tasks = [], dropped = []\<rparr> = (Some x, t) \<and>
    map fst (pool_tasks t) = map accept_ret (filter (\<lambda>e. 0 \<le> accept_ret e) es) \<and> dropped t = [accept_ret f]"
  using accept_loop_append[OF assms(1), of "f # fs" "\<lparr>pool_tasks = [], dropped = []\<rparr>"] assms(2-)
  by (auto simp: handed_over_def acceptConnection_def new_connection_def setNonBlocking_def comp_def split: option.splits if_splits)

definition sample_client :: "int \<Rightarrow> int \<Rightarrow> accept_event" where
  "sample_client fd flags = \<lparr>is_running = True, terminate_flag = False, accept_ret = fd, accept_errno = EAGAIN,
     peer_text = ''127.0.0.1'', peer_port = 0, client_get = flags, client_set = 0, pool_stopped = False\<rparr>"

theorem accepted_clients_owned_witness:
  "\<exists>x t. accept_loop ([sample_client 7 0, sample_client (-1) 0, sample_client 8 0] @ sample_client 9 (-1) # [])
      \<lparr>pool_tasks = [], dropped = []\<rparr> = (Some x, t) \<and> map fst (pool_tasks t) = [7, 8] \<and> dropped t = [9]"
  using accepted_clients_owned[of "[sample_client 7 0, sample_client (-1) 0, sample_client 8 0]" "sample_client 9 (-1)" "[]"]
  by (simp add: handed_over_def sample_client_def)

lemma of_char_digit: "d < 10 \<Longrightarrow> of_char (char_of (48 + d) :: char) = 48 + (d :: nat)"
  by (simp add: of_char_of)

lemma to_string_digits:
  "to_string n \<noteq> [] \<and> (\<forall>c \<in> set (to_string n). is_digit c) \<and> decimal (to_string n) = int n"
proof (induction n rule: to_string.induct)
  case (1 n)
  show ?case
  proof (cases "n < 10")
    case True
    then show ?thesis
      by (subst (1 2 3) to_string.simps) (simp add: is_digit_def decimal_def of_char_digit)
  next
    case False
    have d: "n mod 10 < 10" by simp
    have "to_string n = to_string (n div 10) @ [char_of (48 + n mod 10)]"
      using False by (subst to_string.simps) simp
    moreover have "is_digit (char_of (48 + n mod 10))" using of_char_digit[OF d] d unfolding is_digit_def by simp
    moreover have "decimal (to_string (n div 10) @ [char_of (48 + n mod 10)]) = int n"
    proof -
      have "10 * int (n div 10) + int (n mod 10) = int n" by (simp add: zdiv_int zmod_int)
      then show ?thesis using 1[OF False] of_char_digit[OF d] by (simp add: decimal_def)
    qed
    ultimately show ?thesis using 1[OF False] by simp
  qed
qed

lemma stoi_to_string:
  assumes "n \<le> 2147483647"
  shows "stoi (to_string n) = Inr (int n)"
proof -
  note d = to_string_digits[of n]
  obtain c cs where s: "to_string n = c # cs" using d by (cases "to_string n") auto
  then have c: "is_digit c" using d by simp
  then have "\<not> is_space c" "c \<noteq> CHR ''-''" "c \<noteq> CHR ''+''" by (auto simp: is_digit_def is_space_def)
  then have "dropWhile is_space (to_string n) = to_string n" by (simp add: s)
  moreover have "\<forall>x \<in> set cs. is_digit x" using d s by simp
  note cs = takeWhile_eq_all_conv[THEN iffD2, OF this]
  ultimately show ?thesis
    using \<open>c \<noteq> CHR ''-''\<close> \<open>c \<noteq> CHR ''+''\<close> d assms c by (simp add: stoi_def Let_def s cs)
qed

text \<open>
  The port of the command line. \<open>main\<close> binds the port whose decimal digits it was given,
  in network order, for every port number; a larger number that fits an \<open>int\<close> is not
  rejected but binds the port modulo \<open>65536\<close>.
\<close>

theorem main_binds_given_port:
  assumes "n \<le> 2147483647"
  shows "\<exists>port. main [prog, ip, to_string n] env es =
      (case run env es (new_server ip port) of
         (Some x, s, a) \<Rightarrow> (Exit 1, Some (destroy_server s), Some a)
       | (None, s, a) \<Rightarrow> (Exit 0, Some (destroy_server s), Some a)) \<and>
    unat (ntohs (htons port)) = n mod 65536"
proof -
  have "unat (word_of_int (int n) :: 16 word) = n mod 65536"
    by (simp add: unat_of_nat)
  moreover have "main [prog, ip, to_string n] env es =
      (case run env es (new_server ip (word_of_int (int n))) of
         (Some x, s, a) \<Rightarrow> (Exit 1, Some (destroy_server s), Some a)
       | (None, s, a) \<Rightarrow> (Exit 0, Some (destroy_server s), Some a))"
    using stoi_to_string[OF assms] by (simp add: main_def)
  ultimately show ?thesis by (intro exI[of _ "word_of_int (int n)"]) simp
qed

theorem main_binds_given_port_witness:
  "\<forall>env es. \<exists>port. main [''server'', ''127.0.0.1'', to_string 65616] env es =
      (case run env es (new_server ''127.0.0.1'' port) of
         (Some x, s, a) \<Rightarrow> (Exit 1, Some (destroy_server s), Some a)
       | (None, s, a) \<Rightarrow> (Exit 0, Some (destroy_server s), Some a)) \<and>
    unat (ntohs (htons port)) = 80"
  using main_binds_given_port[of 65616 "''server''" "''127.0.0.1''"] by simp

end
