(* ===== verification/Timer_Equivalence.thy ===== *)
theory Timer_Equivalence
  imports Sort_Timer_List Time_Wheel "HOL-Library.Multiset"
begin

section \<open>The list and the wheel agree\<close>

text \<open>
  The two timer containers do the same work: one keeps times of expiry in ascending order,
  the other counts ticks down in sixty slots. A history of timers that are started, cancelled
  and ticked once per second is run on both. A timer of \<open>t\<close> seconds is added to the wheel with
  the timeout \<open>t\<close> and to the list with the expiry \<open>c + max 1 t\<close>, where \<open>c\<close> is the time of the
  next tick; then both fire the same timers in the same tick.
\<close>

datatype alarm_op = Start addr int nat "nat option" | Cancel addr | Second

fun wheel_op :: "alarm_op \<Rightarrow> tw_op" where
  "wheel_op (Start a t f d) = TW_Add a t f d"
| "wheel_op (Cancel a) = TW_Del a"
| "wheel_op Second = TW_Tick"

fun list_ops :: "int \<Rightarrow> alarm_op list \<Rightarrow> tl_op list" where
  \<comment> \<open>a negative timeout, which the wheel refuses, is not added; each tick is a second later\<close>
  "list_ops c [] = []"
| "list_ops c (Start a t f d # os) =
     (if t < 0 then list_ops c os else Add a (c + max 1 t) (Some f) d # list_ops c os)"
| "list_ops c (Cancel a # os) = Remove a # list_ops c os"
| "list_ops c (Second # os) = Expire c # list_ops (c + 1) os"

definition same_timers :: "int \<Rightarrow> timer_view list \<Rightarrow> wheel_view \<Rightarrow> bool" where
  \<comment> \<open>what is left to count down is the distance of the expiry from the next tick\<close>
  "same_timers c vs v \<longleftrightarrow> distinct (map t_id vs) \<and> (\<forall>u \<in> set vs. c \<le> t_expire u) \<and>
     (\<forall>a k cb d. v a = Some (k, cb, d) \<longleftrightarrow> Timer a (c + k) cb d \<in> set vs)"

lemma same_timersD:
  assumes "same_timers c vs v"
  shows "distinct (map t_id vs)" and "u \<in> set vs \<Longrightarrow> c \<le> t_expire u"
    and "v a = Some (k, cb, d) \<longleftrightarrow> Timer a (c + k) cb d \<in> set vs"
  using assms unfolding same_timers_def by blast+

lemma same_ids:
  assumes "same_timers c vs v"
  shows "dom v = t_id ` set vs"
proof (intro set_eqI iffI)
  fix a assume "a \<in> dom v"
  then show "a \<in> t_id ` set vs" using same_timersD(3)[OF assms] by (force simp: image_iff)
next
  fix a assume "a \<in> t_id ` set vs"
  then obtain e cb d where "Timer a (c + (e - c)) cb d \<in> set vs" by (auto simp: image_iff) (metis timer_view.collapse)
  then have "v a = Some (e - c, cb, d)" by (rule same_timersD(3)[OF assms, THEN iffD2])
  then show "a \<in> dom v" by blast
qed

lemma same_size: "same_timers c vs v \<Longrightarrow> card (dom v) = length vs"
  using same_ids[of c vs v] same_timersD(1)[of c vs v] by (metis distinct_card length_map set_map)

lemma distinct_insert_timer:
  "distinct (map t_id (insert_timer u us)) \<longleftrightarrow> t_id u \<notin> t_id ` set us \<and> distinct (map t_id us)"
  by (induction us) auto

lemma same_add:
  assumes same: "same_timers c vs v" and new: "v a = None"
  shows "same_timers c (insert_timer (Timer a (c + max 1 t) (Some f) d) vs) (v(a \<mapsto> (max 1 t, Some f, d)))"
proof -
  have "a \<notin> t_id ` set vs" using new same_ids[OF same] by (metis domIff)
  moreover from this have "Timer a e cb x \<notin> set vs" for e cb x by force
  ultimately show ?thesis
    using same unfolding same_timers_def by (auto simp: distinct_insert_timer)
qed

lemma same_remove:
  assumes "same_timers c vs v"
  shows "same_timers c (filter (\<lambda>u. t_id u \<noteq> a) vs) (v(a := None))"
  using assms unfolding same_timers_def by (auto simp: distinct_map_filter)

lemma same_tick:
  assumes "same_timers c vs v"
  shows "same_timers (c + 1) (filter (\<lambda>u. c < t_expire u) vs) (tw_spec TW_Tick v)"
  unfolding same_timers_def
proof (intro conjI allI)
  show "distinct (map t_id (filter (\<lambda>u. c < t_expire u) vs))"
    using same_timersD(1)[OF assms] by (simp add: distinct_map_filter)
  show "\<forall>u \<in> set (filter (\<lambda>u. c < t_expire u) vs). c + 1 \<le> t_expire u" by auto
  fix a k cb d
  have "tw_spec TW_Tick v a = Some (k, cb, d) \<longleftrightarrow> v a = Some (k + 1, cb, d) \<and> k + 1 \<noteq> 0"
    by (cases "v a") (auto simp: countdown_def split: prod.split)
  also have "\<dots> \<longleftrightarrow> Timer a (c + 1 + k) cb d \<in> set (filter (\<lambda>u. c < t_expire u) vs)"
  proof -
    have next_tick: "c + (k + 1) = c + 1 + k" by simp
    have "v a = Some (k + 1, cb, d) \<longleftrightarrow> Timer a (c + 1 + k) cb d \<in> set vs"
      using same_timersD(3)[OF assms, of a "k + 1" cb d] unfolding next_tick .
    moreover have "Timer a (c + 1 + k) cb d \<in> set vs \<Longrightarrow> 0 \<le> k + 1"
      using same_timersD(2)[OF assms, of "Timer a (c + 1 + k) cb d"] by simp
    ultimately show ?thesis by auto
  qed
  finally show "tw_spec TW_Tick v a = Some (k, cb, d) \<longleftrightarrow> Timer a (c + 1 + k) cb d \<in> set (filter (\<lambda>u. c < t_expire u) vs)" .
qed

lemma wheel_log_entry:
  assumes "tw_rel N (s, w) v" and "v a = Some (k, cb, d)"
  shows "log_entry (tw_mem s) a = (the cb, d)"
proof -
  have "tw_view s a = Some (k, cb, d)" using assms by (simp add: tw_rel_def)
  then show ?thesis
    by (cases "tw_mem s a") (auto simp: tw_view_def core_def core_view_def log_entry_def)
qed

text \<open>One tick calls the same callbacks with the same clients.\<close>

lemma tick_logs:
  assumes same: "same_timers c vs v" and list: "tl_rel N (s, log) vs" and wheel: "tw_rel N (x, lox) v"
  shows "\<exists>t l y k. tl_exec N log_call (Expire c) (s, log) = Inr (t, log @ l) \<and> tw_exec N log_call TW_Tick (x, lox) = Inr (y, lox @ k) \<and>
    mset l = mset k \<and> tl_rel N (t, log @ l) (filter (\<lambda>u. c < t_expire u) vs) \<and> tw_rel N (y, lox @ k) (tw_spec TW_Tick v)"
proof -
  let ?due = "filter (\<lambda>u. t_expire u \<le> c) vs" and ?called = "\<lambda>u. (the (t_call u), t_data u)"
  obtain t where t: "tick (Suc N) log_call c s log = Inr (t, log @ map ?called ?due)"
    "tl_rel N (t, log @ map ?called ?due) (filter (\<lambda>u. c < t_expire u) vs)"
    using expire_calls[OF list log_call_all] by blast
  obtain y as where y: "tw_tick (Suc N) log_call x lox = Inr (y, lox @ map (log_entry (tw_mem x)) as)"
    and as: "distinct as" "set as = {a. \<exists>cb d. v a = Some (0, cb, d)}"
    and rel: "tw_rel N (y, lox @ map (log_entry (tw_mem x)) as) (tw_spec TW_Tick v)"
    using tw_tick_correct[OF wheel] by blast
  have at_c: "u \<in> set ?due \<longleftrightarrow> u \<in> set vs \<and> t_expire u = c" for u
    using same_timersD(2)[OF same, of u] by auto
  have due: "v (t_id u) = Some (0, t_call u, t_data u)" if "u \<in> set ?due" for u
    using at_c[THEN iffD1, OF that] same_timersD(3)[OF same, of "t_id u" 0 "t_call u" "t_data u"] by (cases u) simp
  have "set as = t_id ` set ?due"
  proof (intro set_eqI iffI)
    fix a assume "a \<in> set as"
    then obtain cb d where "Timer a c cb d \<in> set vs" using as(2) same_timersD(3)[OF same, of a 0] by auto
    then show "a \<in> t_id ` set ?due" by force
  next
    fix a assume "a \<in> t_id ` set ?due"
    then show "a \<in> set as" using as(2) due by blast
  qed
  moreover have "distinct (map t_id ?due)" using same_timersD(1)[OF same] by (simp add: distinct_map_filter)
  ultimately have "mset as = mset (map t_id ?due)" using as(1) by (metis set_eq_iff_mset_eq_distinct set_map)
  then have "mset (map (log_entry (tw_mem x)) as) = mset (map (log_entry (tw_mem x)) (map t_id ?due))"
    by (simp only: mset_map)
  also have "map (log_entry (tw_mem x)) (map t_id ?due) = map ?called ?due"
    unfolding map_map comp_def by (rule map_key_cong) (rule wheel_log_entry[OF wheel due])
  finally show ?thesis using t y rel
    by (intro exI[of _ t] exI[of _ "map ?called ?due"] exI[of _ y] exI[of _ "map (log_entry (tw_mem x)) as"]) simp
qed

definition alike :: "nat \<Rightarrow> int \<Rightarrow> wheel_view \<Rightarrow> sort_timer_list \<times> call_log \<Rightarrow> time_wheel \<times> call_log \<Rightarrow> bool" where
  "alike N c v sw xw \<longleftrightarrow> tw_rel N xw v \<and> mset (snd sw) = mset (snd xw) \<and> (\<exists>vs. same_timers c vs v \<and> tl_rel N sw vs)"

lemma alikeI:
  "same_timers c vs v \<Longrightarrow> tl_rel N (s, l) vs \<Longrightarrow> tw_rel N (x, k) v \<Longrightarrow> mset l = mset k \<Longrightarrow> alike N c v (s, l) (x, k)"
  by (auto simp: alike_def)

lemma alikeE:
  assumes "alike N c v sw xw"
  obtains s l x k vs where "sw = (s, l)" "xw = (x, k)" "same_timers c vs v" "tl_rel N (s, l) vs" "tw_rel N (x, k) v" "mset l = mset k"
  using assms unfolding alike_def by (cases sw; cases xw) auto

lemma wheel_add_log:
  assumes "tw_rel N (x, k) v" and "tw_legal N (TW_Add a t f d) v"
  shows "\<exists>y. tw_exec N log_call (TW_Add a t f d) (x, k) = Inr (y, k) \<and> tw_rel N (y, k) (tw_spec (TW_Add a t f d) v)"
proof -
  obtain y m where y: "tw_exec N log_call (TW_Add a t f d) (x, k) = Inr (y, m)" "tw_rel N (y, m) (tw_spec (TW_Add a t f d) v)"
    using tw_sim[OF assms] by (metis surj_pair)
  then have "m = k" by (auto split: prod.splits if_splits)
  with y show ?thesis by blast
qed

lemma alike_start:
  assumes "alike N c v sw xw" and "tw_legal N (TW_Add a t f d) v" and "0 \<le> t"
  shows "\<exists>sw' xw'. tl_exec N log_call (Add a (c + max 1 t) (Some f) d) sw = Inr sw' \<and>
    tw_exec N log_call (TW_Add a t f d) xw = Inr xw' \<and> alike N c (tw_spec (TW_Add a t f d) v) sw' xw'"
  using assms(1)
proof (rule alikeE)
  fix s l x k vs
  assume st: "sw = (s, l)" "xw = (x, k)" and rel: "same_timers c vs v" "tl_rel N (s, l) vs" "tw_rel N (x, k) v" "mset l = mset k"
  let ?o = "Add a (c + max 1 t) (Some f) d"
  obtain y where y: "tw_exec N log_call (TW_Add a t f d) (x, k) = Inr (y, k)" "tw_rel N (y, k) (tw_spec (TW_Add a t f d) v)"
    using wheel_add_log[OF rel(3) assms(2)] by blast
  have "tl_legal N ?o vs" using assms(2) same_size[OF rel(1)] same_ids[OF rel(1)] by auto
  then obtain r m where r: "tl_exec N log_call ?o (s, l) = Inr (r, m)" "tl_rel N (r, m) (tl_spec ?o vs)"
    using tl.sim[OF rel(2)] by (metis surj_pair)
  have "m = l" using r(1) by auto
  moreover have "same_timers c (tl_spec ?o vs) (tw_spec (TW_Add a t f d) v)"
    using same_add[OF rel(1), of a t f d] assms(2,3) by simp
  ultimately have "alike N c (tw_spec (TW_Add a t f d) v) (r, l) (y, k)" using r(2) y(2) rel(4) by (blast intro: alikeI)
  then show ?thesis using r(1) y(1) \<open>m = l\<close> unfolding st by blast
qed

lemma alike_refused:
  assumes "alike N c v sw xw" and "tw_legal N (TW_Add a t f d) v" and "t < 0"
  shows "\<exists>xw'. tw_exec N log_call (TW_Add a t f d) xw = Inr xw' \<and> alike N c v sw xw'"
  using assms(1)
proof (rule alikeE)
  fix s l x k vs
  assume st: "sw = (s, l)" "xw = (x, k)" and rel: "same_timers c vs v" "tl_rel N (s, l) vs" "tw_rel N (x, k) v" "mset l = mset k"
  obtain y where y: "tw_exec N log_call (TW_Add a t f d) (x, k) = Inr (y, k)" "tw_rel N (y, k) (tw_spec (TW_Add a t f d) v)"
    using wheel_add_log[OF rel(3) assms(2)] by blast
  then have "alike N c v (s, l) (y, k)" using rel assms(3) by (intro alikeI) simp_all
  then show ?thesis using y(1) unfolding st by blast
qed

lemma alike_cancel:
  assumes "alike N c v sw xw" and "tw_legal N (TW_Del a) v"
  shows "\<exists>sw' xw'. tl_exec N log_call (Remove a) sw = Inr sw' \<and> tw_exec N log_call (TW_Del a) xw = Inr xw' \<and>
    alike N c (tw_spec (TW_Del a) v) sw' xw'"
  using assms(1)
proof (rule alikeE)
  fix s l x k vs
  assume st: "sw = (s, l)" "xw = (x, k)" and rel: "same_timers c vs v" "tl_rel N (s, l) vs" "tw_rel N (x, k) v" "mset l = mset k"
  obtain y m where y: "tw_exec N log_call (TW_Del a) (x, k) = Inr (y, m)" "tw_rel N (y, m) (tw_spec (TW_Del a) v)"
    using tw_sim[OF rel(3) assms(2)] by (metis surj_pair)
  have "tl_legal N (Remove a) vs" using assms(2) same_ids[OF rel(1)] by auto
  then obtain r n where r: "tl_exec N log_call (Remove a) (s, l) = Inr (r, n)" "tl_rel N (r, n) (tl_spec (Remove a) vs)"
    using tl.sim[OF rel(2)] by (metis surj_pair)
  have "m = k" "n = l" using y(1) r(1) by auto
  moreover have "same_timers c (tl_spec (Remove a) vs) (tw_spec (TW_Del a) v)" using same_remove[OF rel(1)] by simp
  ultimately have "alike N c (tw_spec (TW_Del a) v) (r, n) (y, m)" using r(2) y(2) rel(4) by (blast intro: alikeI)
  then show ?thesis using r(1) y(1) unfolding st by blast
qed

lemma alike_second:
  assumes "alike N c v sw xw"
  shows "\<exists>sw' xw'. tl_exec N log_call (Expire c) sw = Inr sw' \<and> tw_exec N log_call TW_Tick xw = Inr xw' \<and>
    alike N (c + 1) (tw_spec TW_Tick v) sw' xw'"
  using assms
proof (rule alikeE)
  fix s l x k vs
  assume st: "sw = (s, l)" "xw = (x, k)" and rel: "same_timers c vs v" "tl_rel N (s, l) vs" "tw_rel N (x, k) v" "mset l = mset k"
  obtain t m y n where run: "tl_exec N log_call (Expire c) (s, l) = Inr (t, l @ m)" "tw_exec N log_call TW_Tick (x, k) = Inr (y, k @ n)"
    and "mset m = mset n" "tl_rel N (t, l @ m) (filter (\<lambda>u. c < t_expire u) vs)" "tw_rel N (y, k @ n) (tw_spec TW_Tick v)"
    using tick_logs[OF rel(1-3)] by blast
  then have "alike N (c + 1) (tw_spec TW_Tick v) (t, l @ m) (y, k @ n)"
    using rel(4) by (intro alikeI[OF same_tick[OF rel(1)]]) simp_all
  then show ?thesis using run unfolding st by blast
qed

lemma run_alike:
  assumes "alike N c v sw xw" and "tw_history N (map wheel_op os) v"
  shows "\<exists>sw' xw' e. run_events (tl_exec N log_call) (list_ops c os) sw = Inr sw' \<and>
    run_events (tw_exec N log_call) (map wheel_op os) xw = Inr xw' \<and> alike N e (fold tw_spec (map wheel_op os) v) sw' xw'"
  using assms
proof (induction os arbitrary: c v sw xw)
  case (Cons p os)
  note legal = Cons.prems(2)
  show ?case
  proof (cases p)
    case (Start a t f d)
    show ?thesis
    proof (cases "t < 0")
      case True
      from alike_refused[OF Cons.prems(1), of a t f d] legal True Start obtain y
        where y: "tw_exec N log_call (TW_Add a t f d) xw = Inr y" "alike N c v sw y" by (auto simp del: tw_exec.simps)
      show ?thesis using Cons.IH[OF y(2)] y(1) legal True Start by (simp del: tw_exec.simps)
    next
      case False
      then obtain r y where r: "tl_exec N log_call (Add a (c + max 1 t) (Some f) d) sw = Inr r" "tw_exec N log_call (TW_Add a t f d) xw = Inr y"
        "alike N c (tw_spec (TW_Add a t f d) v) r y"
        using alike_start[OF Cons.prems(1), of a t f d] legal Start by (auto simp del: tw_exec.simps tl_exec.simps tw_spec.simps)
      show ?thesis using Cons.IH[OF r(3)] r(1,2) legal False Start by (simp del: tw_exec.simps tl_exec.simps fun_upd_apply)
    qed
  next
    case (Cancel a)
    then obtain r y where r: "tl_exec N log_call (Remove a) sw = Inr r" "tw_exec N log_call (TW_Del a) xw = Inr y"
      "alike N c (tw_spec (TW_Del a) v) r y"
      using alike_cancel[OF Cons.prems(1), of a] legal by (auto simp del: tw_exec.simps tl_exec.simps tw_spec.simps)
    show ?thesis using Cons.IH[OF r(3)] r(1,2) legal Cancel by (simp del: tw_exec.simps tl_exec.simps fun_upd_apply)
  next
    case Second
    obtain r y where r: "tl_exec N log_call (Expire c) sw = Inr r" "tw_exec N log_call TW_Tick xw = Inr y"
      "alike N (c + 1) (tw_spec TW_Tick v) r y"
      using alike_second[OF Cons.prems(1)] by blast
    show ?thesis using Cons.IH[OF r(3)] r(1,2) legal Second by (simp del: tw_exec.simps tl_exec.simps)
  qed
qed auto

text \<open>
  C7 The list and the wheel fire alike. Take any history of starting timers (any timeout), of
  cancelling them and of one tick per second, with at most \<open>N\<close> timers at a time, and run it on
  an empty \<open>Sort_timer_list\<close> and on a new \<open>time_wheel\<close>. Both runs are free of faults, call the
  same callbacks with the same clients equally often (so, taking the histories up to each tick,
  in the same tick), and end with the same timers.
\<close>

theorem list_and_wheel_fire_alike:
  assumes "tw_history N (map wheel_op os) Map.empty"
  shows "\<exists>t l y k. run_events (tl_exec N log_call) (list_ops c os) (Sort_timer_list Map.empty, []) = Inr (t, l) \<and>
    run_events (tw_exec N log_call) (map wheel_op os) (new_time_wheel Map.empty, []) = Inr (y, k) \<and>
    mset l = mset k \<and> dom (mem t) = dom (tw_mem y)"
proof -
  have "alike N c Map.empty (Sort_timer_list Map.empty, []) (new_time_wheel Map.empty, [])"
    by (rule alikeI[OF _ tl_rel_empty tw_rel_empty]) (simp_all add: same_timers_def)
  from run_alike[OF this assms] obtain t l y k e
    where runs: "run_events (tl_exec N log_call) (list_ops c os) (Sort_timer_list Map.empty, []) = Inr (t, l)"
      "run_events (tw_exec N log_call) (map wheel_op os) (new_time_wheel Map.empty, []) = Inr (y, k)"
    and "alike N e (fold tw_spec (map wheel_op os) Map.empty) (t, l) (y, k)"
    by (metis surj_pair)
  from this(3) show ?thesis
  proof (rule alikeE)
    fix s' l' x' k' vs
    assume "(t, l) = (s', l')" "(y, k) = (x', k')" and same: "same_timers e vs (fold tw_spec (map wheel_op os) Map.empty)"
      and rels: "tl_rel N (s', l') vs" "tw_rel N (x', k') (fold tw_spec (map wheel_op os) Map.empty)" and "mset l' = mset k'"
    moreover have "dom (mem s') = dom (tw_mem x')"
      using tl.live_rel[OF rels(1)] tw_rel_dom[OF rels(2)] same_ids[OF same] by simp
    ultimately show ?thesis using runs by auto
  qed
qed

theorem list_and_wheel_fire_alike_witness:
  "\<exists>t l y k. run_events (tl_exec 2 log_call) [Add 1 102 (Some 7) (Some 5), Expire 100, Remove 1, Expire 101]
      (Sort_timer_list Map.empty, []) = Inr (t, l) \<and>
    run_events (tw_exec 2 log_call) [TW_Add 1 2 7 (Some 5), TW_Add 2 (- 1) 7 None, TW_Tick, TW_Del 1, TW_Tick]
      (new_time_wheel Map.empty, []) = Inr (y, k) \<and> mset l = mset k"
  using list_and_wheel_fire_alike[of 2 "[Start 1 2 7 (Some 5), Start 2 (- 1) 7 None, Second, Cancel 1, Second]" 100]
  by (simp add: countdown_def del: tw_exec.simps tl_exec.simps) blast

end
