(* ===== verification/Pool_Main.thy ===== *)
theory Pool_Main
  imports Process_Pool Tcp_Listen
begin

section \<open>The program of the process pool (\<open>main.cpp\<close>)\<close>

text \<open>
  \<open>main\<close> makes the listening socket, creates the pool with its eight children and runs it.
  Parent and children go through the same code: which one a run of \<open>pool_main\<close> is follows
  from what \<open>fork\<close> returned to it.
\<close>

record pool_env =
  socket_ret :: int
  bind_ret :: "string \<Rightarrow> 16 word \<Rightarrow> int"
  listen_ret :: int
  fork_rets :: "fork_env list"
  sigs :: sig_env
  waits :: "pool_wait list"

definition pool_main :: "(int \<Rightarrow> int \<Rightarrow> nat \<Rightarrow> 't \<Rightarrow> 't) \<Rightarrow> ('t \<Rightarrow> 't) \<Rightarrow> 't \<Rightarrow> string list \<Rightarrow> pool_env
    \<Rightarrow> (int \<times> processpool option) option res" where
  \<comment> \<open>the exit status and the pool of this process; \<open>None\<close>: it still waits\<close>
  "pool_main init_t process_t t0 argv env =
     (if length argv \<le> 2 then Inr (Some (1, None))
      else
        let ip = argv ! 1; port = atoi (argv ! 2); listenfd = socket_ret env in
        if listenfd < 0 then Inl Assert_failed
        else if bind_ret env ip (htons (word_of_int port)) = -1 then Inl Assert_failed
        else if listen_ret env = -1 then Inl Assert_failed
        else
          rbind (create None listenfd 8 (fork_rets env)) (\<lambda>pool.
          rbind (Process_Pool.run init_t process_t (sigs env) t0 (waits env) pool) (\<lambda>r.
            Inr (map_option (\<lambda>p. (0, Some (call (Close_fd listenfd) (destroy_pool p)))) r))))"

text \<open>
  C14 The server serves nobody. When every system call of \<open>main\<close> succeeds and \<open>fork\<close> has made
  eight children, the parent either keeps waiting or exits with \<open>0\<close>, and then its system
  calls were those of its set-up and the \<open>close\<close> of its descriptors: it has told no child to
  accept a connection and has ended none, whatever \<open>epoll_wait\<close> reported, and the table of
  its children is freed while they run.
\<close>

theorem pool_server_serves_nobody:
  assumes "2 < length argv" and "0 \<le> socket_ret env" and "\<forall>ip port. bind_ret env ip port = 0" and "listen_ret env = 0"
    and "length (fork_rets env) = 8" and "\<forall>e \<in> set (fork_rets env). pair_ret e = 0 \<and> 0 < fork_ret e"
    and "sig_ok (sigs env)"
  shows "pool_main init_t process_t t0 argv env = Inr None \<or>
    (\<exists>p. pool_main init_t process_t t0 argv env = Inr (Some (0, Some p)) \<and>
      m_sub_process p = [] \<and>
      calls p = map (\<lambda>e. Close_fd (pair_child e)) (fork_rets env) @ setup_calls (sigs env) @
        [Epoll_add (sig_epollfd (sigs env)) (socket_ret env), Nonblocking (socket_ret env),
         Close_fd (sig_epollfd (sigs env)), Close_fd (socket_ret env)])"
proof -
  define pool where "pool = \<lparr>m_process_number = 8, m_idx = -1, m_epollfd = 0, m_listenfd = socket_ret env, m_stop = False,
    m_sub_process = map (\<lambda>e. \<lparr>m_pid = fork_ret e, pipe_parent = pair_parent e, pipe_child = pair_child e\<rparr>) (fork_rets env),
    calls = map (\<lambda>e. Close_fd (pair_child e)) (fork_rets env)\<rparr>"
  have create: "create None (socket_ret env) 8 (fork_rets env) = Inr pool"
    using fork_children_parent[OF assms(6), of 0 _ "[]"] assms(5)
    by (simp add: create_def new_processpool_def MAX_PROCESS_NUMBER_def pool_def)
  have "Process_Pool.run init_t process_t (sigs env) t0 (waits env) pool = run_parent (sigs env) (waits env) pool"
    by (simp add: Process_Pool.run_def pool_def)
  then have main: "pool_main init_t process_t t0 argv env =
      rbind (run_parent (sigs env) (waits env) pool) (\<lambda>r.
        Inr (map_option (\<lambda>p. (0, Some (call (Close_fd (socket_ret env)) (destroy_pool p)))) r))"
    using assms(1-4) create by (simp add: pool_main_def Let_def)
  show ?thesis
  proof (cases "parent_wait (waits env) False []")
    case None
    then have "run_parent (sigs env) (waits env) pool = Inr None"
      using assms(7) by (simp add: run_parent_def setup_correct addfd_def call_def pool_def)
    then show ?thesis by (simp add: main)
  next
    case (Some es)
    then have "es = []" by (rule parent_wait_sees_nothing)
    then show ?thesis using Some assms(7)
      by (simp add: main run_parent_def setup_correct addfd_def call_def pool_def comp_def destroy_pool_def)
  qed
qed

definition sample_pool_env :: "pool_wait list \<Rightarrow> pool_env" where
  "sample_pool_env ws = \<lparr>socket_ret = 3, bind_ret = \<lambda>_ _. 0, listen_ret = 0,
     fork_rets = map (\<lambda>i. sample_fork (4 + 2 * i) (100 + i)) [0, 1, 2, 3, 4, 5, 6, 7], sigs = sample_sig, waits = ws\<rparr>"

theorem pool_server_serves_nobody_witness:
  "\<forall>ws. pool_main (\<lambda>ep fd a t. t) (\<lambda>t. t) () [''server'', ''127.0.0.1'', ''80''] (sample_pool_env ws) = Inr None \<or>
    (\<exists>p. pool_main (\<lambda>ep fd a t. t) (\<lambda>t. t) () [''server'', ''127.0.0.1'', ''80''] (sample_pool_env ws) = Inr (Some (0, Some p)) \<and>
      (\<forall>fd. Send_new_conn fd \<notin> set (calls p)) \<and> (\<forall>pid. Kill pid SIGTERM \<notin> set (calls p)))" (is "\<forall>ws. ?P ws")
proof (intro allI)
  fix ws
  have "sig_ok sample_sig" by (simp add: sig_ok_def sample_sig_def)
  then show "?P ws"
    using pool_server_serves_nobody[of "[''server'', ''127.0.0.1'', ''80'']" "sample_pool_env ws" "\<lambda>ep fd a t. t" "\<lambda>t. t" "()"]
    by (auto simp: sample_pool_env_def sample_fork_def setup_calls_def)
qed

end
