(* ===== verification/Pool_Signals.thy ===== *)
theory Pool_Signals
  imports Process_Pool
begin

section \<open>From a signal to the loop of a process (\<open>sig_handler\<close> of \<open>cpt_15_3.h\<close>)\<close>

text \<open>
  A signal reaches a process of the pool in two steps: \<open>sig_handler\<close> writes its number as one
  byte into the socket pair that \<open>setup_sig_pipe\<close> made, and the loop reads the bytes when
  \<open>epoll\<close> reports the other end. The state of the handler is \<open>errno\<close> of the interrupted
  thread and the unread bytes.
\<close>

record sig_world =
  errno :: int
  sig_bytes :: "nat list"

definition send_byte :: "int option \<Rightarrow> nat \<Rightarrow> sig_world \<Rightarrow> sig_world" where
  \<comment> \<open>\<open>send\<close> of one byte, which fails with an error number or takes it\<close>
  "send_byte failure b w =
     (case failure of Some e \<Rightarrow> w\<lparr>errno := e\<rparr> | None \<Rightarrow> w\<lparr>sig_bytes := sig_bytes w @ [b]\<rparr>)"

definition sig_handler :: "int option \<Rightarrow> nat \<Rightarrow> sig_world \<Rightarrow> sig_world" where
  \<comment> \<open>the first byte of the \<open>int\<close> on a little-endian machine\<close>
  "sig_handler failure sig w =
     (let save_errno = errno w; msg = sig; w1 = send_byte failure (msg mod 256) w in w1\<lparr>errno := save_errno\<rparr>)"

definition handlers :: "(int option \<times> nat) list \<Rightarrow> sig_world \<Rightarrow> sig_world" where
  \<comment> \<open>one handler after the other, each with what its \<open>send\<close> meets\<close>
  "handlers sigs w = fold (\<lambda>(failure, sig). sig_handler failure sig) sigs w"

definition delivered :: "(int option \<times> nat) list \<Rightarrow> nat list" where
  "delivered sigs = map snd (filter (\<lambda>(failure, sig). failure = None) sigs)"

lemma handlers_fill_pipe:
  "\<forall>(f, s) \<in> set sigs. s < 256 \<Longrightarrow> handlers sigs w = w\<lparr>sig_bytes := sig_bytes w @ delivered sigs\<rparr>"
  by (induction sigs arbitrary: w)
     (auto simp: handlers_def delivered_def sig_handler_def send_byte_def Let_def split: option.split)

lemma child_signals_stop:
  "m_stop (pool (fold child_signal bs c)) \<longleftrightarrow> m_stop (pool c) \<or> SIGTERM \<in> set bs \<or> SIGINT \<in> set bs"
  by (induction bs arbitrary: c) (auto simp: child_signal_def)

definition ends_child :: "sig_env \<Rightarrow> int \<Rightarrow> pool_event \<Rightarrow> bool" where
  \<comment> \<open>an event of the socket pair that brings a signal to terminate\<close>
  "ends_child env pipefd e \<longleftrightarrow> ev_in e \<and> ev_fd e = sig_pipe0 env \<and> ev_fd e \<noteq> pipefd \<and>
     (\<exists>bs. recv_ret e = Recv_data bs \<and> (SIGTERM \<in> set (received 1024 bs) \<or> SIGINT \<in> set (received 1024 bs)))"

lemma handle_stop:
  assumes "child_handle init_t process_t env pipefd e c = Inr d"
  shows "m_stop (pool c) \<or> ends_child env pipefd e \<Longrightarrow> m_stop (pool d)"
  using assms by (auto simp: child_handle_def ends_child_def addfd_def call_def child_signals_stop
      split: if_splits recv_result.splits)

lemma events_stop:
  assumes "run_events (child_handle init_t process_t env pipefd) es c = Inr d"
    and "m_stop (pool c) \<or> (\<exists>e \<in> set es. ends_child env pipefd e)"
  shows "m_stop (pool d)"
  using assms
proof (induction es arbitrary: c)
  case (Cons e es)
  then obtain c1 where c1: "child_handle init_t process_t env pipefd e c = Inr c1"
    "run_events (child_handle init_t process_t env pipefd) es c1 = Inr d" by auto
  with Cons handle_stop[OF c1(1)] show ?case by auto
qed simp

lemma stopped_loop: "m_stop (pool c) \<Longrightarrow> child_loop init_t process_t env pipefd ws c = Inr (Some c)"
proof (cases ws)
  case (Cons v vs)
  then show "m_stop (pool c) \<Longrightarrow> ?thesis" by (cases v) simp_all
qed simp

text \<open>
  C28 A signal ends the child. Let signals arrive while a process runs, some of whose \<open>send\<close>
  fails with an error number; at most 1024 are delivered, \<open>SIGTERM\<close> or \<open>SIGINT\<close> among them, and
  a round of the loop of a child reports the socket pair, among any other events for what is
  registered by then (connections of earlier rounds included), with the descriptors accepted
  below \<open>USER_PER_PROCESS\<close>. The handlers leave \<open>errno\<close> as it was, those that fail included; the
  child handles all events of the round and leaves its loop, whatever it would have waited for
  afterwards.
\<close>

theorem signal_ends_child:
  assumes "SIGTERM \<in> set (delivered sigs) \<or> SIGINT \<in> set (delivered sigs)"
    and "\<forall>(f, s) \<in> set sigs. s < 256" and "length (delivered sigs) \<le> 1024"
    and "handlers sigs \<lparr>errno = err, sig_bytes = []\<rparr> = w"
    and "e \<in> set es" and "ev_in e" and "ev_fd e = sig_pipe0 env" and "sig_pipe0 env \<noteq> pipefd"
    and "recv_ret e = Recv_data (sig_bytes w)"
    and "reported_known env pipefd R es" and "\<forall>i \<in> R. i < USER_PER_PROCESS"
    and "\<forall>f \<in> set es. accepts pipefd f \<longrightarrow> accept_ret f < int USER_PER_PROCESS"
  shows "errno w = err \<and> (\<exists>d. run_events (child_handle init_t process_t env pipefd) es c = Inr d \<and>
    (\<not> m_stop (pool c) \<longrightarrow> child_loop init_t process_t env pipefd (Wait_events es # ws) c = Inr (Some d)))"
proof -
  have w: "errno w = err" "sig_bytes w = delivered sigs" using assms(4) handlers_fill_pipe[OF assms(2)] by auto
  then have ends: "ends_child env pipefd e"
    using assms(1,3,6-9) by (simp add: ends_child_def received_def)
  obtain d where d: "run_events (child_handle init_t process_t env pipefd) es c = Inr d"
    using child_serves_in_range[OF assms(10-12)] by blast
  moreover have "m_stop (pool d)" using events_stop[OF d] ends assms(5) by blast
  then have "child_loop init_t process_t env pipefd ws d = Inr (Some d)" by (rule stopped_loop)
  ultimately show ?thesis using w(1) by simp
qed

definition sample_signal :: "nat list \<Rightarrow> pool_event" where
  "sample_signal bs = \<lparr>ev_fd = sig_pipe0 sample_sig, ev_in = True, recv_ret = Recv_data bs, accept_ret = -1,
     accept_addr = 0, wait_pids = []\<rparr>"

theorem signal_ends_child_witness:
  \<comment> \<open>the \<open>send\<close> of the first \<open>SIGINT\<close> fails with \<open>EAGAIN\<close>; the connection 9 is from an earlier round\<close>
  "handlers [(None, 17), (None, 15), (Some EAGAIN, 2)] \<lparr>errno = 4, sig_bytes = []\<rparr> = \<lparr>errno = 4, sig_bytes = [17, 15]\<rparr> \<and>
   (\<exists>d. child_loop (\<lambda>ep fd a t. t) (\<lambda>t. t) sample_sig 11
      [Wait_events [sample_event 9 (-1), sample_event 11 7, sample_signal [17, 15]], Wait_failed 4]
      \<lparr>pool = three_children, users = \<lambda>_. ()\<rparr> = Inr (Some d))"
proof -
  let ?sigs = "[(None, 17), (None, 15), (Some EAGAIN, 2)] :: (int option \<times> nat) list"
    and ?es = "[sample_event 9 (-1), sample_event 11 7, sample_signal [17, 15]]"
  have w: "handlers ?sigs \<lparr>errno = 4, sig_bytes = []\<rparr> = \<lparr>errno = 4, sig_bytes = [17, 15]\<rparr>"
    by (simp add: handlers_def sig_handler_def send_byte_def)
  have "SIGTERM \<in> set (delivered ?sigs) \<or> SIGINT \<in> set (delivered ?sigs)" "\<forall>(f, s) \<in> set ?sigs. s < 256"
    "length (delivered ?sigs) \<le> 1024"
    by (simp_all add: delivered_def posix_numbers)
  moreover have "reported_known sample_sig 11 {9} ?es"
    "\<forall>f \<in> set ?es. accepts 11 f \<longrightarrow> accept_ret f < int USER_PER_PROCESS"
    by (simp_all add: sample_signal_def sample_event_def accepts_def known_def sample_sig_def USER_PER_PROCESS_def)
  moreover have "sample_signal [17, 15] \<in> set ?es" "ev_in (sample_signal [17, 15])"
    "ev_fd (sample_signal [17, 15]) = sig_pipe0 sample_sig" "sig_pipe0 sample_sig \<noteq> 11"
    "recv_ret (sample_signal [17, 15]) = Recv_data (sig_bytes \<lparr>errno = 4, sig_bytes = [17, 15]\<rparr>)"
    by (simp_all add: sample_signal_def sample_sig_def)
  ultimately have "\<exists>d. run_events (child_handle (\<lambda>ep fd a t. t) (\<lambda>t. t) sample_sig 11) ?es \<lparr>pool = three_children, users = \<lambda>_. ()\<rparr> = Inr d \<and>
     (\<not> m_stop (pool \<lparr>pool = three_children, users = \<lambda>_. ()\<rparr>) \<longrightarrow>
      child_loop (\<lambda>ep fd a t. t) (\<lambda>t. t) sample_sig 11 (Wait_events ?es # [Wait_failed 4]) \<lparr>pool = three_children, users = \<lambda>_. ()\<rparr> = Inr (Some d))"
    using signal_ends_child[where sigs = ?sigs and es = ?es and R = "{9}" and ws = "[Wait_failed 4]" and env = sample_sig and pipefd = 11
      and e = "sample_signal [17, 15]" and init_t = "\<lambda>ep fd a t. t" and process_t = "\<lambda>t. t"
      and c = "\<lparr>pool = three_children, users = \<lambda>_. ()\<rparr>", OF _ _ _ w] by (simp add: USER_PER_PROCESS_def del: child_loop.simps run_events.simps)
  moreover have "\<not> m_stop three_children" by (simp add: three_children_def)
  ultimately show ?thesis using w by (auto simp del: child_loop.simps run_events.simps)
qed

end
