(* ===== verification/Pool_Liveness.thy ===== *)
theory Pool_Liveness
  imports Thread_Pool
begin

section \<open>The thread pool comes to rest\<close>

text \<open>
  The runs of the thread pool in which nobody calls \<open>enqueue\<close> again and no wake-up is
  spurious are finite: a weight on the program points of the threads and on the queue goes
  down with every step, also with those of the destructor. Where such a run cannot go on, the
  pool has done all its work; and if the destructor set its flag while the mutex was free, it
  has returned.
\<close>

subsection \<open>The weight\<close>

fun worker_weight :: "'t worker \<Rightarrow> nat" where
  \<comment> \<open>the steps a worker can still take before it waits or returns, without a new task\<close>
  "worker_weight (W_run t) = 4"
| "worker_weight W_idle = 3"
| "worker_weight W_woken = 3"
| "worker_weight W_test = 2"
| "worker_weight W_sleep = 1"
| "worker_weight W_take = 1"
| "worker_weight W_wait = 0"
| "worker_weight W_done = 0"

fun client_weight :: "'t client \<Rightarrow> nat" where
  \<comment> \<open>its steps, the steps of the worker that runs its task and of the one that it wakes\<close>
  "client_weight (C_want t) = 11"
| "client_weight (C_locked t) = 10"
| "client_weight (C_push t) = 9"
| "client_weight C_notify = 4"
| "client_weight C_idle = 0"

fun owner_weight :: "nat \<Rightarrow> owner \<Rightarrow> nat" where
  \<comment> \<open>the destructor of a pool with \<open>n\<close> workers, all of which it wakes\<close>
  "owner_weight n O_serving = 4 * n + 2"
| "owner_weight n O_stored = 4 * n + 1"
| "owner_weight n (O_joining k) = n - k"

definition pool_weight :: "'t tpool \<Rightarrow> nat" where
  "pool_weight s = (\<Sum>i < n_workers s. worker_weight (workers s i)) + (\<Sum>j < n_clients s. client_weight (clients s j)) +
     4 * length (tasks s) + owner_weight (n_workers s) (owner s)"

fun settling :: "'t label \<Rightarrow> bool" where
  "settling (Spurious i) \<longleftrightarrow> False"
| "settling (Call j x) \<longleftrightarrow> False"
| "settling _ \<longleftrightarrow> True"

lemma internal_settling: "internal l \<Longrightarrow> settling l"
  by (cases l) auto

lemma weight_worker_moves:
  assumes "worker_moves i w s t"
    and "worker_weight w + 4 * length (tasks t) < worker_weight (workers s i) + 4 * length (tasks s)"
  shows "pool_weight t < pool_weight s"
  using assms sum_moves[of i "n_workers s" worker_weight "workers s" w]
  by (simp add: worker_moves_def pool_weight_def)

lemma weight_client_moves:
  assumes "client_moves j c s t"
    and "client_weight c + 4 * length (tasks t) < client_weight (clients s j) + 4 * length (tasks s)"
  shows "pool_weight t < pool_weight s"
  using assms sum_moves[of j "n_clients s" client_weight "clients s" c]
  by (simp add: client_moves_def pool_weight_def)

lemma weight_notify_one:
  assumes "j < n_clients s" and "clients s j = C_notify" and "\<And>i. w = Some i \<Longrightarrow> i < n_workers s \<and> workers s i = W_wait"
  shows "pool_weight (s\<lparr>clients := (clients s)(j := C_idle),
    workers := (case w of None \<Rightarrow> workers s | Some i \<Rightarrow> (workers s)(i := W_woken))\<rparr>) < pool_weight s"
  using sum_moves[of j "n_clients s" client_weight "clients s" C_idle]
    sum_moves[of "the w" "n_workers s" worker_weight "workers s" W_woken] assms
  by (cases w) (simp_all add: pool_weight_def)

lemma weight_notify_all:
  assumes "owner s = O_stored"
  shows "pool_weight (s\<lparr>workers := (\<lambda>i. if workers s i = W_wait then W_woken else workers s i), owner := O_joining 0\<rparr>) < pool_weight s"
proof -
  let ?w = "\<lambda>i. worker_weight (if workers s i = W_wait then W_woken else workers s i)"
  have "?w i \<le> worker_weight (workers s i) + 3" for i by simp
  then have "(\<Sum>i < n_workers s. ?w i) \<le> (\<Sum>i < n_workers s. worker_weight (workers s i) + 3)" by (intro sum_mono)
  then show ?thesis using assms by (simp add: pool_weight_def sum.distrib)
qed

lemma pool_step_weight:
  assumes inv: "reachable n c s" and counts: "settling l" and step: "tp_step l s = Some t"
  shows "pool_weight t < pool_weight s"
  using step mutex_reachable[OF inv]
proof (cases rule: tp_step_elim)
  case (lock i)
  then show ?thesis by (intro weight_worker_moves[OF lock(2)]) auto
next
  case (test i)
  then show ?thesis by (intro weight_worker_moves[OF test(3)]) auto
next
  case (block i)
  then show ?thesis by (intro weight_worker_moves[OF block(3)]) auto
next
  case (spurious i)
  then show ?thesis using counts by simp
next
  case (exit i)
  then show ?thesis by (intro weight_worker_moves[OF exit(3)]) auto
next
  case (broke i)
  then show ?thesis using queue_reachable[OF inv] by (auto simp: queue_inv_def)
next
  case (take i x)
  then show ?thesis by (intro weight_worker_moves[OF take(3)]) auto
next
  case (execute i x)
  then show ?thesis by (intro weight_worker_moves[OF execute(3)]) auto
next
  case (client j d)
  then show ?thesis using counts by (intro weight_client_moves[OF client(1)]) auto
next
  case (push j x)
  then show ?thesis by (intro weight_client_moves[OF push(3)]) auto
next
  case (notify j w)
  then show ?thesis using weight_notify_one[of j s w] by simp
next
  case store
  then show ?thesis by (simp add: pool_weight_def)
next
  case notify_all
  then show ?thesis using weight_notify_all by simp
next
  case (join k)
  then show ?thesis by (simp add: pool_weight_def)
qed

interpretation pool_rest: terminating_system tp_step "reachable n c" settling pool_weight for n c
  by unfold_locales (rule pool_step_weight)

subsection \<open>Where no thread can go on\<close>

lemma at_rest:
  assumes "reachable n c s" and "\<And>l. internal l \<Longrightarrow> tp_step l s = None"
  shows "tasks s = [] \<and> mset (executed s) = mset (accepted s) \<and>
    (\<forall>i < n_workers s. workers s i = W_wait \<or> workers s i = W_done) \<and> (\<forall>j. clients s j = C_idle)"
proof -
  note mutex = mutex_reachable[OF assms(1)]
  have rest: "\<not> goes_on s" using assms(2) by (auto simp: goes_on_def)
  then have workers: "\<forall>i < n_workers s. workers s i = W_wait \<or> workers s i = W_done"
    and clients: "\<forall>j. clients s j = C_idle"
    using awake_worker_goes_on[OF mutex] caller_goes_on[OF mutex] by blast+
  have "tasks s = []" using wake_reachable[OF assms(1)] workers clients by (auto simp: wake_inv_def)
  moreover have "(\<Sum>i < n_workers s. running (workers s i)) = {#}" using workers by (intro sum.neutral) auto
  ultimately show ?thesis using workers clients queue_reachable[OF assms(1)] work_reachable[OF assms(1)]
    by (simp add: queue_inv_def work_inv_def)
qed

text \<open>
  C3 The pool settles. From every reachable state, however the threads and the destructor
  interleave, at most \<open>pool_weight\<close> steps are possible without another call of \<open>enqueue\<close> or a
  spurious wake-up; and where no worker and no caller can go on any more, every call of
  \<open>enqueue\<close> has returned, the queue is empty and exactly the accepted tasks have been executed,
  each once. So no accepted task waits for ever, also when the destructor hangs.
\<close>

theorem pool_settles:
  assumes "reachable n c s" and "list_all settling ls" and "tp_run ls s = Some t"
  shows "length ls \<le> pool_weight s \<and>
    ((\<forall>l. internal l \<longrightarrow> tp_step l t = None) \<longrightarrow>
      tasks t = [] \<and> mset (executed t) = mset (accepted t) \<and> (\<forall>j. clients t j = C_idle))"
proof (intro conjI impI)
  show "length ls \<le> pool_weight s" using pool_rest.run_weight[OF assms] by simp
  assume "\<forall>l. internal l \<longrightarrow> tp_step l t = None"
  then have rest: "\<And>l. internal l \<Longrightarrow> tp_step l t = None" by blast
  note at_rest[OF reachable_run[OF assms(1,3)] rest]
  then show "tasks t = []" "mset (executed t) = mset (accepted t)" "\<forall>j. clients t j = C_idle" by simp_all
qed

definition settled :: "nat tpool" where
  "settled = (new_tpool 1 1)\<lparr>workers := (\<lambda>_. W_idle)(0 := W_wait), accepted := [7], taken := [7], executed := [7]\<rparr>"

lemma settled_run:
  "tp_run [Notify_one 0 None, Lock 0, Test 0, Take 0, Execute 0, Lock 0, Test 0, Block 0] queued = Some settled"
  by (simp add: queued_def settled_def new_tpool_def step_defs fun_upd_def fun_eq_iff)

lemma settled_rest: "internal l \<Longrightarrow> tp_step l settled = None"
  by (cases l) (auto simp: settled_def new_tpool_def step_defs)

theorem pool_settles_witness:
  "length [Notify_one 0 None, Lock 0, Test 0, Take 0, Execute 0, Lock 0, Test 0, Block 0 :: nat label] \<le> pool_weight queued \<and>
   mset (executed settled) = mset (accepted settled)"
  using pool_settles[OF reachable_run[OF start queued_run] _ settled_run] settled_rest by simp

subsection \<open>When the destructor returns\<close>

text \<open>
  The flag is set and no worker is between its evaluation of the predicate and its blocking:
  then no worker gets there any more, and none waits once \<open>notify_all\<close> has been called.
\<close>

definition wakes_all :: "'t tpool \<Rightarrow> bool" where
  "wakes_all s \<longleftrightarrow> stop s \<and> (\<forall>i. workers s i \<noteq> W_sleep) \<and>
     (\<forall>k. owner s = O_joining k \<longrightarrow> (\<forall>i. workers s i \<noteq> W_wait))"

lemma wakes_all_moves:
  assumes "wakes_all s" and "worker_moves i w s t" and "stop t = stop s" and "w \<noteq> W_sleep" and "w \<noteq> W_wait"
  shows "wakes_all t"
  using assms by (auto simp: wakes_all_def worker_moves_def)

lemma wakes_all_step:
  assumes inv: "reachable n c s" and all: "wakes_all s" and step: "tp_step l s = Some t"
  shows "wakes_all t"
  using step mutex_reachable[OF inv]
proof (cases rule: tp_step_elim)
  case (lock i)
  then show ?thesis by (intro wakes_all_moves[OF all lock(2)]) auto
next
  case (test i)
  then show ?thesis using all by (intro wakes_all_moves[OF all test(3)]) (auto simp: wakes_all_def)
next
  case (block i)
  then show ?thesis using all by (simp add: wakes_all_def)
next
  case (spurious i)
  then show ?thesis by (intro wakes_all_moves[OF all spurious(3)]) auto
next
  case (exit i)
  then show ?thesis by (intro wakes_all_moves[OF all exit(3)]) auto
next
  case (take i x)
  then show ?thesis by (intro wakes_all_moves[OF all take(3)]) auto
next
  case (execute i x)
  then show ?thesis by (intro wakes_all_moves[OF all execute(3)]) auto
next
  case (client j d)
  then show ?thesis using all by (simp add: wakes_all_def client_moves_def)
next
  case (push j x)
  then show ?thesis using all by (simp add: wakes_all_def client_moves_def)
next
  case (notify j w)
  then show ?thesis using all by (cases w) (auto simp: wakes_all_def)
next
  case store
  then show ?thesis using all queue_reachable[OF inv] by (simp add: wakes_all_def queue_inv_def)
qed (use all in \<open>auto simp: wakes_all_def\<close>)

interpretation waking: transition_system tp_step "\<lambda>s. reachable n c s \<and> wakes_all s" for n c
  by unfold_locales (blast intro: reachable.step wakes_all_step)

lemma destructor_at_rest:
  assumes r: "reachable n c s" and all: "wakes_all s" and rest: "\<And>l. settling l \<Longrightarrow> tp_step l s = None"
  shows "owner s = O_joining (n_workers s)"
proof -
  note queue = queue_reachable[OF r]
  have "owner s \<noteq> O_serving" using all queue by (simp add: wakes_all_def queue_inv_def)
  moreover have "owner s \<noteq> O_stored" using rest[of Notify_all] by (auto simp: step_defs)
  ultimately obtain k where k: "owner s = O_joining k" by (cases "owner s") auto
  then have "k \<le> n_workers s" using queue by (simp add: queue_inv_def)
  moreover have "\<not> k < n_workers s"
  proof
    assume less: "k < n_workers s"
    have "workers s k = W_wait \<or> workers s k = W_done"
      using at_rest[OF r] rest internal_settling less by blast
    then have "workers s k = W_done" using all k by (auto simp: wakes_all_def)
    then have "tp_step Join s \<noteq> None" using k less by (simp add: step_defs)
    then show False using rest[of Join] by simp
  qed
  ultimately show ?thesis using k by simp
qed

text \<open>
  C11 The shutdown returns when the flag is not set too late. Let the destructor store \<open>stop_\<close>
  while no thread holds the mutex (as it would always be if it stored under the mutex). Then,
  however the threads interleave afterwards, at most \<open>pool_weight\<close> steps are possible without
  a new call of \<open>enqueue\<close> or a spurious wake-up, and where none is possible any more the
  destructor has joined every worker.
\<close>

theorem shutdown_returns:
  assumes "reachable n c s" and "tasks_mutex s = None" and "tp_step Store_stop s = Some s1"
    and "list_all settling ls" and "tp_run ls s1 = Some t"
  shows "length ls \<le> pool_weight s1 \<and>
    ((\<forall>l. settling l \<longrightarrow> tp_step l t = None) \<longrightarrow> owner t = O_joining (n_workers t) \<and> (\<forall>i < n_workers t. workers t i = W_done))"
proof (intro conjI impI)
  have s1: "reachable n c s1" "s1 = s\<lparr>stop := True, owner := O_stored\<rparr>"
    using assms(1,3) reachable.step by (blast, auto simp: step_defs split: if_splits)
  show "length ls \<le> pool_weight s1" using pool_rest.run_weight[OF s1(1) assms(4,5)] by simp
  have "workers s i \<noteq> W_sleep" for i
    using mutex_reachable[OF assms(1)] assms(2) locks_simps(2) unfolding mutex_inv_def by (metis option.distinct(1))
  then have "wakes_all s1" by (simp add: wakes_all_def s1(2))
  then have t: "reachable n c t" "wakes_all t" using waking.run_labels_inv[OF _ assms(5)] s1(1) by blast+
  assume "\<forall>l. settling l \<longrightarrow> tp_step l t = None"
  then show joined: "owner t = O_joining (n_workers t)" using destructor_at_rest[OF t] by blast
  show "\<forall>i < n_workers t. workers t i = W_done" using joined_pool[OF t(1) joined] by blast
qed

definition stored :: "nat tpool" where
  "stored = (new_tpool 1 0)\<lparr>owner := O_stored, stop := True\<rparr>"

definition joined :: "nat tpool" where
  "joined = (new_tpool 1 0)\<lparr>workers := (\<lambda>_. W_idle)(0 := W_done), owner := O_joining 1, stop := True\<rparr>"

lemma joined_run: "tp_run [Notify_all, Lock 0, Test 0, Take 0, Join] stored = Some joined"
  by (simp add: stored_def joined_def new_tpool_def step_defs fun_upd_def fun_eq_iff)

lemma joined_rest: "settling l \<Longrightarrow> tp_step l joined = None"
  by (cases l) (auto simp: joined_def new_tpool_def step_defs)

theorem shutdown_returns_witness:
  "length [Notify_all, Lock 0, Test 0, Take 0, Join :: nat label] \<le> pool_weight stored \<and> owner joined = O_joining (n_workers joined)"
proof -
  have "tp_step Store_stop (new_tpool 1 0) = Some stored" "tasks_mutex (new_tpool 1 0 :: nat tpool) = None"
    by (simp_all add: step_defs stored_def new_tpool_def)
  from shutdown_returns[OF start this(2,1) _ joined_run] joined_rest show ?thesis by simp
qed

end
