(* ===== verification/Pool_Spec.thy ===== *)
theory Pool_Spec
  imports Thread_Pool
begin

section \<open>The thread pool follows a queue with servers\<close>

text \<open>
  What a user of \<open>ThreadPool\<close> relies on, without threads, locks and wake-ups: a queue from
  which at most so many tasks as there are workers are served at a time. Every step of the pool
  is one operation of this queue or changes nothing that a user sees.
\<close>

subsection \<open>The specification\<close>

record 't queueing =
  waiting :: "'t list"
  busy :: "'t multiset"
  finished :: "'t multiset"
  closed :: bool

datatype 't queue_op = Submit 't | Refuse 't | Begin | Finish 't | Close

fun queue_spec :: "nat \<Rightarrow> 't queue_op \<Rightarrow> 't queueing \<Rightarrow> 't queueing option" where
  "queue_spec n (Submit t) q = Some (q\<lparr>waiting := waiting q @ [t]\<rparr>)"
| "queue_spec n (Refuse t) q = (if closed q then Some q else None)"
| "queue_spec n Begin q =
     (case waiting q of
        [] \<Rightarrow> None
      | t # ts \<Rightarrow> if size (busy q) < n then Some (q\<lparr>waiting := ts, busy := busy q + {#t#}\<rparr>) else None)"
| "queue_spec n (Finish t) q =
     (if t \<in># busy q then Some (q\<lparr>busy := busy q - {#t#}, finished := finished q + {#t#}\<rparr>) else None)"
| "queue_spec n Close q = (if closed q then None else Some (q\<lparr>closed := True\<rparr>))"

subsection \<open>What a step of the pool performs\<close>

definition pool_abs :: "'t tpool \<Rightarrow> 't queueing" where
  "pool_abs s = \<lparr>waiting = tasks s, busy = (\<Sum>i < n_workers s. running (workers s i)),
     finished = mset (executed s), closed = stop s\<rparr>"

fun performs :: "'t label \<Rightarrow> 't tpool \<Rightarrow> 't queue_op option" where
  "performs (Push j) s = (case clients s j of C_push t \<Rightarrow> Some (Submit t) | _ \<Rightarrow> None)"
| "performs (Check j) s = (case clients s j of C_locked t \<Rightarrow> if stop s then Some (Refuse t) else None | _ \<Rightarrow> None)"
| "performs (Take i) s = (if tasks s = [] then None else Some Begin)"
| "performs (Execute i) s = (case workers s i of W_run t \<Rightarrow> Some (Finish t) | _ \<Rightarrow> None)"
| "performs Store_stop s = Some Close"
| "performs l s = None"

lemma size_sum_lessThan:
  fixes f :: "nat \<Rightarrow> 'b multiset"
  shows "size (\<Sum>i < n. f i) = (\<Sum>i < n. size (f i))"
  by (induction n) simp_all

lemma size_running: "size (running w) \<le> 1"
  by (cases w) simp_all

lemma busy_bound:
  assumes "i < n_workers s" and "running (workers s i) = {#}"
  shows "size (\<Sum>j < n_workers s. running (workers s j)) < n_workers s"
proof -
  have "(\<Sum>j < n_workers s. size (running (workers s j))) < (\<Sum>j < n_workers s. 1)"
    using assms size_running by (intro sum_strict_mono_ex1) force+
  then show ?thesis by (simp add: size_sum_lessThan)
qed

lemma busy_moves:
  "worker_moves i w s t \<Longrightarrow>
   busy (pool_abs t) + running (workers s i) = busy (pool_abs s) + running w"
  using sum_moves[of i "n_workers s" running "workers s" w] by (simp add: worker_moves_def pool_abs_def)

lemma silent_move:
  assumes "worker_moves i w s t" and "running (workers s i) = {#}" and "running w = {#}"
    and "tasks t = tasks s" "stop t = stop s" "executed t = executed s"
  shows "pool_abs t = pool_abs s"
  using busy_moves[OF assms(1)] assms(2-) by (simp add: pool_abs_def)

lemma begin_move:
  assumes "worker_moves i (W_run x) s t" and "workers s i = W_take"
    and "tasks s = x # tasks t" "stop t = stop s" "executed t = executed s"
  shows "queue_spec (n_workers s) Begin (pool_abs s) = Some (pool_abs t)"
  using busy_moves[OF assms(1)] busy_bound[of i s] assms by (simp add: pool_abs_def worker_moves_def)

lemma finish_move:
  assumes "worker_moves i W_idle s t" and "workers s i = W_run x"
    and "tasks t = tasks s" "stop t = stop s" "executed t = executed s @ [x]"
  shows "queue_spec n (Finish x) (pool_abs s) = Some (pool_abs t)"
proof -
  have busy: "busy (pool_abs s) = busy (pool_abs t) + {#x#}"
    using busy_moves[OF assms(1)] assms(2) by simp
  then show ?thesis using assms(3-) by (simp add: pool_abs_def)
qed

lemma step_performs:
  assumes inv: "reachable n c s" and step: "tp_step l s = Some t"
  shows "case performs l s of None \<Rightarrow> pool_abs t = pool_abs s
    | Some p \<Rightarrow> queue_spec (n_workers s) p (pool_abs s) = Some (pool_abs t)"
  using step mutex_reachable[OF inv]
proof (cases rule: tp_step_elim)
  case (lock i)
  then show ?thesis using silent_move[OF lock(2)] by auto
next
  case (test i)
  then show ?thesis using silent_move[OF test(3)] by simp
next
  case (block i)
  then show ?thesis using silent_move[OF block(3)] by simp
next
  case (spurious i)
  then show ?thesis using silent_move[OF spurious(3)] by simp
next
  case (exit i)
  then show ?thesis using silent_move[OF exit(3)] by simp
next
  case (broke i)
  then show ?thesis using queue_reachable[OF inv] by (auto simp: queue_inv_def)
next
  case (take i x)
  then show ?thesis using begin_move[OF take(3)] by (simp del: queue_spec.simps)
next
  case (execute i x)
  then show ?thesis using finish_move[OF execute(3)] by (simp del: queue_spec.simps)
next
  case (client j d)
  then have "pool_abs t = pool_abs s" by (simp add: pool_abs_def client_moves_def)
  with client(12) show ?thesis by (auto simp: pool_abs_def split: client.split)
next
  case (push j x)
  then show ?thesis by (simp add: pool_abs_def client_moves_def)
next
  case (notify j w)
  show ?thesis
  proof (cases w)
    case None
    then show ?thesis by (simp add: notify(1,6) pool_abs_def)
  next
    case (Some i)
    then have "(\<Sum>k < n_workers s. running (((workers s)(i := W_woken)) k)) = (\<Sum>k < n_workers s. running (workers s k))"
      using notify(5)[OF Some] by (intro sum.cong) auto
    then show ?thesis by (simp add: notify(1,6) pool_abs_def Some)
  qed
next
  case store
  then show ?thesis using queue_reachable[OF inv] by (simp add: pool_abs_def queue_inv_def)
next
  case notify_all
  have "running (if w = W_wait then W_woken else w) = running w" for w :: "'a worker" by auto
  then show ?thesis by (simp add: notify_all(1,3) pool_abs_def)
next
  case (join k)
  then show ?thesis by (simp add: pool_abs_def)
qed

interpretation pool_queue: step_refinement tp_step "reachable n c" "queue_spec (max 1 n)" pool_abs performs for n c
proof unfold_locales
  fix s t :: "'a tpool" and l
  assume r: "reachable n c s" and step: "tp_step l s = Some t"
  note facts = step_performs[OF r step] reachable_workers[OF r]
  show "pool_abs t = pool_abs s" if "performs l s = None" using facts that by simp
  show "queue_spec (max 1 n) p (pool_abs s) = Some (pool_abs t)" if "performs l s = Some p" for p
    using facts that by simp
qed

text \<open>
  C4 The pool is a queue. Every interleaving of the workers, of the callers of \<open>enqueue\<close> and of
  the destructor is a history of a first-in first-out queue with \<open>max 1 n\<close> servers: the
  operations that the run performs (\<open>emplace\<close> submits, a refused call needs a closed queue, a
  worker begins the first waiting task and at most \<open>max 1 n\<close> are busy, the end of a task
  finishes a busy one, \<open>stop_\<close> closes once) are legal in that order from the empty queue and
  lead to what the pool contains.
\<close>

theorem pool_refines_queue:
  assumes "tp_run ls (new_tpool n c) = Some s"
  shows "run_labels (queue_spec (max 1 n)) (performed tp_step performs ls (new_tpool n c))
      \<lparr>waiting = [], busy = {#}, finished = {#}, closed = False\<rparr> = Some (pool_abs s)"
  using pool_queue.run_refines[OF start assms] by (simp add: pool_abs_def new_tpool_def)

theorem pool_refines_queue_witness:
  "run_labels (queue_spec 1) [Submit 7, Close, Begin, Finish 7] \<lparr>waiting = [], busy = {#}, finished = {#}, closed = False\<rparr> =
     Some (pool_abs shut_down)"
  using pool_refines_queue[OF shutdown_run_state]
  by (simp add: shutdown_run_def new_tpool_def step_defs del: queue_spec.simps)

end
