(* ===== verification/Pool_Server.thy ===== *)
theory Pool_Server
  imports Thread_Pool Tcp_Listen
begin

section \<open>The accepting thread and its pool together\<close>

text \<open>
  The server of \<open>thread_pool_server.cpp\<close> as one transition system: the main thread, which goes
  through \<open>run\<close> and then through the destructor, and the workers of the pool. The main
  thread is the caller \<open>0\<close> of \<open>enqueue\<close>; an iteration of its loop up to the call of \<open>enqueue\<close>
  is one step, and so is each step of \<open>Thread_Pool\<close>. A task is a connection, with the
  descriptor that it owns and the address of its peer. The execution of a task is one step;
  \<open>Server_Sockets\<close> refines it into the iterations of the connection's loop and adds the
  \<open>SocketHandle\<close> objects.
\<close>

record serving =
  events :: "accept_event list"   \<comment> \<open>what the loop will meet\<close>
  clients_seen :: accepting
  loop_over :: bool               \<comment> \<open>\<open>run\<close> has returned or thrown\<close>
  threads :: "connection tpool"

datatype server_label = Accept | Pool_step "connection label"

definition start_serving :: "nat \<Rightarrow> accept_event list \<Rightarrow> serving" where
  "start_serving thread_count es =
     \<lparr>events = es, clients_seen = \<lparr>pool_tasks = [], dropped = []\<rparr>, loop_over = False, threads = new_tpool thread_count 1\<rparr>"

definition accept_step :: "serving \<Rightarrow> serving option" where
  \<comment> \<open>one evaluation of the condition of the loop and, if it holds, the body up to \<open>enqueue\<close>\<close>
  "accept_step s =
     (if loop_over s \<or> clients (threads s) 0 \<noteq> C_idle then None
      else
        (case events s of
           [] \<Rightarrow> Some (s\<lparr>loop_over := True\<rparr>)
         | e # es \<Rightarrow>
             if \<not> (is_running e \<and> \<not> terminate_flag e) then Some (s\<lparr>loop_over := True\<rparr>)
             else
               (case acceptConnection (accept_ret e) (accept_errno e) of
                  Inl x \<Rightarrow> Some (s\<lparr>loop_over := True\<rparr>)
                | Inr fd \<Rightarrow>
                    if fd = -1 then Some (s\<lparr>events := es\<rparr>)
                    else
                      (case new_connection fd (peer_address e) (client_get e) (client_set e) of
                         Inl x \<Rightarrow> Some (s\<lparr>loop_over := True,
                           clients_seen := (clients_seen s)\<lparr>dropped := dropped (clients_seen s) @ [fd]\<rparr>\<rparr>)
                       | Inr c \<Rightarrow>
                           map_option (\<lambda>p. s\<lparr>events := es, threads := p,
                               clients_seen := (clients_seen s)\<lparr>pool_tasks := pool_tasks (clients_seen s) @ [c]\<rparr>\<rparr>)
                             (tp_step (Call 0 c) (threads s))))))"

fun server_step :: "server_label \<Rightarrow> serving \<Rightarrow> serving option" where
  \<comment> \<open>\<open>enqueue\<close> is called by the loop only; the destructor runs when the loop is over\<close>
  "server_step Accept s = accept_step s"
| "server_step (Pool_step (Call j c)) s = None"
| "server_step (Pool_step Store_stop) s =
     (if loop_over s \<and> clients (threads s) 0 = C_idle
      then map_option (\<lambda>p. s\<lparr>threads := p\<rparr>) (tp_step Store_stop (threads s)) else None)"
| "server_step (Pool_step l) s = map_option (\<lambda>p. s\<lparr>threads := p\<rparr>) (tp_step l (threads s))"

subsection \<open>Nothing is lost between the loop and the workers\<close>

definition in_enqueue :: "'t client \<Rightarrow> 't list" where
  \<comment> \<open>the task of a call that has not put it into the queue yet\<close>
  "in_enqueue c = (case c of C_want t \<Rightarrow> [t] | C_locked t \<Rightarrow> [t] | C_push t \<Rightarrow> [t] | _ \<Rightarrow> [])"

lemma in_enqueue_simps [simp]:
  "in_enqueue C_idle = []" "in_enqueue C_notify = []" "in_enqueue (C_want t) = [t]"
  "in_enqueue (C_locked t) = [t]" "in_enqueue (C_push t) = [t]"
  by (simp_all add: in_enqueue_def)

definition handed :: "'t tpool \<Rightarrow> 't list" where
  "handed p = accepted p @ in_enqueue (clients p 0)"

definition calm :: "'t tpool \<Rightarrow> bool" where
  \<comment> \<open>one caller, which is not refused: the pool is stopped only behind its last call\<close>
  "calm p \<longleftrightarrow> n_clients p = 1 \<and> rejected p = [] \<and> (tpool.stop p \<longrightarrow> clients p 0 = C_idle)"

lemma worker_keeps:
  "worker_step l p = Some q \<Longrightarrow> calm p \<Longrightarrow> calm q \<and> handed q = handed p \<and> clients q = clients p"
  by (cases l) (auto simp: set_worker_def calm_def handed_def split: if_splits list.splits worker.splits)

lemma enqueue_keeps:
  "enqueue_step l p = Some q \<Longrightarrow> calm p \<Longrightarrow> (\<And>j t. l \<noteq> Call j t) \<Longrightarrow> calm q \<and> handed q = handed p"
  by (cases l) (auto simp: set_client_def set_worker_def calm_def handed_def split: if_splits client.splits option.splits)

lemma destructor_keeps:
  "destructor_step l p = Some q \<Longrightarrow> calm p \<Longrightarrow> (l = Store_stop \<longrightarrow> clients p 0 = C_idle) \<Longrightarrow>
   calm q \<and> handed q = handed p \<and> clients q = clients p"
  by (cases l) (auto simp: calm_def handed_def split: if_splits owner.splits)

lemma pool_keeps:
  assumes "tp_step l p = Some q" and "calm p" and "\<And>j t. l \<noteq> Call j t" and "l = Store_stop \<longrightarrow> clients p 0 = C_idle"
  shows "calm q \<and> handed q = handed p"
  using assms worker_keeps[of l p q] enqueue_keeps[of l p q] destructor_keeps[of l p q]
  by (auto simp: tp_step_def split: option.splits)

lemma call_keeps:
  assumes "tp_step (Call 0 c) p = Some q" and "calm p" and "\<not> tpool.stop p" and "clients p 0 = C_idle"
  shows "calm q \<and> handed q = handed p @ [c] \<and> \<not> tpool.stop q"
  using assms by (auto simp: step_defs calm_def handed_def split: if_splits)

lemma stop_only_by_destructor:
  assumes "tp_step l p = Some q" and "l \<noteq> Store_stop"
  shows "tpool.stop q = tpool.stop p"
  using assms by (cases l) (auto simp: step_defs split: if_splits list.splits option.splits worker.splits client.splits owner.splits)

definition serving_inv :: "nat \<Rightarrow> accept_event list \<Rightarrow> serving \<Rightarrow> bool" where
  "serving_inv n es s \<longleftrightarrow>
     reachable n 1 (threads s) \<and> calm (threads s) \<and> handed (threads s) = pool_tasks (clients_seen s) \<and>
     (tpool.stop (threads s) \<longrightarrow> loop_over s) \<and> (\<forall>e \<in> set (events s). \<not> pool_stopped e) \<and>
     (if loop_over s then clients_seen s = snd (accept_loop es \<lparr>pool_tasks = [], dropped = []\<rparr>)
      else accept_loop es \<lparr>pool_tasks = [], dropped = []\<rparr> = accept_loop (events s) (clients_seen s))"

lemma serving_start: "\<forall>e \<in> set es. \<not> pool_stopped e \<Longrightarrow> serving_inv n es (start_serving n es)"
  using reachable.start[of n 1] by (simp add: serving_inv_def start_serving_def calm_def handed_def new_tpool_def)

lemma accept_keeps:
  assumes "serving_inv n es s" and "accept_step s = Some t"
  shows "serving_inv n es t"
proof -
  have still: "\<not> loop_over s" "clients (threads s) 0 = C_idle" "\<not> tpool.stop (threads s)"
    using assms by (auto simp: accept_step_def serving_inv_def split: if_splits)
  show ?thesis
  proof (cases "events s")
    case Nil
    then show ?thesis using assms still by (auto simp: accept_step_def serving_inv_def)
  next
    case (Cons e rest)
    show ?thesis
      using assms still Cons
      by (auto simp: accept_step_def serving_inv_def split: if_splits sum.splits option.splits
        dest: call_keeps reachable.step)
  qed
qed

lemma pool_step_keeps:
  assumes "serving_inv n es s" and "tp_step l (threads s) = Some p" and "\<And>j t. l \<noteq> Call j t"
    and "l = Store_stop \<longrightarrow> loop_over s \<and> clients (threads s) 0 = C_idle"
  shows "serving_inv n es (s\<lparr>threads := p\<rparr>)"
  using assms pool_keeps[OF assms(2) _ assms(3)] stop_only_by_destructor[OF assms(2)]
  by (cases "l = Store_stop") (auto simp: serving_inv_def intro: reachable.step)

lemma server_step_keeps: "serving_inv n es s \<Longrightarrow> server_step l s = Some t \<Longrightarrow> serving_inv n es t"
  by (induction l s rule: server_step.induct)
     (auto split: if_splits intro: accept_keeps pool_step_keeps)

interpretation server: transition_system server_step "serving_inv n es" for n es
  by unfold_locales (rule server_step_keeps)

text \<open>
  C5 Every client is served once. Let the server run with any number of workers, any
  clients and any interleaving of the main thread, the workers and the destructor. When the
  destructor has joined every worker, the connections executed are, each once, exactly those
  that the loop of \<open>run\<close> accepts from these events; no call of \<open>enqueue\<close> was refused, and no
  connection is left in the queue.
\<close>

theorem clients_served_once:
  assumes "\<forall>e \<in> set es. \<not> pool_stopped e"
    and "run_labels server_step ls (start_serving n es) = Some s"
    and "owner (threads s) = O_joining (n_workers (threads s))"
  shows "mset (executed (threads s)) = mset (pool_tasks (snd (accept_loop es \<lparr>pool_tasks = [], dropped = []\<rparr>))) \<and>
    tasks (threads s) = [] \<and> rejected (threads s) = []"
proof -
  have inv: "serving_inv n es s"
    using server.run_labels_inv[OF serving_start[OF assms(1)] assms(2)] .
  then have r: "reachable n 1 (threads s)" and calm: "calm (threads s)" by (simp_all add: serving_inv_def)
  note joined = joined_pool[OF r assms(3)]
  then have "loop_over s" "clients (threads s) 0 = C_idle" using inv by (auto simp: serving_inv_def calm_def)
  then show ?thesis using inv joined calm by (simp add: serving_inv_def handed_def calm_def)
qed

definition sample_labels :: "server_label list" where
  \<comment> \<open>a client is accepted and served by the only worker, then the loop ends and the pool is destroyed\<close>
  "sample_labels = [Accept] @
     map Pool_step [Lock_client 0, Check 0, Push 0, Notify_one 0 None, Lock 0, Test 0, Take 0, Execute 0] @ [Accept] @
     map Pool_step [Store_stop, Notify_all, Lock 0, Test 0, Take 0, Join]"

definition after_sample :: "connection \<Rightarrow> serving" where
  "after_sample c = \<lparr>events = [], clients_seen = \<lparr>pool_tasks = [c], dropped = []\<rparr>, loop_over = True,
     threads = (new_tpool 1 1)\<lparr>workers := (\<lambda>_. W_idle)(0 := W_done), owner := O_joining 1, stop := True,
       accepted := [c], taken := [c], executed := [c]\<rparr>\<rparr>"

lemma sample_labels_run:
  "run_labels server_step sample_labels (start_serving 1 [sample_client 7 0]) =
     Some (after_sample (7, peer_address (sample_client 7 0)))"
  by (simp add: sample_labels_def after_sample_def start_serving_def accept_step_def sample_client_def
      acceptConnection_def new_connection_def setNonBlocking_def new_tpool_def step_defs fun_upd_def fun_eq_iff)

theorem clients_served_once_witness:
  "mset (executed (threads (after_sample (7, peer_address (sample_client 7 0))))) =
   mset (pool_tasks (snd (accept_loop [sample_client 7 0] \<lparr>pool_tasks = [], dropped = []\<rparr>)))"
  using clients_served_once[OF _ sample_labels_run]
  by (simp add: after_sample_def new_tpool_def sample_client_def)

subsection \<open>What the steps of the server are to the pool\<close>

lemma running_until_executed:
  assumes "tp_step l p = Some q" and "l \<noteq> Execute i" and "workers p i = W_run c"
  shows "workers q i = W_run c"
  using assms by (cases l) (auto simp: step_defs split: if_splits list.splits option.splits worker.splits client.splits owner.splits)

lemma server_step_threads:
  "server_step l s = Some t \<Longrightarrow>
   threads t = threads s \<or> (\<exists>k. tp_step k (threads s) = Some (threads t) \<and> (l = Pool_step k \<or> (\<exists>c. k = Call 0 c)))"
  by (induction l s rule: server_step.induct) (auto simp: accept_step_def split: if_splits list.splits sum.splits option.splits)

end
