(* ===== verification/Server_Liveness.thy ===== *)
theory Server_Liveness
  imports Pool_Server Pool_Liveness
begin

section \<open>Every accepted client is served in the end\<close>

text \<open>
  The runs of the server of \<open>Pool_Server\<close> without spurious wake-ups are finite: every event
  of the accepting loop pays for the steps of the connection that it may bring. Where the
  server cannot go on, the loop is over and every connection that it accepted was executed.
  An execution of a connection is one step here, so this speaks of connections whose loop
  ends; the theory \<open>Server_Sockets\<close> takes the loop apart and is about the others, too.
\<close>

subsection \<open>The weight of the server\<close>

definition server_weight :: "serving \<Rightarrow> nat" where
  "server_weight s = pool_weight (threads s) + 12 * length (events s) + (if loop_over s then 0 else 1)"

fun server_settling :: "server_label \<Rightarrow> bool" where
  "server_settling (Pool_step (Spurious i)) \<longleftrightarrow> False"
| "server_settling _ \<longleftrightarrow> True"

lemma call_weight:
  assumes "tp_step (Call j x) p = Some q"
  shows "pool_weight q = pool_weight p + 11"
proof -
  have j: "j < n_clients p" "clients p j = C_idle" and q: "q = p\<lparr>clients := (clients p)(j := C_want x)\<rparr>"
    using assms by (auto simp: step_defs split: if_splits)
  show ?thesis
    using sum_moves[OF j(1), of client_weight "clients p" "C_want x"] j(2) by (simp add: q pool_weight_def)
qed

lemma accept_step_weight:
  "accept_step s = Some t \<Longrightarrow> server_weight t < server_weight s"
  by (auto simp: accept_step_def server_weight_def dest: call_weight split: if_splits list.splits sum.splits option.splits)

fun_cases server_poolE: "server_step (Pool_step k) s = Some t"

lemma pool_step_taken:
  assumes "server_step (Pool_step k) s = Some t" and "server_settling (Pool_step k)"
  obtains p where "tp_step k (threads s) = Some p" "t = s\<lparr>threads := p\<rparr>" "settling k"
  using assms by (elim server_poolE) (auto split: if_splits simp: eq_commute[of "Some t"])

lemma server_step_weight:
  assumes inv: "serving_inv n es s" and counts: "server_settling l" and step: "server_step l s = Some t"
  shows "server_weight t < server_weight s"
proof (cases l)
  case (Pool_step k)
  from inv have "reachable n 1 (threads s)" by (simp add: serving_inv_def)
  moreover obtain p where p: "tp_step k (threads s) = Some p" "t = s\<lparr>threads := p\<rparr>" "settling k"
    using step counts unfolding Pool_step by (rule pool_step_taken)
  ultimately have "pool_weight p < pool_weight (threads s)" by (intro pool_step_weight)
  then show ?thesis by (simp add: server_weight_def p(2))
qed (use step in \<open>simp add: accept_step_weight\<close>)

interpretation server_rest: terminating_system server_step "serving_inv n es" server_settling server_weight for n es
  by unfold_locales (rule server_step_weight)

lemma server_weight_start: "server_weight (start_serving n es) = 12 * length es + 7 * max 1 n + 3"
  by (simp add: server_weight_def start_serving_def pool_weight_def new_tpool_def)

subsection \<open>Where the server cannot go on\<close>

lemma accepts_when_idle:
  assumes "calm (threads s)" and "\<not> loop_over s" and "clients (threads s) 0 = C_idle"
  shows "accept_step s \<noteq> None"
  using assms by (auto simp: accept_step_def calm_def step_defs split: list.splits sum.splits option.splits)

lemma internal_server_step:
  "internal l \<Longrightarrow> server_step (Pool_step l) s = map_option (\<lambda>p. s\<lparr>threads := p\<rparr>) (tp_step l (threads s))"
  by (cases l) simp_all

lemma server_at_rest:
  assumes inv: "serving_inv n es s" and rest: "\<And>l. server_settling l \<Longrightarrow> server_step l s = None"
  shows "loop_over s \<and> tasks (threads s) = [] \<and> tpool.stop (threads s) \<and>
    mset (executed (threads s)) = mset (pool_tasks (snd (accept_loop es \<lparr>pool_tasks = [], dropped = []\<rparr>)))"
proof -
  have r: "reachable n 1 (threads s)" and calm: "calm (threads s)" using inv by (simp_all add: serving_inv_def)
  have "tp_step l (threads s) = None" if "internal l" for l
    using rest[of "Pool_step l"] internal_server_step[OF that, of s] that by (cases l) auto
  note pool = at_rest[OF r this]
  then have idle: "clients (threads s) 0 = C_idle" by blast
  then have over: "loop_over s" using accepts_when_idle[OF calm] rest[of Accept] by auto
  have "tp_step Store_stop (threads s) = None" using rest[of "Pool_step Store_stop"] over idle by simp
  then have "tpool.stop (threads s)"
    using queue_reachable[OF r] by (auto simp: step_defs queue_inv_def split: if_splits)
  with pool over idle inv show ?thesis by (simp add: serving_inv_def handed_def)
qed

text \<open>
  C1 Every client is served in the end. With \<open>n\<close> workers and \<open>k\<close> events of the accepting loop
  no interleaving takes more than \<open>12 * k + 7 * max 1 n + 3\<close> steps without a spurious wake-up;
  some continuation reaches a state where the server can go no further; and in every such
  state the loop is over, the pool is stopped, its queue is empty and the connections executed
  are, each once, those that the loop accepts from these events. This holds also where the
  destructor hangs.
\<close>

theorem clients_eventually_served:
  assumes "\<forall>e \<in> set es. \<not> pool_stopped e" and "list_all server_settling ls"
    and "run_labels server_step ls (start_serving n es) = Some s"
  shows "length ls \<le> 12 * length es + 7 * max 1 n + 3 \<and>
    (\<exists>later t. list_all server_settling later \<and> run_labels server_step later s = Some t \<and>
      (\<forall>l. server_settling l \<longrightarrow> server_step l t = None)) \<and>
    ((\<forall>l. server_settling l \<longrightarrow> server_step l s = None) \<longrightarrow>
      loop_over s \<and> tpool.stop (threads s) \<and> tasks (threads s) = [] \<and>
      mset (executed (threads s)) = mset (pool_tasks (snd (accept_loop es \<lparr>pool_tasks = [], dropped = []\<rparr>))))"
proof (intro conjI impI)
  note inv = serving_start[OF assms(1)]
  show "length ls \<le> 12 * length es + 7 * max 1 n + 3"
    using server_rest.run_weight[OF inv assms(2,3)] by (simp add: server_weight_start)
  show "\<exists>later t. list_all server_settling later \<and> run_labels server_step later s = Some t \<and>
      (\<forall>l. server_settling l \<longrightarrow> server_step l t = None)"
    by (rule server_rest.run_settles[OF server.run_labels_inv[OF inv assms(3)]])
  assume "\<forall>l. server_settling l \<longrightarrow> server_step l s = None"
  then have "\<And>l. server_settling l \<Longrightarrow> server_step l s = None" by blast
  note server_at_rest[OF server.run_labels_inv[OF inv assms(3)] this]
  then show "loop_over s" "tpool.stop (threads s)" "tasks (threads s) = []"
    "mset (executed (threads s)) = mset (pool_tasks (snd (accept_loop es \<lparr>pool_tasks = [], dropped = []\<rparr>)))"
    by simp_all
qed

lemma after_sample_rest: "server_settling l \<Longrightarrow> server_step l (after_sample c) = None"
  by (induction l "after_sample c" rule: server_step.induct)
     (auto simp: after_sample_def accept_step_def new_tpool_def step_defs)

theorem clients_eventually_served_witness:
  "mset (executed (threads (after_sample (7, peer_address (sample_client 7 0))))) =
   mset (pool_tasks (snd (accept_loop [sample_client 7 0] \<lparr>pool_tasks = [], dropped = []\<rparr>)))"
  using clients_eventually_served[OF _ _ sample_labels_run] after_sample_rest
  by (simp add: sample_labels_def sample_client_def)

end
