(* ===== verification/Server_Sockets.thy ===== *)
theory Server_Sockets
  imports Server_Liveness
begin

section \<open>The server with its connection loops and its socket handles\<close>

text \<open>
  A refinement of the server of \<open>Pool_Server\<close>. A worker that has taken a connection goes through
  the loop of \<open>processRequest\<close> one iteration at a time, each a step that interleaves with all
  others, for as long as the answers of the kernel keep it there; only then can its task
  return. Every step also performs the operations on \<open>SocketHandle\<close> objects that the code has
  there: construction from the descriptor of \<open>accept\<close>, the moves into the \<open>std::bind\<close> object and
  the \<open>packaged_task\<close>, and the destructors. An operation on a handle that does not exist, the
  close of a descriptor that is not open and the use of a closed one are faults.

  The names of the handles: \<open>0\<close> is the temporary \<open>TcpConnection\<close> in \<open>run\<close>, \<open>1\<close> the bind object in
  \<open>enqueue\<close>, and \<open>2 + fd\<close> the one inside the task of the connection.
\<close>

subsection \<open>One iteration of \<open>processRequest\<close>\<close>

fun request_turn :: "recv_result \<times> int \<Rightarrow> nat list list \<Rightarrow> bool \<times> nat list list" where
  \<comment> \<open>whether the loop is left, and the bytes sent so far\<close>
  "request_turn (r, n) sent =
     (case r of
        Recv_data bs \<Rightarrow>
          let request = received (kBufferSize - 1) bs in
          if request = [] then (True, sent)
          else
            let response = echo_prefix @ request in
            (False, if n < 0 then sent else sent @ [take (nat n) response])
      | Recv_error err \<Rightarrow> if err = EAGAIN then (False, sent) else (True, sent))"

lemma processRequest_turn:
  "processRequest (a # as) sent =
     (case request_turn a sent of (left, sent') \<Rightarrow> if left then (True, sent') else processRequest as sent')"
  by (cases a) (simp add: Let_def split: recv_result.split)

subsection \<open>The server\<close>

record live =
  serving :: serving
  left_loop :: "nat \<Rightarrow> bool"                \<comment> \<open>the loop of the worker's connection has ended\<close>
  echoed :: "nat \<Rightarrow> nat list list"          \<comment> \<open>what it has sent\<close>
  sockets_now :: "sockets res"

datatype live_label = Step server_label | Turn nat "recv_result \<times> int"

definition conn_name :: "connection \<Rightarrow> nat" where
  "conn_name c = 2 + nat (fst c)"

definition referenced :: "connection tpool \<Rightarrow> connection \<Rightarrow> bool" where
  \<comment> \<open>the queue or the task of a worker holds a \<open>shared_ptr\<close> to the connection's task\<close>
  "referenced p c \<longleftrightarrow> c \<in> set (tasks p) \<or> (\<exists>i < n_workers p. workers p i = W_run c)"

definition held_by_enqueue :: "connection tpool \<Rightarrow> connection \<Rightarrow> bool" where
  \<comment> \<open>so does the local \<open>task\<close> of \<open>enqueue\<close>, until it returns; the future that it returns is
    destroyed together with the temporary\<close>
  "held_by_enqueue p c \<longleftrightarrow> clients p 0 = C_notify \<and> accepted p \<noteq> [] \<and> last (accepted p) = c"

fun socket_ops :: "server_label \<Rightarrow> serving \<Rightarrow> sh_op list" where
  \<comment> \<open>the operations on handles of a step, from the state before it\<close>
  "socket_ops Accept s =
     (case events s of
        [] \<Rightarrow> []
      | e # es \<Rightarrow>
          if \<not> (is_running e \<and> \<not> terminate_flag e) then []
          else
            (case acceptConnection (accept_ret e) (accept_errno e) of
               Inl x \<Rightarrow> []
             | Inr fd \<Rightarrow>
                 if fd = -1 then []
                 else
                   (case new_connection fd (peer_address e) (client_get e) (client_set e) of
                      Inl x \<Rightarrow> [New 0 fd, Destroy 0]
                    | Inr c \<Rightarrow> [New 0 fd, Move_new 1 0, Move_new (conn_name c) 1, Destroy 1])))"
| "socket_ops (Pool_step (Check j)) s =
     (case clients (threads s) j of
        C_locked c \<Rightarrow> if tpool.stop (threads s) then [Destroy (conn_name c), Destroy 0] else []
      | _ \<Rightarrow> [])"
| "socket_ops (Pool_step (Notify_one j w)) s =
     (let p = threads s; c = last (accepted p) in
      if referenced p c then [Destroy 0] else [Destroy (conn_name c), Destroy 0])"
| "socket_ops (Pool_step (Execute i)) s =
     (case workers (threads s) i of
        W_run c \<Rightarrow> if held_by_enqueue (threads s) c then [] else [Destroy (conn_name c)]
      | _ \<Rightarrow> [])"
| "socket_ops _ s = []"

definition use_socket :: "connection \<Rightarrow> sockets \<Rightarrow> sockets res" where
  \<comment> \<open>\<open>recv(socket_.get(), ...)\<close>\<close>
  "use_socket c k = rbind (get_handle (conn_name c) k) (\<lambda>fd. if fd \<in> open_set k then Inr k else Inl Dangling)"

definition kernel_allows :: "server_label \<Rightarrow> live \<Rightarrow> bool" where
  \<comment> \<open>\<open>accept\<close> does not return a descriptor that is open\<close>
  "kernel_allows l s \<longleftrightarrow>
     (case (l, events (serving s), sockets_now s) of
        (Accept, e # es, Inr k) \<Rightarrow> accept_ret e \<notin> open_set k
      | _ \<Rightarrow> True)"

fun live_step :: "live_label \<Rightarrow> live \<Rightarrow> live option" where
  "live_step (Turn i a) s =
     (if i < n_workers (threads (serving s)) \<and> \<not> left_loop s i then
        (case workers (threads (serving s)) i of
           W_run c \<Rightarrow>
             (case request_turn a (echoed s i) of (left, sent) \<Rightarrow>
                Some (s\<lparr>left_loop := (left_loop s)(i := left), echoed := (echoed s)(i := sent),
                        sockets_now := rbind (sockets_now s) (use_socket c)\<rparr>))
         | _ \<Rightarrow> None)
      else None)"
| "live_step (Step l) s =
     (if kernel_allows l s \<and> (\<forall>i. l = Pool_step (Execute i) \<longrightarrow> left_loop s i) then
        map_option (\<lambda>v. s\<lparr>serving := v,
            sockets_now := rbind (sockets_now s) (run_events sh_step (socket_ops l (serving s))),
            left_loop := (case l of Pool_step (Execute i) \<Rightarrow> (left_loop s)(i := False) | _ \<Rightarrow> left_loop s),
            echoed := (case l of Pool_step (Execute i) \<Rightarrow> (echoed s)(i := []) | _ \<Rightarrow> echoed s)\<rparr>)
          (server_step l (serving s))
      else None)"

definition start_live :: "nat \<Rightarrow> accept_event list \<Rightarrow> live" where
  "start_live n es = \<lparr>serving = start_serving n es, left_loop = \<lambda>_. False, echoed = \<lambda>_. [], sockets_now = Inr no_sockets\<rparr>"

text \<open>Every run of this server is one of the server of \<open>Pool_Server\<close>, so what holds of those holds here.\<close>

fun server_labels :: "live_label list \<Rightarrow> server_label list" where
  "server_labels [] = []"
| "server_labels (Step l # ls) = l # server_labels ls"
| "server_labels (Turn i a # ls) = server_labels ls"

lemma live_Turn:
  assumes "live_step (Turn i a) s = Some t"
  obtains c where "i < n_workers (threads (serving s))" "\<not> left_loop s i" "workers (threads (serving s)) i = W_run c"
    "t = s\<lparr>left_loop := (left_loop s)(i := fst (request_turn a (echoed s i))),
            echoed := (echoed s)(i := snd (request_turn a (echoed s i))),
            sockets_now := rbind (sockets_now s) (use_socket c)\<rparr>"
  using assms by (auto simp del: request_turn.simps split: if_splits worker.splits prod.splits)

lemma live_Step:
  assumes "live_step (Step l) s = Some t"
  obtains v where "server_step l (serving s) = Some v" "serving t = v" "kernel_allows l s"
    "\<And>i. l = Pool_step (Execute i) \<Longrightarrow> left_loop s i"
    "sockets_now t = rbind (sockets_now s) (run_events sh_step (socket_ops l (serving s)))"
    "\<And>i. l \<noteq> Pool_step (Execute i) \<Longrightarrow> left_loop t i = left_loop s i"
proof -
  from assms obtain v where v: "server_step l (serving s) = Some v" "kernel_allows l s"
    "\<forall>i. l = Pool_step (Execute i) \<longrightarrow> left_loop s i"
    "t = s\<lparr>serving := v, sockets_now := rbind (sockets_now s) (run_events sh_step (socket_ops l (serving s))),
      left_loop := (case l of Pool_step (Execute i) \<Rightarrow> (left_loop s)(i := False) | _ \<Rightarrow> left_loop s),
      echoed := (case l of Pool_step (Execute i) \<Rightarrow> (echoed s)(i := []) | _ \<Rightarrow> echoed s)\<rparr>"
    unfolding live_step.simps by (simp only: option.simps if_split_eq1 split: if_splits option.splits) blast
  show thesis
    by (rule that[OF v(1) _ v(2)]) (use v(3) in \<open>auto simp: v(4) split: server_label.split label.split\<close>)
qed

lemma live_serving:
  "live_step (Step l) s = Some t \<Longrightarrow> server_step l (serving s) = Some (serving t)"
  "live_step (Turn i a) s = Some t \<Longrightarrow> serving t = serving s"
proof -
  show "server_step l (serving s) = Some (serving t)" if "live_step (Step l) s = Some t"
    using that by (rule live_Step) simp
  show "serving t = serving s" if "live_step (Turn i a) s = Some t"
    using that by (rule live_Turn) simp
qed

lemma live_run_server:
  "run_labels live_step ls s = Some t \<Longrightarrow> run_labels server_step (server_labels ls) (serving s) = Some (serving t)"
proof (induction ls arbitrary: s)
  case (Cons l ls)
  then obtain u where "live_step l s = Some u" "run_labels live_step ls u = Some t"
    by (auto simp: Option.bind_eq_Some_conv)
  with Cons.IH[of u] live_serving(1)[of _ s u] live_serving(2)[of _ _ s u] show ?case by (cases l) (auto simp del: live_step.simps)
qed simp

lemma turns_are_processRequest:
  "run_labels live_step (map (Turn i) as) s = Some t \<Longrightarrow> \<not> left_loop s i \<Longrightarrow>
   processRequest as (echoed s i) = (left_loop t i, echoed t i)"
proof (induction as arbitrary: s)
  case (Cons a as)
  then obtain u where u: "live_step (Turn i a) s = Some u" "run_labels live_step (map (Turn i) as) u = Some t"
    by (auto simp: Option.bind_eq_Some_conv)
  then have turn: "request_turn a (echoed s i) = (left_loop u i, echoed u i)"
    by (auto elim!: live_Turn simp del: live_step.simps request_turn.simps)
  show ?case
  proof (cases "left_loop u i")
    case True
    then have "as = []" "u = t" using u(2) by (cases as; auto)+
    then show ?thesis using turn True by (simp add: processRequest_turn)
  next
    case False
    then show ?thesis using Cons.IH[OF u(2)] turn by (simp add: processRequest_turn)
  qed
qed simp

subsection \<open>What is not yet executed\<close>

text \<open>The connections handed to the pool and not executed, each as often as it is there.\<close>

definition outstanding :: "connection tpool \<Rightarrow> connection multiset" where
  "outstanding p = mset (handed p) - mset (executed p)"

lemma handed_split:
  assumes "reachable n c p"
  shows "mset (handed p) = mset (executed p) + outstanding p"
    and "outstanding p = mset (in_enqueue (clients p 0)) + mset (tasks p) + (\<Sum>i < n_workers p. Thread_Pool.running (workers p i))"
proof -
  have "mset (handed p) = mset (executed p) +
      (mset (in_enqueue (clients p 0)) + mset (tasks p) + (\<Sum>i < n_workers p. Thread_Pool.running (workers p i)))"
    using queue_reachable[OF assms] work_reachable[OF assms] by (simp add: handed_def queue_inv_def work_inv_def)
  then show "mset (handed p) = mset (executed p) + outstanding p"
    "outstanding p = mset (in_enqueue (clients p 0)) + mset (tasks p) + (\<Sum>i < n_workers p. Thread_Pool.running (workers p i))"
    by (simp_all add: outstanding_def)
qed

lemma running_iff:
  fixes n :: nat
  shows "c \<in># (\<Sum>i < n. Thread_Pool.running (w i)) \<longleftrightarrow> (\<exists>i < n. w i = W_run c)"
proof -
  have "set_mset (\<Sum>i < n. Thread_Pool.running (w i)) = (\<Union>i < n. set_mset (Thread_Pool.running (w i)))"
    by (induction n) (auto simp: lessThan_Suc)
  moreover have "c \<in># Thread_Pool.running (w i) \<longleftrightarrow> w i = W_run c" for i by (cases "w i") auto
  ultimately show ?thesis by auto
qed

lemma outstanding_iff:
  "reachable n m p \<Longrightarrow> c \<in># outstanding p \<longleftrightarrow> c \<in> set (in_enqueue (clients p 0)) \<or> referenced p c"
  using handed_split(2)[of n m p] running_iff[of c "workers p" "n_workers p"] by (auto simp: referenced_def)

definition in_flight :: "connection tpool \<Rightarrow> connection set" where
  "in_flight p = {c. c \<in> set (in_enqueue (clients p 0)) \<or> referenced p c \<or> held_by_enqueue p c}"

definition held :: "connection tpool \<Rightarrow> connection set" where
  "held p = {c. held_by_enqueue p c}"

lemma in_flight_eq: "reachable n m p \<Longrightarrow> in_flight p = set_mset (outstanding p) \<union> held p"
  using outstanding_iff[of n m p] by (auto simp: in_flight_def held_def)

text \<open>What the steps do to it.\<close>

definition same_flight :: "connection tpool \<Rightarrow> connection tpool \<Rightarrow> bool" where
  "same_flight p q \<longleftrightarrow> outstanding q = outstanding p \<and> in_flight q = in_flight p \<and>
     (clients q 0 = C_idle \<longleftrightarrow> clients p 0 = C_idle)"

lemma worker_flight:
  assumes "worker_step l p = Some q" and "calm p" and "\<And>i. l \<noteq> Execute i" and "reachable n m p" and "reachable n m q"
  shows "same_flight p q"
proof -
  have keep: "handed q = handed p" "clients q = clients p" using worker_keeps[OF assms(1,2)] by blast+
  then have "accepted q = accepted p" by (simp add: handed_def)
  moreover have "executed q = executed p"
    using assms(1,3) by (cases l) (auto simp: set_worker_def split: if_splits list.splits)
  ultimately show ?thesis
    using keep in_flight_eq[OF assms(4)] in_flight_eq[OF assms(5)]
    by (simp add: same_flight_def outstanding_def held_def held_by_enqueue_def)
qed

lemma destructor_flight:
  assumes "destructor_step l p = Some q" and "calm p" and "l = Store_stop \<longrightarrow> clients p 0 = C_idle"
    and "reachable n m p" and "reachable n m q"
  shows "same_flight p q"
proof -
  have keep: "handed q = handed p" "clients q = clients p" using destructor_keeps[OF assms(1-3)] by blast+
  then have "accepted q = accepted p" by (simp add: handed_def)
  moreover have "executed q = executed p"
    using assms(1) by (cases l) (auto split: if_splits owner.splits)
  ultimately show ?thesis
    using keep in_flight_eq[OF assms(4)] in_flight_eq[OF assms(5)]
    by (simp add: same_flight_def outstanding_def held_def held_by_enqueue_def)
qed

lemma enqueue_flight:
  assumes "enqueue_step l p = Some q" and "calm p" and "\<And>j t. l \<noteq> Call j t" and "\<And>j w. l \<noteq> Notify_one j w"
    and "reachable n m p" and "reachable n m q"
  shows "same_flight p q"
proof -
  have keep: "handed q = handed p" using enqueue_keeps[OF assms(1-3)] by blast
  have ex: "executed q = executed p"
    using assms(1) by (cases l) (auto simp: set_client_def set_worker_def split: if_splits client.splits option.splits)
  have out: "outstanding q = outstanding p" using keep ex by (simp add: outstanding_def)
  have one: "n_clients p = 1" "tpool.stop p \<longrightarrow> clients p 0 = C_idle" using assms(2) by (simp_all add: calm_def)
  have "held q = held p \<and> (clients q 0 = C_idle \<longleftrightarrow> clients p 0 = C_idle) \<or>
    (\<exists>c. clients p 0 = C_push c \<and> held q = {c} \<and> held p = {} \<and> clients q 0 \<noteq> C_idle)"
    using assms(1,3,4) one
    by (cases l) (auto simp: set_client_def held_def held_by_enqueue_def split: if_splits client.splits)
  then show ?thesis
  proof (elim disjE exE)
    fix c assume c: "clients p 0 = C_push c \<and> held q = {c} \<and> held p = {} \<and> clients q 0 \<noteq> C_idle"
    then have "c \<in># outstanding p" using outstanding_iff[OF assms(5), of c] by simp
    then show ?thesis using c out in_flight_eq[OF assms(5)] in_flight_eq[OF assms(6)] by (auto simp: same_flight_def)
  qed (use out in_flight_eq[OF assms(5)] in_flight_eq[OF assms(6)] in \<open>auto simp: same_flight_def\<close>)
qed

lemma execute_flight:
  assumes "tp_step (Execute i) p = Some q" and "workers p i = W_run c" and "reachable n m p" and "reachable n m q"
  shows "outstanding p = add_mset c (outstanding q) \<and> held q = held p \<and> clients q = clients p"
proof -
  have q: "handed q = handed p" "executed q = executed p @ [c]" "clients q = clients p" "accepted q = accepted p"
    using assms(1,2) by (auto simp: step_defs handed_def split: if_splits)
  have "mset (executed p) + outstanding p = mset (executed p) + add_mset c (outstanding q)"
    using handed_split(1)[OF assms(3)] handed_split(1)[OF assms(4)] q by simp
  then show ?thesis using q by (simp add: held_def held_by_enqueue_def)
qed

lemma notify_flight:
  assumes "tp_step (Notify_one j w) p = Some q" and "calm p" and "reachable n m p" and "reachable n m q"
  shows "outstanding q = outstanding p \<and> clients p 0 = C_notify \<and> clients q 0 = C_idle \<and> held q = {} \<and>
    (accepted p \<noteq> [] \<longrightarrow> held p = {last (accepted p)}) \<and> (c \<in># outstanding p \<longleftrightarrow> referenced p c)"
proof -
  have j: "j = 0" "clients p 0 = C_notify" using assms(1,2) by (auto simp: step_defs calm_def split: if_splits option.splits)
  have "handed q = handed p" using pool_keeps[OF assms(1,2)] by simp
  moreover have "executed q = executed p" "clients q 0 = C_idle"
    using assms(1) j by (auto simp: step_defs split: if_splits option.splits)
  ultimately show ?thesis using j(2) outstanding_iff[OF assms(3), of c]
    by (auto simp: outstanding_def held_def held_by_enqueue_def)
qed

subsection \<open>The handles\<close>

definition holds :: "int set \<Rightarrow> bool \<Rightarrow> sockets \<Rightarrow> bool" where
  \<comment> \<open>the descriptors \<open>F\<close> are open, each in the handle of its task; \<open>idle\<close>: the temporary does not exist\<close>
  "holds F idle k \<longleftrightarrow> (\<forall>fd \<in> F. 0 \<le> fd) \<and> open_set k = F \<and>
     handles k 0 = (if idle then None else Some (-1)) \<and> handles k 1 = None \<and>
     (\<forall>n. handles k (2 + n) = (if int n \<in> F then Some (int n) else None))"

lemma holds_none: "holds {} True no_sockets"
  by (simp add: holds_def no_sockets_def)

lemmas handle_defs = get_handle_def set_handle_def close_fd_def conn_name_def

lemma holds_accept:
  assumes "holds F True k" and "fd \<notin> F" and "0 \<le> fd"
  shows "\<exists>k'. run_events sh_step [New 0 fd, Move_new 1 0, Move_new (conn_name (fd, a)) 1, Destroy 1] k = Inr k' \<and>
    holds (insert fd F) False k'"
  using assms by (auto simp: holds_def handle_defs)

lemma holds_failed:
  assumes "holds F True k" and "fd \<notin> F" and "0 \<le> fd"
  shows "\<exists>k'. run_events sh_step [New 0 fd, Destroy 0] k = Inr k' \<and> holds F True k'"
  using assms by (auto simp: holds_def handle_defs)

lemma holds_return:
  assumes "holds F False k"
  shows "\<exists>k'. run_events sh_step [Destroy 0] k = Inr k' \<and> holds F True k'"
  using assms by (auto simp: holds_def handle_defs)

lemma holds_destroy:
  assumes "holds F idle k" and "fst c \<in> F"
  shows "\<exists>k'. run_events sh_step [Destroy (conn_name c)] k = Inr k' \<and> holds (F - {fst c}) idle k'"
proof -
  have c: "0 \<le> fst c" "handles k (2 + nat (fst c)) = Some (fst c)" using assms by (auto simp: holds_def)
  have "int n \<noteq> fst c \<longleftrightarrow> n \<noteq> nat (fst c)" for n using c(1) by auto
  then show ?thesis using assms c by (auto simp: holds_def handle_defs)
qed

lemma holds_return_last:
  assumes "holds F False k" and "fst c \<in> F"
  shows "\<exists>k'. run_events sh_step [Destroy (conn_name c), Destroy 0] k = Inr k' \<and> holds (F - {fst c}) True k'"
proof -
  obtain k1 where "run_events sh_step [Destroy (conn_name c)] k = Inr k1" "holds (F - {fst c}) False k1"
    using holds_destroy[OF assms] by blast
  moreover obtain k2 where "run_events sh_step [Destroy 0] k1 = Inr k2" "holds (F - {fst c}) True k2"
    using holds_return[OF calculation(2)] by blast
  ultimately show ?thesis by auto
qed

lemma holds_use: "holds F idle k \<Longrightarrow> fst c \<in> F \<Longrightarrow> use_socket c k = Inr k"
  by (auto simp: holds_def use_socket_def get_handle_def conn_name_def)

subsection \<open>The invariant of the server\<close>

definition flight_ok :: "connection tpool \<Rightarrow> bool" where
  \<comment> \<open>no connection is in the server twice, and no two have the same descriptor\<close>
  "flight_ok p \<longleftrightarrow> (\<forall>c. count (outstanding p) c \<le> 1) \<and> inj_on fst (in_flight p)"

definition live_inv :: "nat \<Rightarrow> accept_event list \<Rightarrow> live \<Rightarrow> bool" where
  "live_inv n es s \<longleftrightarrow> serving_inv n es (serving s) \<and> flight_ok (threads (serving s)) \<and>
     (clients (threads (serving s)) 0 = C_notify \<longrightarrow> accepted (threads (serving s)) \<noteq> []) \<and>
     (\<exists>k. sockets_now s = Inr k \<and>
        holds (fst ` in_flight (threads (serving s))) (clients (threads (serving s)) 0 = C_idle) k)"

lemma same_flight_ok: "same_flight p q \<Longrightarrow> flight_ok p \<Longrightarrow> flight_ok q"
  by (simp add: same_flight_def flight_ok_def)

lemma live_start: "\<forall>e \<in> set es. \<not> pool_stopped e \<Longrightarrow> live_inv n es (start_live n es)"
  using serving_start[of es n] holds_none
  by (simp add: live_inv_def start_live_def start_serving_def new_tpool_def flight_ok_def outstanding_def
      handed_def in_flight_def referenced_def held_by_enqueue_def)

lemma call_flight:
  assumes "tp_step (Call 0 c) p = Some q" and "reachable n m p"
  shows "outstanding q = add_mset c (outstanding p) \<and> in_flight q = insert c (in_flight p) \<and>
    clients p 0 = C_idle \<and> clients q 0 \<noteq> C_idle"
proof -
  have q: "clients p 0 = C_idle" "clients q 0 = C_want c" "accepted q = accepted p" "executed q = executed p"
    "tasks q = tasks p" "workers q = workers p" "n_workers q = n_workers p"
    using assms(1) by (auto simp: step_defs split: if_splits)
  have "mset (handed q) = mset (executed p) + add_mset c (outstanding p)"
    using handed_split(1)[OF assms(2)] q by (simp add: handed_def)
  then have "outstanding q = add_mset c (outstanding p)" using q(4) by (simp add: outstanding_def)
  then show ?thesis using q by (auto simp: in_flight_def referenced_def held_by_enqueue_def)
qed

lemma accept_sockets:
  assumes inv: "live_inv n es s" and step: "accept_step (serving s) = Some v" and fresh: "kernel_allows Accept s"
    and inv': "serving_inv n es v"
  shows "flight_ok (threads v) \<and> (\<exists>k. rbind (sockets_now s) (run_events sh_step (socket_ops Accept (serving s))) = Inr k \<and>
      holds (fst ` in_flight (threads v)) (clients (threads v) 0 = C_idle) k)"
proof -
  let ?p = "threads (serving s)"
  obtain k where k: "sockets_now s = Inr k" "holds (fst ` in_flight ?p) (clients ?p 0 = C_idle) k"
    and ok: "flight_ok ?p" and r: "reachable n 1 ?p" using inv by (auto simp: live_inv_def serving_inv_def)
  have idle: "\<not> loop_over (serving s)" "clients ?p 0 = C_idle" using step by (auto simp: accept_step_def split: if_splits)
  have open_set: "open_set k = fst ` in_flight ?p" using k(2) by (simp add: holds_def)
  show ?thesis
  proof (cases "socket_ops Accept (serving s) = []")
    case True
    then have "threads v = ?p" using step idle
      by (auto simp: accept_step_def split: if_splits list.splits sum.splits option.splits)
    then show ?thesis unfolding True using k ok by simp
  next
    case False
    then obtain e rest fd where e: "events (serving s) = e # rest" "is_running e" "\<not> terminate_flag e"
      "acceptConnection (accept_ret e) (accept_errno e) = Inr fd" "fd \<noteq> -1"
      by (auto split: list.splits if_splits sum.splits)
    then have fd: "fd = accept_ret e" "0 \<le> fd" by (auto simp: acceptConnection_def split: if_splits)
    have "fd \<notin> fst ` in_flight ?p" using fresh k(1) e(1) open_set fd(1) by (simp add: kernel_allows_def)
    note fresh_fd = this fd(2)
    show ?thesis
    proof (cases "new_connection fd (peer_address e) (client_get e) (client_set e)")
      case (Inl x)
      then have "threads v = ?p" using step idle e by (auto simp: accept_step_def)
      then show ?thesis using holds_failed[OF _ fresh_fd] k ok idle(2) e Inl by simp
    next
      case (Inr c)
      then have c: "c = (fd, peer_address e)" by (auto simp: new_connection_def split: option.splits)
      obtain q where q: "tp_step (Call 0 c) ?p = Some q" "threads v = q" using step idle e Inr by (auto simp: accept_step_def)
      note call = call_flight[OF q(1) r]
      have "c \<notin> in_flight ?p" using fresh_fd(1) c by force
      then have "c \<notin># outstanding ?p" using in_flight_eq[OF r] by blast
      then have "flight_ok q" using ok call fresh_fd(1) c
        by (auto simp: flight_ok_def count_eq_zero_iff[symmetric] simp del: count_eq_zero_iff)
      moreover have "\<exists>k'. run_events sh_step (socket_ops Accept (serving s)) k = Inr k' \<and>
          holds (insert fd (fst ` in_flight ?p)) False k'"
        using holds_accept[OF _ fresh_fd, of k "peer_address e"] k(2) idle(2) e Inr c by simp
      ultimately show ?thesis using k(1) q(2) call c by auto
    qed
  qed
qed

definition sockets_agree :: "connection tpool \<Rightarrow> sockets res \<Rightarrow> bool" where
  "sockets_agree p k \<longleftrightarrow> flight_ok p \<and> (\<exists>k'. k = Inr k' \<and> holds (fst ` in_flight p) (clients p 0 = C_idle) k')"

lemma same_flight_agree:
  "same_flight p q \<Longrightarrow> sockets_agree p k \<Longrightarrow> sockets_agree q (rbind k (run_events sh_step []))"
  using same_flight_ok[of p q] by (auto simp: sockets_agree_def same_flight_def)

lemma image_minus: "inj_on f A \<Longrightarrow> c \<in> A \<Longrightarrow> f ` (A - {c}) = f ` A - {f c}"
  by (auto simp: inj_on_def)

lemma execute_agree:
  assumes "tp_step (Execute i) p = Some q" and "reachable n m p" and "reachable n m q"
    and "sockets_agree p k" and "threads s = p"
  shows "sockets_agree q (rbind k (run_events sh_step (socket_ops (Pool_step (Execute i)) s)))"
proof -
  obtain c where c: "workers p i = W_run c" using assms(1) by (auto simp: step_defs split: if_splits worker.splits)
  note ex = execute_flight[OF assms(1) c assms(2,3)]
  obtain k' where k: "k = Inr k'" "holds (fst ` in_flight p) (clients p 0 = C_idle) k'"
    and ok: "flight_ok p" using assms(4) by (auto simp: sockets_agree_def)
  have flight: "in_flight p = set_mset (outstanding p) \<union> held p" "in_flight q = set_mset (outstanding q) \<union> held q"
    using in_flight_eq assms(2,3) by blast+
  have count: "count (outstanding p) x = (if x = c then Suc (count (outstanding q) x) else count (outstanding q) x)" for x
    using ex by simp
  have le: "count (outstanding p) x \<le> 1" for x using ok unfolding flight_ok_def by blast
  have once: "count (outstanding q) x \<le> 1" for x
    using le[of x] count[of x] by (auto split: if_splits)
  have "count (outstanding q) c = 0" using le[of c] count[of c] by simp
  then have "c \<notin># outstanding q" by (simp add: count_eq_zero_iff)
  with flight ex have q: "in_flight q = (if c \<in> held p then in_flight p else in_flight p - {c})" by auto
  have c_in: "c \<in> in_flight p" using flight(1) ex by simp
  have inj: "inj_on fst (in_flight p)" using ok by (simp add: flight_ok_def)
  then have "flight_ok q" using once q by (auto simp: flight_ok_def intro: inj_on_subset)
  moreover have "\<exists>t. run_events sh_step (socket_ops (Pool_step (Execute i)) s) k' = Inr t \<and>
      holds (fst ` in_flight q) (clients q 0 = C_idle) t"
  proof (cases "c \<in> held p")
    case True
    then show ?thesis using c k(2) q ex assms(5) by (simp add: held_def)
  next
    case False
    have "fst ` (in_flight p - {c}) = fst ` in_flight p - {fst c}"
      by (rule image_minus[OF inj c_in])
    then show ?thesis using holds_destroy[OF k(2), of c] c_in c q ex False assms(5) by (simp add: held_def)
  qed
  ultimately show ?thesis using k(1) by (simp add: sockets_agree_def)
qed

lemma notify_agree:
  assumes "tp_step (Notify_one j w) p = Some q" and "calm p" and "reachable n m p" and "reachable n m q"
    and "sockets_agree p k" and "threads s = p" and "accepted p \<noteq> []"
  shows "sockets_agree q (rbind k (run_events sh_step (socket_ops (Pool_step (Notify_one j w)) s)))"
proof -
  let ?c = "last (accepted p)"
  note no = notify_flight[OF assms(1-4), of ?c]
  obtain k' where k: "k = Inr k'" "holds (fst ` in_flight p) False k'"
    and ok: "flight_ok p" using assms(5) no by (auto simp: sockets_agree_def)
  have flight: "in_flight p = insert ?c (set_mset (outstanding p))" "in_flight q = set_mset (outstanding p)"
    using in_flight_eq[OF assms(3)] in_flight_eq[OF assms(4)] no assms(7) by auto
  have inj: "inj_on fst (in_flight p)" using ok by (simp add: flight_ok_def)
  then have "flight_ok q" using ok no flight by (auto simp: flight_ok_def intro: inj_on_subset)
  moreover have "\<exists>t. run_events sh_step (socket_ops (Pool_step (Notify_one j w)) s) k' = Inr t \<and>
      holds (fst ` in_flight q) True t"
  proof (cases "referenced p ?c")
    case True
    then have "in_flight q = in_flight p" using flight no by auto
    then show ?thesis using holds_return[OF k(2)] True assms(6) by (simp add: Let_def del: run_events.simps)
  next
    case False
    then have "in_flight q = in_flight p - {?c}" using flight no by auto
    moreover have "fst ` (in_flight p - {?c}) = fst ` in_flight p - {fst ?c}"
      by (rule image_minus[OF inj]) (simp add: flight(1))
    ultimately show ?thesis using holds_return_last[OF k(2), of ?c] flight(1) False assms(6)
      by (simp add: Let_def del: run_events.simps)
  qed
  ultimately show ?thesis using k(1) no by (simp add: sockets_agree_def)
qed

lemma pool_agree:
  assumes "tp_step l p = Some q" and "calm p" and "reachable n m p" and "\<And>j t. l \<noteq> Call j t"
    and "l = Store_stop \<longrightarrow> clients p 0 = C_idle" and "sockets_agree p k" and "threads s = p"
    and "clients p 0 = C_notify \<longrightarrow> accepted p \<noteq> []"
  shows "sockets_agree q (rbind k (run_events sh_step (socket_ops (Pool_step l) s)))"
proof -
  have r: "reachable n m q" using assms(1,3) by (blast intro: reachable.step)
  consider (execute) i where "l = Execute i" | (notify) j w where "l = Notify_one j w"
    | (other) "\<And>i. l \<noteq> Execute i" "\<And>j w. l \<noteq> Notify_one j w" by (cases l) auto
  then show ?thesis
  proof cases
    case execute
    then show ?thesis using execute_agree[OF _ assms(3) r assms(6,7)] assms(1) by blast
  next
    case notify
    then have "clients p 0 = C_notify"
      using assms(1,2) by (auto simp: step_defs calm_def split: if_splits option.splits)
    then show ?thesis using notify notify_agree[OF _ assms(2,3) r assms(6,7)] assms(1,8) by blast
  next
    case other
    have "same_flight p q"
      using assms(1) worker_flight[OF _ assms(2) other(1) assms(3) r] enqueue_flight[OF _ assms(2,4) other(2) assms(3) r]
        destructor_flight[OF _ assms(2,5,3) r] by (auto simp: tp_step_def split: option.splits)
    moreover have "socket_ops (Pool_step l) s = []"
      using other assms(1,2,7)
      by (cases l) (auto simp: step_defs calm_def split: client.splits if_splits)
    ultimately show ?thesis using same_flight_agree[OF _ assms(6)] by simp
  qed
qed

lemma notified_keeps:
  "tp_step l p = Some q \<Longrightarrow> clients p 0 = C_notify \<longrightarrow> accepted p \<noteq> [] \<Longrightarrow>
   clients q 0 = C_notify \<longrightarrow> accepted q \<noteq> []"
  by (cases l) (auto simp: step_defs split: if_splits list.splits worker.splits client.splits owner.splits option.splits)

lemma server_pool_label:
  "server_step (Pool_step k) s = Some v \<Longrightarrow>
   \<exists>q. tp_step k (threads s) = Some q \<and> v = s\<lparr>threads := q\<rparr> \<and> (\<forall>j t. k \<noteq> Call j t) \<and>
     (k = Store_stop \<longrightarrow> clients (threads s) 0 = C_idle)"
  by (cases k) (auto split: if_splits)

lemma live_inv_Step:
  assumes "live_inv n es s" and "live_step (Step l) s = Some t"
  shows "live_inv n es t"
  using assms(2)
proof (rule live_Step)
  fix v assume v: "server_step l (serving s) = Some v" "serving t = v" "kernel_allows l s"
    "sockets_now t = rbind (sockets_now s) (run_events sh_step (socket_ops l (serving s)))"
  let ?p = "threads (serving s)"
  have inv: "serving_inv n es (serving s)" "sockets_agree ?p (sockets_now s)" "reachable n 1 ?p" "calm ?p"
    "clients ?p 0 = C_notify \<longrightarrow> accepted ?p \<noteq> []"
    using assms(1) by (auto simp: live_inv_def sockets_agree_def serving_inv_def)
  have inv': "serving_inv n es v" using server_step_keeps[OF inv(1) v(1)] .
  have "sockets_agree (threads v) (sockets_now t) \<and> (clients (threads v) 0 = C_notify \<longrightarrow> accepted (threads v) \<noteq> [])"
  proof (cases l)
    case Accept
    then have "accept_step (serving s) = Some v" "kernel_allows Accept s" using v by simp_all
    note accept_sockets[OF assms(1) this inv'] 
    moreover have "threads v = ?p \<or> (\<exists>k. tp_step k ?p = Some (threads v))"
      using server_step_threads[OF v(1)] by blast
    then have "clients (threads v) 0 = C_notify \<longrightarrow> accepted (threads v) \<noteq> []"
      using inv(5) notified_keeps[of _ ?p "threads v"] by auto
    ultimately show ?thesis using v(4) Accept by (simp add: sockets_agree_def)
  next
    case (Pool_step k)
    then obtain q where q: "tp_step k ?p = Some q" "threads v = q" "\<And>j t. k \<noteq> Call j t"
      "k = Store_stop \<longrightarrow> clients ?p 0 = C_idle"
      using server_pool_label[of k "serving s" v] v(1) by auto
    from pool_agree[OF q(1) inv(4,3) q(3,4) inv(2) refl inv(5)] notified_keeps[OF q(1) inv(5)]
    show ?thesis using v(4) q(2) Pool_step by simp
  qed
  then show "live_inv n es t" using inv' v(2) by (simp add: live_inv_def sockets_agree_def)
qed

lemma running_open:
  assumes "live_inv n es s" and "i < n_workers (threads (serving s))" and "workers (threads (serving s)) i = W_run c"
  shows "\<exists>k. sockets_now s = Inr k \<and> use_socket c k = Inr k \<and> fst c \<in> open_set k"
proof -
  obtain k where k: "sockets_now s = Inr k"
    "holds (fst ` in_flight (threads (serving s))) (clients (threads (serving s)) 0 = C_idle) k"
    using assms(1) by (auto simp: live_inv_def)
  have "c \<in> in_flight (threads (serving s))" using assms(2,3) by (auto simp: in_flight_def referenced_def)
  then have "fst c \<in> fst ` in_flight (threads (serving s))" by blast
  with holds_use[OF k(2) this] k show ?thesis by (simp add: holds_def)
qed

lemma live_inv_Turn:
  assumes "live_inv n es s" and "live_step (Turn i a) s = Some t"
  shows "live_inv n es t"
  using assms(2)
proof (rule live_Turn)
  fix c assume c: "i < n_workers (threads (serving s))" "workers (threads (serving s)) i = W_run c"
    "t = s\<lparr>left_loop := (left_loop s)(i := fst (request_turn a (echoed s i))),
            echoed := (echoed s)(i := snd (request_turn a (echoed s i))),
            sockets_now := rbind (sockets_now s) (use_socket c)\<rparr>"
  then show "live_inv n es t" using running_open[OF assms(1) c(1,2)] assms(1) by (auto simp: live_inv_def)
qed

interpretation live: transition_system live_step "live_inv n es" for n es
proof unfold_locales
  show "live_inv n es t" if "live_inv n es s" "live_step l s = Some t" for s l t
    using that live_inv_Step live_inv_Turn by (cases l) blast+
qed

subsection \<open>Properties\<close>

text \<open>
  C6 Every descriptor is closed once. Under every interleaving of the accepting thread, the
  workers, the iterations of the connections' loops and the destructor, with a kernel that
  returns no descriptor that is still open, the operations on \<open>SocketHandle\<close> objects never
  close a descriptor that is not open, never use a closed one and never reach for a handle that
  does not exist. At every moment exactly the descriptors of the connections still in flight
  are open: those on their way into the queue, in it, in a worker, or executed before the call
  of \<open>enqueue\<close> that brought them has returned; so each of the others, those that could not be
  set up included, has been closed once. Where the server can go no further, none is open.
\<close>

theorem clients_closed_once:
  assumes "\<forall>e \<in> set es. \<not> pool_stopped e" and "run_labels live_step ls (start_live n es) = Some s"
  shows "\<exists>k. sockets_now s = Inr k \<and> open_set k = fst ` in_flight (threads (serving s)) \<and>
    ((\<forall>l. server_settling l \<longrightarrow> server_step l (serving s) = None) \<longrightarrow> open_set k = {})"
proof -
  have inv: "live_inv n es s" using live.run_labels_inv[OF live_start[OF assms(1)] assms(2)] .
  then obtain k where k: "sockets_now s = Inr k" "open_set k = fst ` in_flight (threads (serving s))"
    by (auto simp: live_inv_def holds_def)
  have s: "serving_inv n es (serving s)" using inv by (simp add: live_inv_def)
  then have r: "reachable n 1 (threads (serving s))" by (simp add: serving_inv_def)
  have "in_flight (threads (serving s)) = {}" if "\<forall>l. server_settling l \<longrightarrow> server_step l (serving s) = None"
  proof -
    have rest: "\<And>l. server_settling l \<Longrightarrow> server_step l (serving s) = None" using that by blast
    have "tp_step l (threads (serving s)) = None" if "internal l" for l
      using rest[of "Pool_step l"] internal_server_step[OF that, of "serving s"] that by (cases l) auto
    note pool = Pool_Liveness.at_rest[OF r this]
    then have "\<And>i c. i < n_workers (threads (serving s)) \<Longrightarrow> workers (threads (serving s)) i \<noteq> W_run c" by force
    with pool show ?thesis by (auto simp: in_flight_def referenced_def held_by_enqueue_def)
  qed
  with k show ?thesis by auto
qed

definition sample_live :: "live_label list" where
  \<comment> \<open>a client is accepted and served, before \<open>enqueue\<close> has returned; a second one cannot be set up\<close>
  "sample_live = [Step Accept] @
     map (\<lambda>l. Step (Pool_step l)) [Lock_client 0, Check 0, Push 0, Lock 0, Test 0, Take 0] @
     [Turn 0 (Recv_data [104, 105], 8), Turn 0 (Recv_error EAGAIN, -1), Turn 0 (Recv_data [], -1)] @
     map (\<lambda>l. Step (Pool_step l)) [Execute 0, Notify_one 0 None] @ [Step Accept] @
     map (\<lambda>l. Step (Pool_step l)) [Store_stop, Notify_all, Lock 0, Test 0, Take 0, Join]"

definition sample_served :: live where
  "sample_served = \<lparr>serving = (after_sample (7, peer_address (sample_client 7 0)))\<lparr>events := [sample_client 7 (-1)],
       clients_seen := \<lparr>pool_tasks = [(7, peer_address (sample_client 7 0))], dropped = [7]\<rparr>\<rparr>,
     left_loop = \<lambda>_. False, echoed = \<lambda>_. [], sockets_now = Inr no_sockets\<rparr>"

lemma sample_live_run:
  "run_labels live_step sample_live (start_live 1 [sample_client 7 0, sample_client 7 (-1)]) = Some sample_served"
  by (simp add: sample_live_def sample_served_def after_sample_def start_live_def start_serving_def accept_step_def sample_client_def
      acceptConnection_def new_connection_def setNonBlocking_def new_tpool_def step_defs kernel_allows_def received_def kBufferSize_def
      no_sockets_def handle_defs use_socket_def referenced_def held_by_enqueue_def Let_def fun_upd_def fun_eq_iff)

theorem clients_closed_once_witness:
  "\<exists>k. sockets_now sample_served = Inr k \<and> open_set k = {}"
proof -
  have "server_settling l \<Longrightarrow> server_step l (serving sample_served) = None" for l
    by (induction l "serving sample_served" rule: server_step.induct)
       (auto simp: sample_served_def after_sample_def accept_step_def new_tpool_def step_defs)
  with clients_closed_once[OF _ sample_live_run] show ?thesis by (auto simp: sample_client_def)
qed

lemma still_silent:
  assumes "live_step l s = Some t" and "workers (threads (serving s)) i = W_run c" and "\<not> left_loop s i"
    and "\<forall>a. l = Turn i a \<longrightarrow> fst a = Recv_error EAGAIN"
  shows "workers (threads (serving t)) i = W_run c \<and> \<not> left_loop t i"
proof (cases l)
  case (Step k)
  from assms(1)[unfolded Step] show ?thesis
  proof (rule live_Step)
    fix v assume v: "server_step k (serving s) = Some v" "serving t = v"
      "\<And>i. k = Pool_step (Execute i) \<Longrightarrow> left_loop s i"
      "\<And>i. k \<noteq> Pool_step (Execute i) \<Longrightarrow> left_loop t i = left_loop s i"
    have k: "k \<noteq> Pool_step (Execute i)" using v(3) assms(3) by blast
    then have "workers (threads v) i = W_run c"
      using server_step_threads[OF v(1)] running_until_executed[of _ "threads (serving s)" "threads v" i c] assms(2) by auto
    then show ?thesis using v(2) v(4)[OF k] assms(3) by simp
  qed
next
  case (Turn j a)
  from assms(1)[unfolded Turn] show ?thesis
  proof (rule live_Turn)
    fix d assume t: "t = s\<lparr>left_loop := (left_loop s)(j := fst (request_turn a (echoed s j))),
            echoed := (echoed s)(j := snd (request_turn a (echoed s j))),
            sockets_now := rbind (sockets_now s) (use_socket d)\<rparr>"
    have "\<not> fst (request_turn a (echoed s j))" if "j = i"
      using assms(4) Turn that by (cases a) simp
    then show ?thesis using t assms(2,3) by (cases "j = i") simp_all
  qed
qed

lemma stays_silent:
  assumes "run_labels live_step later s = Some t" and "workers (threads (serving s)) i = W_run c" and "\<not> left_loop s i"
    and "\<forall>a. Turn i a \<in> set later \<longrightarrow> fst a = Recv_error EAGAIN"
  shows "workers (threads (serving t)) i = W_run c \<and> \<not> left_loop t i"
  using assms
proof (induction later arbitrary: s)
  case (Cons l later)
  then obtain u where u: "live_step l s = Some u" "run_labels live_step later u = Some t"
    by (auto simp: Option.bind_eq_Some_conv)
  have "workers (threads (serving u)) i = W_run c \<and> \<not> left_loop u i"
    using Cons.prems(4) by (intro still_silent[OF u(1) Cons.prems(2,3)]) auto
  with Cons.IH[OF u(2)] Cons.prems(4) show ?case by simp
qed simp

text \<open>
  C15 A silent client blocks the shutdown. Let a worker be in the loop of a connection whose
  client from then on neither sends nor closes, so that every \<open>recv\<close> of this loop finds
  nothing (\<open>EAGAIN\<close>). Then, whatever the accepting thread, the other workers and their
  clients and the destructor do, the worker never leaves the loop: it goes on calling \<open>recv\<close>,
  its socket stays open, and the destructor has not joined it.
\<close>

theorem silent_client_blocks_shutdown:
  assumes "\<forall>e \<in> set es. \<not> pool_stopped e" and "run_labels live_step ls (start_live n es) = Some s"
    and "workers (threads (serving s)) i = W_run c" and "\<not> left_loop s i"
    and "run_labels live_step later s = Some t" and "\<forall>a. Turn i a \<in> set later \<longrightarrow> fst a = Recv_error EAGAIN"
  shows "workers (threads (serving t)) i = W_run c \<and> live_step (Turn i (Recv_error EAGAIN, r)) t = Some t \<and>
    (\<exists>k. sockets_now t = Inr k \<and> fst c \<in> open_set k) \<and>
    (\<forall>j. owner (threads (serving t)) = O_joining j \<longrightarrow> j \<le> i)"
proof -
  note silent = stays_silent[OF assms(5,3,4,6)]
  have inv: "live_inv n es t"
    using live.run_labels_inv[OF live.run_labels_inv[OF live_start[OF assms(1)] assms(2)] assms(5)] .
  then have r: "reachable n 1 (threads (serving t))" by (simp add: live_inv_def serving_inv_def)
  have i: "i < n_workers (threads (serving t))"
    using mutex_reachable[OF r] silent by (auto simp: mutex_inv_def)
  obtain k where k: "sockets_now t = Inr k" "use_socket c k = Inr k" "fst c \<in> open_set k"
    using running_open[OF inv i] silent by blast
  then have "live_step (Turn i (Recv_error EAGAIN, r)) t = Some t" using i silent by (cases t) (auto simp: fun_eq_iff)
  moreover have "j \<le> i" if "owner (threads (serving t)) = O_joining j" for j
  proof (rule ccontr)
    assume "\<not> j \<le> i"
    then have "workers (threads (serving t)) i = W_done"
      using queue_reachable[OF r] that by (simp add: queue_inv_def)
    then show False using silent by simp
  qed
  ultimately show ?thesis using silent k by blast
qed

theorem silent_client_blocks_shutdown_witness:
  \<comment> \<open>the only client is silent; \<open>SIGTERM\<close> ends the accepting loop, and the destructor waits for ever\<close>
  "\<exists>s t. run_labels live_step ([Step Accept] @
        map (\<lambda>l. Step (Pool_step l)) [Lock_client 0, Check 0, Push 0, Notify_one 0 None, Lock 0, Test 0, Take 0])
      (start_live 1 [sample_client 7 0]) = Some s \<and>
    run_labels live_step [Turn 0 (Recv_error EAGAIN, -1), Step Accept, Step (Pool_step Store_stop),
      Step (Pool_step Notify_all), Turn 0 (Recv_error EAGAIN, -1)] s = Some t \<and>
    owner (threads (serving t)) = O_joining 0 \<and> live_step (Turn 0 (Recv_error EAGAIN, -1)) t = Some t"
proof -
  let ?c = "(7, peer_address (sample_client 7 0))"
    and ?a = "[Step Accept] @ map (\<lambda>l. Step (Pool_step l)) [Lock_client 0, Check 0, Push 0, Notify_one 0 None, Lock 0, Test 0, Take 0]"
    and ?b = "[Turn 0 (Recv_error EAGAIN, -1), Step Accept, Step (Pool_step Store_stop), Step (Pool_step Notify_all),
      Turn 0 (Recv_error EAGAIN, -1)]"
  define s where "s = \<lparr>serving = (start_serving 1 [sample_client 7 0])\<lparr>events := [],
      clients_seen := \<lparr>pool_tasks = [?c], dropped = []\<rparr>,
      threads := (new_tpool 1 1)\<lparr>workers := (\<lambda>_. W_idle)(0 := W_run ?c), accepted := [?c], taken := [?c]\<rparr>\<rparr>,
    left_loop = \<lambda>_. False, echoed = \<lambda>_. [],
    sockets_now = Inr \<lparr>handles = Map.empty(9 \<mapsto> 7), open_set = {7}, released = {}\<rparr>\<rparr>"
  define t where "t = s\<lparr>serving := (serving s)\<lparr>loop_over := True,
      threads := (threads (serving s))\<lparr>owner := O_joining 0, stop := True\<rparr>\<rparr>\<rparr>"
  note defs = start_live_def start_serving_def accept_step_def sample_client_def acceptConnection_def new_connection_def
    setNonBlocking_def new_tpool_def step_defs kernel_allows_def no_sockets_def handle_defs use_socket_def referenced_def
    held_by_enqueue_def
  have s: "run_labels live_step ?a (start_live 1 [sample_client 7 0]) = Some s"
    by (simp add: s_def defs Let_def fun_upd_def fun_eq_iff)
  have t: "run_labels live_step ?b s = Some t"
    by (simp add: s_def t_def defs fun_upd_def fun_eq_iff)
  have "\<forall>a. Turn 0 a \<in> set ?b \<longrightarrow> fst a = Recv_error EAGAIN" by auto
  moreover have "workers (threads (serving s)) 0 = W_run ?c" "\<not> left_loop s 0" "owner (threads (serving t)) = O_joining 0"
    by (simp_all add: s_def t_def)
  ultimately show ?thesis
    using silent_client_blocks_shutdown[OF _ s _ _ t, of 0 ?c "-1"] s t by (auto simp: sample_client_def simp del: run_labels.simps live_step.simps)
qed

end
