(* ===== verification/Io_Epoll.thy ===== *)
theory Io_Epoll
  imports Posix
begin

section \<open>Level and edge triggered reading (\<open>linux_server/io_epoll.h\<close>)\<close>

text \<open>
  \<open>lt\<close> reads once for an event and relies on \<open>epoll\<close> to report the rest again; \<open>et\<close> reads
  until nothing is left. The state holds, for every descriptor, the unread bytes of its
  socket, whether the peer has closed, whether the descriptor is open, and the portions
  handed to \<open>printf\<close> (of which \<open>%s\<close> shows the bytes before the first zero); and the
  connections that wait for \<open>accept\<close>.
\<close>

definition BUFFER_SIZE :: nat where "BUFFER_SIZE = 10"
definition EBADF :: int where "EBADF = 9"

record ep_sock =
  unread :: "nat list"
  peer_closed :: bool
  is_open :: bool
  closes :: nat               \<comment> \<open>calls of \<open>close\<close>\<close>
  printed :: "nat list list"

record ep_state =
  socks :: "int \<Rightarrow> ep_sock"
  backlog :: "int list"       \<comment> \<open>what \<open>accept\<close> will return\<close>
  adds :: "(int \<times> bool) list"  \<comment> \<open>calls of \<open>epoll_ctl\<close> with \<open>EPOLL_CTL_ADD\<close>, with or without \<open>EPOLLET\<close>\<close>

subsection \<open>The code\<close>

definition ep_recv :: "nat \<Rightarrow> ep_sock \<Rightarrow> recv_result \<times> ep_sock" where
  "ep_recv n s =
     (if \<not> is_open s then (Recv_error EBADF, s)
      else if unread s = [] then (if peer_closed s then Recv_data [] else Recv_error EAGAIN, s)
      else (Recv_data (take n (unread s)), s\<lparr>unread := drop n (unread s)\<rparr>))"

definition close_sock :: "ep_sock \<Rightarrow> ep_sock" where
  "close_sock s = s\<lparr>is_open := False, closes := closes s + 1\<rparr>"

definition show_content :: "nat list \<Rightarrow> ep_sock \<Rightarrow> ep_sock" where
  "show_content bs s = s\<lparr>printed := printed s @ [bs]\<rparr>"

definition addfd :: "int \<Rightarrow> bool \<Rightarrow> ep_state \<Rightarrow> ep_state" where
  "addfd fd enable_et st = st\<lparr>adds := adds st @ [(fd, enable_et)]\<rparr>"

definition accept_one :: "ep_state \<Rightarrow> int \<times> ep_state" where
  "accept_one st = (case backlog st of [] \<Rightarrow> (-1, st) | c # cs \<Rightarrow> (c, st\<lparr>backlog := cs\<rparr>))"

definition lt_read :: "ep_sock \<Rightarrow> ep_sock" where
  "lt_read s =
     (case ep_recv (BUFFER_SIZE - 1) s of
        (Recv_error _, s1) \<Rightarrow> close_sock s1
      | (Recv_data bs, s1) \<Rightarrow> if bs = [] then close_sock s1 else show_content bs s1)"

definition lt_event :: "int \<Rightarrow> int \<times> bool \<Rightarrow> ep_state \<Rightarrow> ep_state" where
  \<comment> \<open>an event: its descriptor, and whether it has \<open>EPOLLIN\<close>\<close>
  "lt_event listenfd ev st =
     (case ev of (sockfd, is_in) \<Rightarrow>
        if sockfd = listenfd then (case accept_one st of (c, st1) \<Rightarrow> addfd c False st1)
        else if is_in then st\<lparr>socks := (socks st)(sockfd := lt_read (socks st sockfd))\<rparr>
        else st)"

definition lt :: "(int \<times> bool) list \<Rightarrow> int \<Rightarrow> ep_state \<Rightarrow> ep_state" where
  "lt events listenfd st = fold (lt_event listenfd) events st"

fun et_loop :: "nat \<Rightarrow> ep_sock \<Rightarrow> ep_sock res" where
  "et_loop 0 s = Inl Out_of_fuel"
| "et_loop (Suc n) s =
     (case ep_recv (BUFFER_SIZE - 1) s of
        (Recv_error err, s1) \<Rightarrow> if err = EAGAIN then Inr s1 else Inr (close_sock s1)
      | (Recv_data bs, s1) \<Rightarrow> if bs = [] then et_loop n (close_sock s1) else et_loop n (show_content bs s1))"

definition et_read :: "ep_sock \<Rightarrow> ep_sock res" where
  \<comment> \<open>every pass takes a byte, closes the socket or leaves\<close>
  "et_read s = et_loop (length (unread s) + 2) s"

definition et_event :: "int \<Rightarrow> int \<times> bool \<Rightarrow> ep_state \<Rightarrow> ep_state res" where
  "et_event listenfd ev st =
     (case ev of (sockfd, is_in) \<Rightarrow>
        if sockfd = listenfd then (case accept_one st of (c, st1) \<Rightarrow> Inr (addfd c True st1))
        else if is_in then rbind (et_read (socks st sockfd)) (\<lambda>s. Inr (st\<lparr>socks := (socks st)(sockfd := s)\<rparr>))
        else Inr st)"

definition et :: "(int \<times> bool) list \<Rightarrow> int \<Rightarrow> ep_state \<Rightarrow> ep_state res" where
  "et events listenfd st = run_events (et_event listenfd) events st"

fun epoll_loop :: "(int \<times> bool) list option list \<Rightarrow> int \<Rightarrow> ep_state \<Rightarrow> ep_state option" where
  \<comment> \<open>what \<open>epoll_wait\<close> reports, \<open>None\<close> when it fails; the result is \<open>None\<close> while the
    loop still waits\<close>
  "epoll_loop [] listenfd st = None"
| "epoll_loop (None # ws) listenfd st = Some st"
| "epoll_loop (Some events # ws) listenfd st = epoll_loop ws listenfd (lt events listenfd st)"

definition test_epoll_func :: "int \<Rightarrow> int \<Rightarrow> int \<Rightarrow> int \<Rightarrow> (int \<times> bool) list option list \<Rightarrow> ep_state \<Rightarrow> ep_state option res" where
  \<comment> \<open>what \<open>socket\<close>, \<open>bind\<close>, \<open>listen\<close> and \<open>epoll_create\<close> return\<close>
  "test_epoll_func listenfd bind_ret listen_ret epollfd ws st =
     (if listenfd < 0 \<or> bind_ret = -1 \<or> listen_ret = -1 \<or> epollfd = -1 then Inl Assert_failed
      else
        Inr (case epoll_loop ws listenfd (addfd listenfd True st) of
               None \<Rightarrow> None
             | Some st1 \<Rightarrow> Some (st1\<lparr>socks := (socks st1)(listenfd := close_sock (socks st1 listenfd))\<rparr>)))"

subsection \<open>Reading\<close>

fun chunks :: "nat \<Rightarrow> nat list \<Rightarrow> nat list list" where
  "chunks n [] = []"
| "chunks n (b # bs) = (b # take n bs) # chunks n (drop n bs)"

lemma concat_chunks [simp]: "concat (chunks n bs) = bs"
  by (induction n bs rule: chunks.induct) simp_all

lemma chunks_bound: "c \<in> set (chunks n bs) \<Longrightarrow> length c \<le> Suc n"
  by (induction n bs rule: chunks.induct) auto

lemma recv_some:
  "is_open s \<Longrightarrow> unread s = b # bs \<Longrightarrow>
   ep_recv 9 s = (Recv_data (b # take 8 bs), s\<lparr>unread := drop 8 bs\<rparr>)"
  by (simp add: ep_recv_def numeral_eq_Suc)

lemma et_loop_drains:
  assumes "is_open s" and "length (unread s) + 1 < fuel"
  shows "et_loop fuel s =
    Inr (if peer_closed s then s\<lparr>unread := [], is_open := False, closes := closes s + 2, printed := printed s @ chunks 8 (unread s)\<rparr>
         else s\<lparr>unread := [], printed := printed s @ chunks 8 (unread s)\<rparr>)"
  using assms
proof (induction s arbitrary: fuel rule: measure_induct_rule[of "\<lambda>s. length (unread s)"])
  case (less s)
  obtain k where fuel: "fuel = Suc (Suc k)" using less(3) by (cases fuel rule: nat.exhaust) (auto elim: less_natE)
  show ?case
  proof (cases "unread s")
    case Nil
    have "s\<lparr>unread := []\<rparr> = s" using Nil by (cases s) simp
    then show ?thesis using less(2) Nil
      by (cases s) (auto simp: fuel ep_recv_def close_sock_def EBADF_def EAGAIN_def)
  next
    case (Cons b bs)
    define s1 where "s1 = show_content (b # take 8 bs) (s\<lparr>unread := drop 8 bs\<rparr>)"
    have s1: "unread s1 = drop 8 bs" "is_open s1" "peer_closed s1 = peer_closed s" "closes s1 = closes s"
      "printed s1 = printed s @ [b # take 8 bs]" using less(2) by (simp_all add: s1_def show_content_def)
    have "et_loop fuel s = et_loop (Suc k) s1"
      using recv_some[OF less(2) Cons] by (simp add: fuel s1_def BUFFER_SIZE_def)
    also have "\<dots> = Inr (if peer_closed s1 then s1\<lparr>unread := [], is_open := False, closes := closes s1 + 2, printed := printed s1 @ chunks 8 (unread s1)\<rparr>
         else s1\<lparr>unread := [], printed := printed s1 @ chunks 8 (unread s1)\<rparr>)"
      using s1(1,2) less(3) Cons unfolding fuel by (intro less(1)) simp_all
    finally show ?thesis unfolding s1 using Cons by (simp add: s1_def show_content_def)
  qed
qed

lemma lt_reads:
  assumes "is_open s"
  shows "(lt_read ^^ length (chunks 8 (unread s))) s =
    s\<lparr>unread := [], printed := printed s @ chunks 8 (unread s)\<rparr>"
  using assms
proof (induction s rule: measure_induct_rule[of "\<lambda>s. length (unread s)"])
  case (less s)
  show ?case
  proof (cases "unread s")
    case Nil
    then show ?thesis by (cases s) simp
  next
    case (Cons b bs)
    define s1 where "s1 = show_content (b # take 8 bs) (s\<lparr>unread := drop 8 bs\<rparr>)"
    have s1: "unread s1 = drop 8 bs" "is_open s1" using less(2) by (simp_all add: s1_def show_content_def)
    have "lt_read s = s1"
      using recv_some[OF less(2) Cons] by (simp add: lt_read_def s1_def BUFFER_SIZE_def)
    then have "(lt_read ^^ length (chunks 8 (unread s))) s = (lt_read ^^ length (chunks 8 (unread s1))) s1"
      by (simp add: Cons s1(1) funpow_swap1)
    also have "\<dots> = s1\<lparr>unread := [], printed := printed s1 @ chunks 8 (unread s1)\<rparr>"
      using s1 Cons by (intro less(1)) simp_all
    finally show ?thesis using Cons by (simp add: s1_def show_content_def)
  qed
qed

subsection \<open>Properties\<close>

text \<open>
  C37 Both modes deliver the stream. For an open socket whose peer has not closed, one edge
  triggered event reads all unread bytes and leaves the socket open; the level triggered
  reader needs one event for every nine bytes or fewer, as many as \<open>epoll\<close> reports, and
  prints the same portions: together the whole stream, in order.
\<close>

theorem level_and_edge_agree:
  assumes "is_open s" and "\<not> peer_closed s"
  shows "et_read s = Inr ((lt_read ^^ length (chunks 8 (unread s))) s) \<and>
    (\<exists>t. et_read s = Inr t \<and> unread t = [] \<and> is_open t \<and> concat (printed t) = concat (printed s) @ unread s)"
  using et_loop_drains[OF assms(1), of "length (unread s) + 2"] lt_reads[OF assms(1)] assms
  by (simp add: et_read_def)

definition sample_sock :: "bool \<Rightarrow> ep_sock" where
  "sample_sock eof = \<lparr>unread = [1, 2, 3, 4, 5, 6, 7, 8, 9, 10, 11], peer_closed = eof, is_open = True, closes = 0, printed = []\<rparr>"

theorem level_and_edge_agree_witness:
  "\<exists>t. et_read (sample_sock False) = Inr t \<and> is_open t \<and> concat (printed t) = [1, 2, 3, 4, 5, 6, 7, 8, 9, 10, 11]"
  using level_and_edge_agree[of "sample_sock False"] by (auto simp: sample_sock_def)

text \<open>
  The edge triggered reader closes twice. When the peer has closed, \<open>et\<close> reads what is
  left and closes the descriptor, but goes on with its loop: \<open>recv\<close> fails on the closed
  descriptor, and \<open>close\<close> is called a second time.
\<close>

theorem edge_triggered_closes_twice:
  assumes "is_open s" and "peer_closed s"
  shows "\<exists>t. et_read s = Inr t \<and> closes t = closes s + 2 \<and> concat (printed t) = concat (printed s) @ unread s"
  using et_loop_drains[OF assms(1), of "length (unread s) + 2"] assms by (simp add: et_read_def)

theorem edge_triggered_closes_twice_witness:
  "\<exists>t. et_read (sample_sock True) = Inr t \<and> closes t = 2"
  using edge_triggered_closes_twice[of "sample_sock True"] by (auto simp: sample_sock_def)

definition listen_events :: "int \<Rightarrow> (int \<times> bool) list \<Rightarrow> nat" where
  "listen_events listenfd events = length (filter (\<lambda>ev. fst ev = listenfd) events)"

text \<open>
  One client for one event. Over any batch of events \<open>lt\<close> accepts as many clients as
  there are events for the listening descriptor, in the order in which they wait; the others
  stay in the backlog, though the descriptor is registered edge triggered and is not
  reported again for them. Every further event hands the \<open>-1\<close> of a failed \<open>accept\<close> to \<open>addfd\<close>.
\<close>

theorem one_event_accepts_one_client:
  "backlog (lt events listenfd st) = drop (listen_events listenfd events) (backlog st) \<and>
   adds (lt events listenfd st) = adds st @
     map (\<lambda>c. (c, False)) (take (listen_events listenfd events) (backlog st)) @
     replicate (listen_events listenfd events - length (backlog st)) (-1, False)"
proof (induction events arbitrary: st)
  case Nil
  then show ?case by (simp add: lt_def listen_events_def)
next
  case (Cons ev events)
  have step: "lt (ev # events) listenfd st = lt events listenfd (lt_event listenfd ev st)"
    by (simp add: lt_def)
  show ?case
  proof (cases "fst ev = listenfd")
    case False
    then have "backlog (lt_event listenfd ev st) = backlog st" "adds (lt_event listenfd ev st) = adds st"
      by (auto simp: lt_event_def split: prod.split)
    moreover have "listen_events listenfd (ev # events) = listen_events listenfd events"
      using False by (simp add: listen_events_def)
    ultimately show ?thesis using Cons.IH[of "lt_event listenfd ev st"] by (simp add: step)
  next
    case True
    then have n: "listen_events listenfd (ev # events) = Suc (listen_events listenfd events)"
      by (simp add: listen_events_def)
    show ?thesis
    proof (cases "backlog st")
      case Nil
      then have "backlog (lt_event listenfd ev st) = []" "adds (lt_event listenfd ev st) = adds st @ [(-1, False)]"
        using True by (auto simp: lt_event_def accept_one_def addfd_def split: prod.split)
      then show ?thesis using Cons.IH[of "lt_event listenfd ev st"] Nil by (simp add: step n)
    next
      case (Cons c cs)
      then have "backlog (lt_event listenfd ev st) = cs" "adds (lt_event listenfd ev st) = adds st @ [(c, False)]"
        using True by (auto simp: lt_event_def accept_one_def addfd_def split: prod.split)
      then show ?thesis using Cons.IH[of "lt_event listenfd ev st"] Cons by (simp add: step n)
    qed
  qed
qed

end
