(* ===== verification/Epoll_Demo.thy ===== *)
theory Epoll_Demo
  imports Posix
begin

section \<open>Level and edge triggering on the terminal (\<open>demo.h\<close>)\<close>

text \<open>
  The functions of \<open>demo.h\<close> register the standard input or the standard output with
  \<open>epoll\<close> and print for every event. The kernel, the C library and the terminal are not part of
  the repository: they are the argument \<open>K\<close> of the demonstrations, with a state of its own.
  What the demonstrations rely on is stated by three locales, after the manual pages of
  \<open>epoll\<close>, \<open>read\<close> and \<open>stdio\<close>: level triggered reading, edge triggered writing and edge
  triggered reading. The last part gives one system that satisfies the three.
\<close>

subsection \<open>What the demonstrations call\<close>

datatype stream = Stdin | Stdout

record 'k terminal_api =
  ctl_add :: "stream \<Rightarrow> bool \<Rightarrow> 'k \<Rightarrow> 'k"       \<comment> \<open>\<open>EPOLL_CTL_ADD\<close> of a stream, with or without \<open>EPOLLET\<close>\<close>
  ctl_mod :: "stream \<Rightarrow> bool \<Rightarrow> 'k \<Rightarrow> 'k"
  wait_event :: "'k \<Rightarrow> 'k option"                \<comment> \<open>\<open>epoll_wait\<close> without a timeout; \<open>None\<close>: it blocks\<close>
  print_bytes :: "nat list \<Rightarrow> 'k \<Rightarrow> 'k"          \<comment> \<open>\<open>printf\<close>\<close>
  read_bytes :: "nat \<Rightarrow> 'k \<Rightarrow> nat list \<times> 'k"     \<comment> \<open>\<open>read\<close> from the standard input\<close>
  type_bytes :: "nat list \<Rightarrow> 'k \<Rightarrow> 'k"           \<comment> \<open>what the user does\<close>

subsection \<open>The loops\<close>

fun rounds :: "'k terminal_api \<Rightarrow> ('k \<Rightarrow> 'k res) \<Rightarrow> nat \<Rightarrow> 'k \<Rightarrow> (nat \<times> 'k) res" where
  \<comment> \<open>at most \<open>n\<close> rounds of \<open>for (;;)\<close>, up to the first that blocks, and how many there were;
    there is one registered descriptor, so a round has one event\<close>
  "rounds K body 0 t = Inr (0, t)"
| "rounds K body (Suc n) t =
     (case wait_event K t of
        None \<Rightarrow> Inr (0, t)
      | Some t1 \<Rightarrow> rbind (body t1) (\<lambda>t2. rbind (rounds K body n t2) (\<lambda>(k, t3). Inr (Suc k, t3))))"

fun session :: "'k terminal_api \<Rightarrow> ('k \<Rightarrow> 'k res) \<Rightarrow> (nat list \<times> nat) list \<Rightarrow> 'k \<Rightarrow> 'k res" where
  \<comment> \<open>what the user types, and how many rounds the program has time for before the next input\<close>
  "session K body [] t = Inr t"
| "session K body ((bs, n) # script) t =
     rbind (rounds K body n (type_bytes K bs t)) (\<lambda>(k, t1). session K body script t1)"

definition greeting :: "nat list" where "greeting = bytes_of ''Welcome to epoll''"

definition pure_ET :: "'k terminal_api \<Rightarrow> (nat list \<times> nat) list \<Rightarrow> 'k \<Rightarrow> 'k res" where
  "pure_ET K script t =
     session K (\<lambda>t. Inr (print_bytes K (greeting @ [10]) t)) script (ctl_add K Stdin True t)"

definition pure_LT :: "'k terminal_api \<Rightarrow> (nat list \<times> nat) list \<Rightarrow> 'k \<Rightarrow> 'k res" where
  "pure_LT K script t =
     session K (\<lambda>t. Inr (print_bytes K (greeting @ [10]) t)) script (ctl_add K Stdin False t)"

definition readout :: "'k terminal_api \<Rightarrow> 'k \<Rightarrow> 'k res" where
  \<comment> \<open>the buffer of 1024 bytes is filled with zeros before\<close>
  "readout K t =
     (case read_bytes K 1024 t of (bs, t1) \<Rightarrow>
        let buf = bs @ replicate (1024 - length bs) 0 in
        if 0 \<in> set buf then Inr (print_bytes K (greeting @ bytes_of '', buf '' @ c_string buf @ [10]) t1)
        else Inl Out_of_bounds)"

definition readout_LT :: "'k terminal_api \<Rightarrow> (nat list \<times> nat) list \<Rightarrow> 'k \<Rightarrow> 'k res" where
  "readout_LT K script t = session K (readout K) script (ctl_add K Stdin False t)"

definition Reset_ET :: "'k terminal_api \<Rightarrow> (nat list \<times> nat) list \<Rightarrow> 'k \<Rightarrow> 'k res" where
  "Reset_ET K script t =
     session K (\<lambda>t. Inr (ctl_mod K Stdin True (print_bytes K (greeting @ [10]) t))) script (ctl_add K Stdin True t)"

definition Write_ET_loop :: "'k terminal_api \<Rightarrow> nat \<Rightarrow> 'k \<Rightarrow> (nat \<times> 'k) res" where
  "Write_ET_loop K m t = rounds K (\<lambda>t. Inr (print_bytes K (greeting @ [10]) t)) m (ctl_add K Stdout True t)"

definition Write_ET_hang :: "'k terminal_api \<Rightarrow> nat \<Rightarrow> 'k \<Rightarrow> (nat \<times> 'k) res" where
  "Write_ET_hang K m t = rounds K (\<lambda>t. Inr (print_bytes K greeting t)) m (ctl_add K Stdout True t)"

definition Write_LT_loop :: "'k terminal_api \<Rightarrow> nat \<Rightarrow> 'k \<Rightarrow> (nat \<times> 'k) res" where
  "Write_LT_loop K m t = rounds K (\<lambda>t. Inr (print_bytes K greeting t)) m (ctl_add K Stdout False t)"

definition Write_ET_RELoad :: "'k terminal_api \<Rightarrow> nat \<Rightarrow> 'k \<Rightarrow> (nat \<times> 'k) res" where
  "Write_ET_RELoad K m t =
     rounds K (\<lambda>t. Inr (ctl_mod K Stdout True (print_bytes K greeting t))) m (ctl_add K Stdout True t)"

lemma rounds_blocked: "wait_event K t = None \<Longrightarrow> rounds K body m t = Inr (0, t)"
  by (cases m) simp_all

lemma greeting_length [simp]: "length greeting = 16"
  by (simp add: greeting_def bytes_of_def)

lemma greeting_line [simp]: "10 \<notin> set greeting"
  by (simp add: greeting_def bytes_of_def)

subsection \<open>Level triggered reading\<close>

text \<open>
  \<open>reg\<close>: the standard input is registered without \<open>EPOLLET\<close> and the output ends with a line;
  \<open>epoll_wait\<close> returns exactly if there is something to read; \<open>read\<close> takes the first bytes;
  a line that is printed appears on the terminal.
\<close>

locale level_reader =
  fixes K :: "'k terminal_api" and idle reg :: "'k \<Rightarrow> bool" and unread shown :: "'k \<Rightarrow> nat list"
  assumes add_reg: "idle k \<Longrightarrow> reg (ctl_add K Stdin False k) \<and>
      unread (ctl_add K Stdin False k) = unread k \<and> shown (ctl_add K Stdin False k) = shown k"
    and wait_readable: "reg k \<Longrightarrow> unread k \<noteq> [] \<Longrightarrow>
      \<exists>t. wait_event K k = Some t \<and> reg t \<and> unread t = unread k \<and> shown t = shown k"
    and wait_blocks: "reg k \<Longrightarrow> unread k = [] \<Longrightarrow> wait_event K k = None"
    and read_first: "reg k \<Longrightarrow> \<exists>t. read_bytes K n k = (take n (unread k), t) \<and> reg t \<and>
      unread t = drop n (unread k) \<and> shown t = shown k"
    and print_line: "reg k \<Longrightarrow> reg (print_bytes K (bs @ [10]) k) \<and>
      unread (print_bytes K (bs @ [10]) k) = unread k \<and>
      shown (print_bytes K (bs @ [10]) k) = shown k @ bs @ [10]"
    and typed: "reg k \<Longrightarrow> reg (type_bytes K bs k) \<and> unread (type_bytes K bs k) = unread k @ bs \<and>
      shown (type_bytes K bs k) = shown k"

definition answer :: "nat list \<Rightarrow> nat list" where
  \<comment> \<open>the line for an input: the string in the buffer ends at the first zero byte\<close>
  "answer bs = greeting @ bytes_of '', buf '' @ takeWhile (\<lambda>b. b \<noteq> 0) bs @ [10]"

definition overlong :: "nat list \<Rightarrow> bool" where
  "overlong bs \<longleftrightarrow> 1024 \<le> length bs \<and> 0 \<notin> set (take 1024 bs)"

lemma c_string_buffer: "c_string (bs @ replicate n 0) = takeWhile (\<lambda>b. b \<noteq> 0) bs"
  by (induction bs) (simp_all add: c_string_def)

context level_reader begin

lemma readout_line:
  assumes "reg k" and "length (unread k) < 1024"
  shows "\<exists>t. readout K k = Inr t \<and> reg t \<and> unread t = [] \<and> shown t = shown k @ answer (unread k)"
proof -
  obtain t where t: "read_bytes K 1024 k = (unread k, t)" "reg t" "unread t = []" "shown t = shown k"
    using read_first[OF assms(1), of 1024] assms(2) by auto
  have "0 \<in> set (unread k @ replicate (1024 - length (unread k)) 0)" using assms(2) by simp
  then have "readout K k = Inr (print_bytes K (answer (unread k)) t)"
    using t(1) by (simp add: readout_def Let_def answer_def c_string_buffer)
  with print_line[OF t(2), of "greeting @ bytes_of '', buf '' @ takeWhile (\<lambda>b. b \<noteq> 0) (unread k)"] t(3,4)
  show ?thesis by (simp add: answer_def)
qed

lemma readout_overrun:
  assumes "reg k" and "overlong (unread k)"
  shows "readout K k = Inl Out_of_bounds"
proof -
  obtain t where "read_bytes K 1024 k = (take 1024 (unread k), t)"
    using read_first[OF assms(1), of 1024] by auto
  then show ?thesis using assms(2) by (simp add: readout_def Let_def overlong_def)
qed

lemma reading_rounds:
  assumes "reg k" and "unread k = []" and "0 < m" and "length bs < 1024 \<or> overlong bs"
  shows "if overlong bs then rounds K (readout K) m (type_bytes K bs k) = Inl Out_of_bounds
    else \<exists>n t. rounds K (readout K) m (type_bytes K bs k) = Inr (n, t) \<and> reg t \<and> unread t = [] \<and>
      shown t = shown k @ (if bs = [] then [] else answer bs)"
proof -
  let ?k = "type_bytes K bs k"
  obtain m' where m: "m = Suc m'" using assms(3) by (cases m) auto
  have k: "reg ?k" "unread ?k = bs" "shown ?k = shown k" using typed[OF assms(1), of bs] assms(2) by simp_all
  show ?thesis
  proof (cases "bs = []")
    case True
    then show ?thesis using k wait_blocks[OF k(1)] by (simp add: rounds_blocked overlong_def)
  next
    case False
    then obtain u where u: "wait_event K ?k = Some u" "reg u" "unread u = bs" "shown u = shown k"
      using wait_readable[OF k(1)] k(2,3) by auto
    show ?thesis
    proof (cases "overlong bs")
      case True
      then show ?thesis using readout_overrun[OF u(2)] u(1,3) by (simp add: m)
    next
      case short: False
      then obtain t where t: "readout K u = Inr t" "reg t" "unread t = []" "shown t = shown u @ answer bs"
        using readout_line[OF u(2)] assms(4) u(3) by auto
      then have "rounds K (readout K) m ?k = Inr (1, t)"
        using u(1) rounds_blocked[OF wait_blocks[OF t(2,3)], of "readout K" m'] by (simp add: m)
      then show ?thesis using t u(4) False short by simp
    qed
  qed
qed

lemma reading_session:
  "reg k \<Longrightarrow> unread k = [] \<Longrightarrow> \<forall>(bs, m) \<in> set script. 0 < m \<and> (length bs < 1024 \<or> overlong bs) \<Longrightarrow>
   if \<exists>(bs, m) \<in> set script. overlong bs then session K (readout K) script k = Inl Out_of_bounds
   else \<exists>t. session K (readout K) script k = Inr t \<and> wait_event K t = None \<and> unread t = [] \<and>
     shown t = shown k @ concat (map answer (filter (\<lambda>bs. bs \<noteq> []) (map fst script)))"
proof (induction script arbitrary: k)
  case Nil
  then show ?case using wait_blocks by simp
next
  case (Cons e script)
  obtain b m where e: "e = (b, m)" by fastforce
  then have b: "0 < m" "length b < 1024 \<or> overlong b" using Cons.prems(3) by auto
  from reading_rounds[OF Cons.prems(1,2) b] show ?case
  proof (cases "overlong b")
    case False
    with reading_rounds[OF Cons.prems(1,2) b] obtain n t where
      t: "rounds K (readout K) m (type_bytes K b k) = Inr (n, t)" "reg t" "unread t = []"
        "shown t = shown k @ (if b = [] then [] else answer b)" by auto
    have script: "\<forall>(bs, m) \<in> set script. 0 < m \<and> (length bs < 1024 \<or> overlong bs)" using Cons.prems(3) by simp
    show ?thesis
    proof (cases "\<exists>(bs, m) \<in> set script. overlong bs")
      case True
      then show ?thesis using Cons.IH[OF t(2,3) script] by (simp add: e t(1) False)
    next
      case short: False
      then obtain u where "session K (readout K) script t = Inr u" "wait_event K u = None" "unread u = []"
        "shown u = shown t @ concat (map answer (filter (\<lambda>bs. bs \<noteq> []) (map fst script)))"
        using Cons.IH[OF t(2,3) script] by (simp only: if_False) blast
      then show ?thesis using short by (simp add: e t(1,4) False)
    qed
  qed (simp add: e)
qed

end

subsection \<open>Edge triggered writing\<close>

text \<open>
  \<open>reg\<close>: the standard output is registered with \<open>EPOLLET\<close>; \<open>pend\<close>: its state has changed since
  it was last reported. Registering and \<open>EPOLL_CTL_MOD\<close> make a writable descriptor pending,
  reporting it clears this. \<open>printf\<close> hands the text to the terminal at the end of a line, and
  that changes the state of the output; a text without a line end that fits into the buffer of
  \<open>room\<close> bytes stays there.
\<close>

locale edge_writer =
  fixes K :: "'k terminal_api" and idle reg pend :: "'k \<Rightarrow> bool" and buffered shown :: "'k \<Rightarrow> nat list"
    and room :: nat
  assumes add_reg: "idle k \<Longrightarrow> reg (ctl_add K Stdout True k) \<and> pend (ctl_add K Stdout True k) \<and>
      buffered (ctl_add K Stdout True k) = buffered k \<and> shown (ctl_add K Stdout True k) = shown k"
    and mod_pend: "reg k \<Longrightarrow> reg (ctl_mod K Stdout True k) \<and> pend (ctl_mod K Stdout True k) \<and>
      buffered (ctl_mod K Stdout True k) = buffered k \<and> shown (ctl_mod K Stdout True k) = shown k"
    and wait_pending: "reg k \<Longrightarrow> pend k \<Longrightarrow> \<exists>t. wait_event K k = Some t \<and> reg t \<and> \<not> pend t \<and>
      buffered t = buffered k \<and> shown t = shown k"
    and wait_blocks: "reg k \<Longrightarrow> \<not> pend k \<Longrightarrow> wait_event K k = None"
    and print_reg: "reg k \<Longrightarrow> reg (print_bytes K bs k) \<and>
      shown (print_bytes K bs k) @ buffered (print_bytes K bs k) = shown k @ buffered k @ bs"
    and print_line: "reg k \<Longrightarrow> pend (print_bytes K (bs @ [10]) k) \<and> buffered (print_bytes K (bs @ [10]) k) = []"
    and print_buffered: "reg k \<Longrightarrow> 10 \<notin> set bs \<Longrightarrow> length (buffered k) + length bs < room \<Longrightarrow>
      pend (print_bytes K bs k) = pend k \<and> buffered (print_bytes K bs k) = buffered k @ bs"

context edge_writer begin

lemma hangs:
  assumes "reg k" and "pend k" and "length (buffered k) + 16 < room"
  shows "\<exists>t. rounds K (\<lambda>t. Inr (print_bytes K greeting t)) (Suc m) k = Inr (1, t) \<and> wait_event K t = None \<and>
    shown t = shown k \<and> buffered t = buffered k @ greeting"
proof -
  obtain u where u: "wait_event K k = Some u" "reg u" "\<not> pend u" "buffered u = buffered k" "shown u = shown k"
    using wait_pending[OF assms(1,2)] by blast
  let ?t = "print_bytes K greeting u"
  have t: "\<not> pend ?t" "buffered ?t = buffered k @ greeting"
    using print_buffered[OF u(2), of greeting] u(3,4) assms(3) by auto
  moreover have "reg ?t" "shown ?t @ buffered ?t = shown u @ buffered u @ greeting"
    using print_reg[OF u(2), of greeting] by auto
  ultimately have "wait_event K ?t = None" "shown ?t = shown k" using wait_blocks u(4,5) by auto
  moreover from this(1) have "rounds K (\<lambda>t. Inr (print_bytes K greeting t)) (Suc m) k = Inr (1, ?t)"
    by (simp add: u(1) rounds_blocked)
  ultimately show ?thesis using t(2) by blast
qed

lemma lines:
  "reg k \<Longrightarrow> pend k \<Longrightarrow> buffered k = [] \<Longrightarrow>
   \<exists>t. rounds K (\<lambda>t. Inr (print_bytes K (greeting @ [10]) t)) m k = Inr (m, t) \<and>
     shown t = shown k @ concat (replicate m (greeting @ [10]))"
proof (induction m arbitrary: k)
  case (Suc m)
  obtain u where u: "wait_event K k = Some u" "reg u" "buffered u = []" "shown u = shown k"
    using wait_pending[OF Suc.prems(1,2)] Suc.prems(3) by auto
  let ?t = "print_bytes K (greeting @ [10]) u"
  have "reg ?t" "pend ?t" "buffered ?t = []" "shown ?t = shown k @ greeting @ [10]"
    using print_reg[OF u(2), of "greeting @ [10]"] print_line[OF u(2), of greeting] u(3,4) by auto
  with Suc.IH[of ?t] show ?case by (auto simp: u(1))
qed simp

lemma reloads:
  "reg k \<Longrightarrow> pend k \<Longrightarrow>
   \<exists>t. rounds K (\<lambda>t. Inr (ctl_mod K Stdout True (print_bytes K greeting t))) m k = Inr (m, t) \<and>
     shown t @ buffered t = shown k @ buffered k @ concat (replicate m greeting)"
proof (induction m arbitrary: k)
  case (Suc m)
  obtain u where u: "wait_event K k = Some u" "reg u" "buffered u = buffered k" "shown u = shown k"
    using wait_pending[OF Suc.prems] by blast
  let ?t = "ctl_mod K Stdout True (print_bytes K greeting u)"
  have p: "reg (print_bytes K greeting u)"
    "shown (print_bytes K greeting u) @ buffered (print_bytes K greeting u) = shown k @ buffered k @ greeting"
    using print_reg[OF u(2), of greeting] u(3,4) by auto
  then have "reg ?t" "pend ?t" "shown ?t @ buffered ?t = shown k @ buffered k @ greeting"
    using mod_pend[OF p(1)] by auto
  with Suc.IH[of ?t] show ?case by (auto simp: u(1))
qed simp

end

subsection \<open>Edge triggered reading\<close>

text \<open>
  \<open>reg\<close>: the standard input is registered with \<open>EPOLLET\<close> and the output ends with a line. New
  input changes the state of the descriptor, printing does not; \<open>EPOLL_CTL_MOD\<close> makes a
  readable descriptor pending again.
\<close>

locale edge_reader =
  fixes K :: "'k terminal_api" and idle reg pend :: "'k \<Rightarrow> bool" and unread shown :: "'k \<Rightarrow> nat list"
  assumes add_reg: "idle k \<Longrightarrow> unread k = [] \<Longrightarrow> reg (ctl_add K Stdin True k) \<and> \<not> pend (ctl_add K Stdin True k) \<and>
      unread (ctl_add K Stdin True k) = [] \<and> shown (ctl_add K Stdin True k) = shown k"
    and mod_pend: "reg k \<Longrightarrow> unread k \<noteq> [] \<Longrightarrow> reg (ctl_mod K Stdin True k) \<and> pend (ctl_mod K Stdin True k) \<and>
      unread (ctl_mod K Stdin True k) = unread k \<and> shown (ctl_mod K Stdin True k) = shown k"
    and wait_pending: "reg k \<Longrightarrow> pend k \<Longrightarrow> unread k \<noteq> [] \<Longrightarrow> \<exists>t. wait_event K k = Some t \<and> reg t \<and> \<not> pend t \<and>
      unread t = unread k \<and> shown t = shown k"
    and wait_blocks: "reg k \<Longrightarrow> \<not> pend k \<Longrightarrow> wait_event K k = None"
    and print_line: "reg k \<Longrightarrow> reg (print_bytes K (bs @ [10]) k) \<and> pend (print_bytes K (bs @ [10]) k) = pend k \<and>
      unread (print_bytes K (bs @ [10]) k) = unread k \<and>
      shown (print_bytes K (bs @ [10]) k) = shown k @ bs @ [10]"
    and typed: "reg k \<Longrightarrow> reg (type_bytes K bs k) \<and> pend (type_bytes K bs k) = (pend k \<or> bs \<noteq> []) \<and>
      unread (type_bytes K bs k) = unread k @ bs \<and> shown (type_bytes K bs k) = shown k"

context edge_reader begin

lemma reports_once:
  assumes "reg k" and "\<not> pend k" and "0 < m"
  shows "\<exists>n t. rounds K (\<lambda>t. Inr (print_bytes K (greeting @ [10]) t)) m (type_bytes K bs k) = Inr (n, t) \<and>
    reg t \<and> \<not> pend t \<and> unread t = unread k @ bs \<and>
    shown t = shown k @ (if bs = [] then [] else greeting @ [10])"
proof -
  let ?k = "type_bytes K bs k"
  obtain m' where m: "m = Suc m'" using assms(3) by (cases m) auto
  have k: "reg ?k" "pend ?k = (bs \<noteq> [])" "unread ?k = unread k @ bs" "shown ?k = shown k"
    using typed[OF assms(1), of bs] assms(2) by simp_all
  show ?thesis
  proof (cases "bs = []")
    case True
    then have "wait_event K ?k = None" using wait_blocks[OF k(1)] k(2) by simp
    then show ?thesis using k True by (intro exI[of _ 0] exI[of _ ?k]) (simp add: rounds_blocked)
  next
    case False
    then obtain u where u: "wait_event K ?k = Some u" "reg u" "\<not> pend u" "unread u = unread k @ bs" "shown u = shown k"
      using wait_pending[OF k(1)] k by auto
    let ?t = "print_bytes K (greeting @ [10]) u"
    have t: "reg ?t" "\<not> pend ?t" "unread ?t = unread k @ bs" "shown ?t = shown k @ greeting @ [10]"
      using print_line[OF u(2), of greeting] u(3-5) by auto
    then have "rounds K (\<lambda>t. Inr (print_bytes K (greeting @ [10]) t)) m ?k = Inr (1, ?t)"
      by (simp add: m u(1) rounds_blocked[OF wait_blocks])
    then show ?thesis using t False by auto
  qed
qed

lemma one_line_each:
  "reg k \<Longrightarrow> \<not> pend k \<Longrightarrow> \<forall>(bs, m) \<in> set script. 0 < m \<Longrightarrow>
   \<exists>t. session K (\<lambda>t. Inr (print_bytes K (greeting @ [10]) t)) script k = Inr t \<and>
     unread t = unread k @ concat (map fst script) \<and>
     shown t = shown k @ concat (replicate (length (filter (\<lambda>bs. bs \<noteq> []) (map fst script))) (greeting @ [10]))"
proof (induction script arbitrary: k)
  case (Cons e script)
  obtain b m where e: "e = (b, m)" "0 < m" using Cons.prems(3) by fastforce
  obtain n t where r: "rounds K (\<lambda>t. Inr (print_bytes K (greeting @ [10]) t)) m (type_bytes K b k) = Inr (n, t)"
    and t: "reg t" "\<not> pend t" "unread t = unread k @ b"
      "shown t = shown k @ (if b = [] then [] else greeting @ [10])"
    using reports_once[OF Cons.prems(1,2) e(2), of b] by blast
  from Cons.IH[OF t(1,2)] Cons.prems(3) show ?case by (auto simp: e(1) r t(3,4))
qed simp

lemma resets:
  "reg k \<Longrightarrow> pend k \<Longrightarrow> unread k \<noteq> [] \<Longrightarrow>
   \<exists>t. rounds K (\<lambda>t. Inr (ctl_mod K Stdin True (print_bytes K (greeting @ [10]) t))) m k = Inr (m, t) \<and>
     shown t = shown k @ concat (replicate m (greeting @ [10]))"
proof (induction m arbitrary: k)
  case (Suc m)
  obtain u where u: "wait_event K k = Some u" "reg u" "unread u = unread k" "shown u = shown k"
    using wait_pending[OF Suc.prems] by blast
  let ?p = "print_bytes K (greeting @ [10]) u"
  have p: "reg ?p" "unread ?p \<noteq> []" "shown ?p = shown k @ greeting @ [10]"
    using print_line[OF u(2), of greeting] u(3,4) Suc.prems(3) by auto
  let ?t = "ctl_mod K Stdin True ?p"
  have "reg ?t" "pend ?t" "unread ?t \<noteq> []" "shown ?t = shown k @ greeting @ [10]"
    using mod_pend[OF p(1,2)] p(2,3) by auto
  with Suc.IH[of ?t] show ?case by (auto simp: u(1))
qed simp

end

subsection \<open>A system that satisfies the three\<close>

text \<open>
  As the comments of the file describe it: a descriptor has an item that a change of its
  state, \<open>EPOLL_CTL_ADD\<close> and \<open>EPOLL_CTL_MOD\<close> put on the ready list; \<open>epoll_wait\<close> reports an
  item of the list whose condition holds, and takes it off the list if it is edge triggered.
  The output has a line buffer of \<open>n\<close> bytes.
\<close>

record tty =
  input :: "nat list"                    \<comment> \<open>typed and not yet read\<close>
  stdio :: "nat list"                    \<comment> \<open>printed and not yet handed to the terminal\<close>
  screen :: "nat list"
  interest :: "(stream \<times> bool) option"   \<comment> \<open>the registered stream, and whether with \<open>EPOLLET\<close>\<close>
  ready :: bool                          \<comment> \<open>its item is on the ready list\<close>

fun condition :: "stream \<Rightarrow> tty \<Rightarrow> bool" where
  "condition Stdin t \<longleftrightarrow> input t \<noteq> []"
| "condition Stdout t \<longleftrightarrow> True"

definition changed :: "stream \<Rightarrow> tty \<Rightarrow> tty" where
  "changed w t = (if map_option fst (interest t) = Some w then t\<lparr>ready := True\<rparr> else t)"

definition put_byte :: "nat \<Rightarrow> nat \<Rightarrow> tty \<Rightarrow> tty" where
  "put_byte n b t =
     (let out = stdio t @ [b] in
      if b = 10 \<or> n \<le> length out then changed Stdout (t\<lparr>stdio := [], screen := screen t @ out\<rparr>)
      else t\<lparr>stdio := out\<rparr>)"

definition tty_api :: "nat \<Rightarrow> tty terminal_api" where
  "tty_api n = \<lparr>
     ctl_add = (\<lambda>w et t. if interest t = None then t\<lparr>interest := Some (w, et), ready := condition w t\<rparr> else t),
     ctl_mod = (\<lambda>w et t. if interest t = None then t else t\<lparr>interest := Some (w, et), ready := ready t \<or> condition w t\<rparr>),
     wait_event = (\<lambda>t. case interest t of None \<Rightarrow> None
       | Some (w, et) \<Rightarrow> if ready t \<and> condition w t then Some (t\<lparr>ready := \<not> et\<rparr>) else None),
     print_bytes = (\<lambda>bs t. fold (put_byte n) bs t),
     read_bytes = (\<lambda>k t. (take k (input t), t\<lparr>input := drop k (input t)\<rparr>)),
     type_bytes = (\<lambda>bs t. if bs = [] then t else changed Stdin (t\<lparr>input := input t @ bs\<rparr>))\<rparr>"

definition at_start :: "tty \<Rightarrow> bool" where
  "at_start t \<longleftrightarrow> interest t = None \<and> stdio t = []"

lemma put_fields [simp]:
  "input (put_byte n b t) = input t" "interest (put_byte n b t) = interest t"
  by (simp_all add: put_byte_def changed_def Let_def)

lemma puts_fields [simp]:
  "input (fold (put_byte n) bs t) = input t" "interest (fold (put_byte n) bs t) = interest t"
  by (induction bs arbitrary: t) simp_all

lemma puts_output: "screen (fold (put_byte n) bs t) @ stdio (fold (put_byte n) bs t) = screen t @ stdio t @ bs"
proof (induction bs arbitrary: t)
  case (Cons b bs)
  have "screen (put_byte n b t) @ stdio (put_byte n b t) = screen t @ stdio t @ [b]"
    by (simp add: put_byte_def changed_def Let_def)
  with Cons.IH[of "put_byte n b t"] show ?case by simp
qed simp

lemma puts_line:
  "stdio (fold (put_byte n) (bs @ [10]) t) = []"
  "screen (fold (put_byte n) (bs @ [10]) t) = screen t @ stdio t @ bs @ [10]"
proof -
  show e: "stdio (fold (put_byte n) (bs @ [10]) t) = []" by (simp add: put_byte_def changed_def Let_def)
  show "screen (fold (put_byte n) (bs @ [10]) t) = screen t @ stdio t @ bs @ [10]"
    using puts_output[of n "bs @ [10]" t] unfolding e by simp
qed

lemma puts_stdin: "interest t = Some (Stdin, et) \<Longrightarrow> ready (fold (put_byte n) bs t) = ready t"
  by (induction bs arbitrary: t) (simp_all add: put_byte_def changed_def Let_def)

lemma puts_stdout_line: "interest t = Some (Stdout, et) \<Longrightarrow> ready (fold (put_byte n) (bs @ [10]) t)"
  by (simp add: put_byte_def[of n 10] changed_def Let_def)

lemma puts_buffered:
  "10 \<notin> set bs \<Longrightarrow> length (stdio t) + length bs < n \<Longrightarrow> fold (put_byte n) bs t = t\<lparr>stdio := stdio t @ bs\<rparr>"
proof (induction bs arbitrary: t)
  case (Cons b bs)
  then have "put_byte n b t = t\<lparr>stdio := stdio t @ [b]\<rparr>" by (simp add: put_byte_def Let_def)
  then show ?case using Cons.IH[of "t\<lparr>stdio := stdio t @ [b]\<rparr>"] Cons.prems by simp
qed simp

interpretation tty_level: level_reader "tty_api n" at_start
  "\<lambda>t. interest t = Some (Stdin, False) \<and> (input t \<noteq> [] \<longrightarrow> ready t) \<and> stdio t = []" input screen for n
  by unfold_locales (auto simp: tty_api_def at_start_def changed_def puts_stdin puts_line simp del: fold_append)

interpretation tty_writer: edge_writer "tty_api n" at_start "\<lambda>t. interest t = Some (Stdout, True)" ready stdio screen n for n
  by unfold_locales
     (auto simp: tty_api_def at_start_def puts_output puts_line puts_stdout_line puts_buffered simp del: fold_append)

interpretation tty_edge: edge_reader "tty_api n" at_start
  "\<lambda>t. interest t = Some (Stdin, True) \<and> stdio t = []" ready input screen for n
  by unfold_locales (auto simp: tty_api_def at_start_def changed_def puts_stdin puts_line simp del: fold_append)

definition fresh :: "nat list \<Rightarrow> tty" where
  "fresh bs = \<lparr>input = bs, stdio = [], screen = [], interest = None, ready = False\<rparr>"

lemma fresh_start: "at_start (fresh bs)"
  by (simp add: at_start_def fresh_def)

subsection \<open>Properties\<close>

text \<open>
  C38 The level triggered reader. On any system with level triggered \<open>epoll\<close>, as long as the
  program has time for an event between two inputs and every input is shorter than its buffer,
  \<open>readout_LT\<close> shows each one, up to its first zero byte, in order and on a line of its own,
  and then blocks with nothing left to read. An input that fills the buffer without a zero
  byte makes it read behind the end of the buffer.
\<close>

theorem readout_shows_each_input:
  assumes "level_reader K idle reg unread shown" and "idle k" and "unread k = []"
    and "\<forall>(bs, m) \<in> set script. 0 < m \<and> (length bs < 1024 \<or> overlong bs)"
  shows "if \<exists>(bs, m) \<in> set script. overlong bs then readout_LT K script k = Inl Out_of_bounds
    else \<exists>t. readout_LT K script k = Inr t \<and> wait_event K t = None \<and> unread t = [] \<and>
      shown t = shown k @ concat (map answer (filter (\<lambda>bs. bs \<noteq> []) (map fst script)))"
proof -
  let ?k = "ctl_add K Stdin False k"
  have k: "reg ?k" "unread ?k = []" "shown ?k = shown k"
    using level_reader.add_reg[OF assms(1,2)] assms(3) by simp_all
  from level_reader.reading_session[OF assms(1) k(1,2) assms(4)] show ?thesis
    unfolding readout_LT_def k(3) .
qed

theorem readout_shows_each_input_witness:
  "(\<exists>t. readout_LT (tty_api 1024) [([104, 105, 10], 1), ([], 2), ([120, 0, 121], 3)] (fresh []) = Inr t \<and>
      wait_event (tty_api 1024) t = None \<and>
      screen t = greeting @ bytes_of '', buf '' @ [104, 105, 10, 10] @ greeting @ bytes_of '', buf '' @ [120, 10]) \<and>
   readout_LT (tty_api 1024) [(replicate 1024 65, 1)] (fresh []) = Inl Out_of_bounds"
proof -
  have fresh: "at_start (fresh [])" "input (fresh []) = []" "screen (fresh []) = []"
    by (simp_all add: at_start_def fresh_def)
  note lines_shown = readout_shows_each_input[OF tty_level.level_reader_axioms fresh(1,2)]
  have "overlong (replicate 1024 65)" by (simp add: overlong_def)
  then show ?thesis
    using lines_shown[of "[([104, 105, 10], 1), ([], 2), ([120, 0, 121], 3)]" 1024] lines_shown[of "[(replicate 1024 65, 1)]" 1024] fresh(3)
    by (auto simp: overlong_def answer_def)
qed



text \<open>
  The edge triggered readers that do not read. When the program has time for an event between
  two inputs, \<open>pure_ET\<close> prints one line for each input that is not empty, however long it is,
  though everything typed stays unread; \<open>Reset_ET\<close>, which registers the descriptor again, prints
  in every round.
\<close>

theorem edge_readers_that_do_not_read:
  assumes "edge_reader K idle reg pend unread shown" and "idle k" and "unread k = []"
    and "\<forall>(bs, m) \<in> set script. 0 < m" and "bs \<noteq> []"
  shows "\<exists>t u. pure_ET K script k = Inr t \<and> unread t = concat (map fst script) \<and>
    shown t = shown k @ concat (replicate (length (filter (\<lambda>bs. bs \<noteq> []) (map fst script))) (greeting @ [10])) \<and>
    Reset_ET K [(bs, m)] k = Inr u \<and> shown u = shown k @ concat (replicate m (greeting @ [10]))"
proof -
  let ?k = "ctl_add K Stdin True k"
  have k: "reg ?k" "\<not> pend ?k" "unread ?k = []" "shown ?k = shown k"
    using edge_reader.add_reg[OF assms(1-3)] by simp_all
  have "reg (type_bytes K bs ?k)" "pend (type_bytes K bs ?k)" "unread (type_bytes K bs ?k) \<noteq> []"
    "shown (type_bytes K bs ?k) = shown k"
    using edge_reader.typed[OF assms(1) k(1), of bs] assms(5) k(4) by simp_all
  then obtain u where "Reset_ET K [(bs, m)] k = Inr u" "shown u = shown k @ concat (replicate m (greeting @ [10]))"
    using edge_reader.resets[OF assms(1), of "type_bytes K bs ?k" m] by (auto simp: Reset_ET_def)
  with edge_reader.one_line_each[OF assms(1) k(1,2) assms(4)] k(3,4) show ?thesis
    by (auto simp: pure_ET_def)
qed

theorem edge_readers_that_do_not_read_witness:
  "\<exists>t u. pure_ET (tty_api 1024) [([104, 105, 10], 5), ([], 1), ([120], 2)] (fresh []) = Inr t \<and>
    input t = [104, 105, 10, 120] \<and> screen t = greeting @ [10] @ greeting @ [10] \<and>
    Reset_ET (tty_api 1024) [([120], 3)] (fresh []) = Inr u \<and> screen u = concat (replicate 3 (greeting @ [10]))"
proof -
  have fresh: "input (fresh []) = []" "screen (fresh []) = []" by (simp_all add: fresh_def)
  from edge_readers_that_do_not_read[OF tty_edge.edge_reader_axioms fresh_start[of "[]"] fresh(1),
      of "[([104, 105, 10], 5), ([], 1), ([120], 2)]" "[120]" 1024 3] fresh(2)
  show ?thesis by (simp add: numeral_2_eq_2)
qed

end
