(* ===== verification/Communicator.thy ===== *)
theory Communicator
  imports Posix
begin

section \<open>Pipes, shared memory and descriptors in messages (\<open>linux_communicator\<close>)\<close>

text \<open>
  The tests of \<open>io_pipe.h\<close> and \<open>io_shared_memory.h\<close>: a word that a child process sends its
  parent through a pipe, a segment of shared memory that one process fills and another reads,
  and file descriptors in the control data of a message. What the kernel answers comes as an
  argument; what the processes share is a state.
\<close>

subsection \<open>A pipe\<close>

definition space_byte :: "nat \<Rightarrow> bool" where
  "space_byte b \<longleftrightarrow> b = 32 \<or> (9 \<le> b \<and> b \<le> 13)"

definition scan_word :: "nat list \<Rightarrow> nat list" where
  \<comment> \<open>the bytes that \<open>scanf\<close> with \<open>%s\<close> stores, before the zero it adds; none at the end of the
    input\<close>
  "scan_word bs = takeWhile (\<lambda>b. \<not> space_byte b) (dropWhile space_byte bs)"

record pipe_result =
  ret :: int
  written :: "nat list"                      \<comment> \<open>by this process, to the pipe\<close>
  printed :: "(nat \<times> nat list) option"       \<comment> \<open>what is shown as received: number and text\<close>

definition pipe_child :: "nat list \<Rightarrow> pipe_result res" where
  \<comment> \<open>after a failed \<open>scanf\<close> the string is not initialised\<close>
  "pipe_child str =
     (if str = [] then Inl Uninitialised else Inr \<lparr>ret = 0, written = c_string str, printed = None\<rparr>)"

definition pipe_parent :: "nat list \<Rightarrow> pipe_result" where
  \<comment> \<open>with what the pipe holds when \<open>wait\<close> has returned\<close>
  "pipe_parent content =
     (let got = received (80 - 1) content; readbuffer = got @ replicate (80 - length got) 0 in
      \<lparr>ret = 0, written = [], printed = Some (length got, c_string readbuffer)\<rparr>)"

definition test_pipe :: "nat list \<Rightarrow> int \<Rightarrow> int \<Rightarrow> pipe_result res" where
  \<comment> \<open>the input, and what \<open>pipe\<close> and \<open>fork\<close> return: one run for the child, one for the parent,
    which waits until the child, the same program with \<open>0\<close> from \<open>fork\<close>, has ended\<close>
  "test_pipe inp pipe_ret pid =
     (let str = scan_word inp in
      if 100 \<le> length str then Inl Out_of_bounds
      else if pipe_ret = -1 then Inr \<lparr>ret = -1, written = [], printed = None\<rparr>
      else if pid = -1 then Inr \<lparr>ret = -1, written = [], printed = None\<rparr>
      else if pid = 0 then pipe_child str
      else rbind (pipe_child str) (\<lambda>c. Inr (pipe_parent (written c))))"

datatype name_pipe_result = Exited int | Returned "nat list"

definition test_name_pipe :: "int \<Rightarrow> int \<Rightarrow> name_pipe_result" where
  \<comment> \<open>\<open>argc\<close> and what \<open>open\<close> returns; the bytes handed to \<open>write\<close>\<close>
  "test_name_pipe argc fd =
     (if argc < 2 then Exited 1
      else if fd < 0 then Exited 1
      else Returned (bytes_of ''hello'' @ replicate (1024 - 5) 0))"

subsection \<open>Shared memory\<close>

definition SHM_SIZE :: nat where "SHM_SIZE = 0x400000"

type_synonym segment = "nat \<Rightarrow> nat"  \<comment> \<open>its bytes; new ones are zero\<close>

record shm_state =
  sysv :: "int \<rightharpoonup> segment"          \<comment> \<open>by key\<close>
  posix :: "segment option"         \<comment> \<open>the object \<open>posixsm\<close>\<close>

definition the_segment :: "segment option \<Rightarrow> segment" where
  "the_segment m = (case m of None \<Rightarrow> (\<lambda>_. 0) | Some p \<Rightarrow> p)"

definition memset_A :: "segment \<Rightarrow> segment" where
  "memset_A p = (\<lambda>i. if i < SHM_SIZE then 65 else p i)"

definition show_four :: "segment \<Rightarrow> nat list" where
  \<comment> \<open>\<open>printf("%c %c %c %c\n", p[0], p[1], p[3], p[4])\<close>\<close>
  "show_four p = [p 0, 32, p 1, 32, p 3, 32, p 4, 10]"

definition test_shm_write :: "int \<Rightarrow> int \<Rightarrow> shm_state \<Rightarrow> shm_state res" where
  \<comment> \<open>what \<open>ftok\<close> and \<open>shmget\<close> return; with \<open>-1\<close> from \<open>shmget\<close>, \<open>shmat\<close> returns no address\<close>
  "test_shm_write key shmid st =
     (if shmid = -1 then Inl Dangling
      else Inr (st\<lparr>sysv := (sysv st)(key \<mapsto> memset_A (the_segment (sysv st key)))\<rparr>))"

definition test_shm_read :: "int \<Rightarrow> int \<Rightarrow> shm_state \<Rightarrow> (nat list \<times> shm_state) res" where
  "test_shm_read key shmid st =
     (if shmid = -1 then Inl Dangling
      else
        let p = the_segment (sysv st key) in
        Inr (show_four p, st\<lparr>sysv := (sysv st)(key \<mapsto> p)\<rparr>))"

definition test_shm_posix_write :: "int \<Rightarrow> shm_state \<Rightarrow> shm_state res" where
  \<comment> \<open>what \<open>shm_open\<close> returns; with \<open>-1\<close>, \<open>mmap\<close> returns no address\<close>
  "test_shm_posix_write fd st =
     (if fd = -1 then Inl Dangling
      else Inr (st\<lparr>posix := Some (memset_A (the_segment (posix st)))\<rparr>))"

definition test_shm_posix_read :: "int \<Rightarrow> shm_state \<Rightarrow> (nat list \<times> shm_state) res" where
  "test_shm_posix_read fd st =
     (if fd = -1 then Inl Dangling
      else let p = the_segment (posix st) in Inr (show_four p, st\<lparr>posix := Some p\<rparr>))"

subsection \<open>Descriptors in a message\<close>

definition send_fd :: "int list \<Rightarrow> nat \<Rightarrow> int \<Rightarrow> int list list \<Rightarrow> int list list res" where
  \<comment> \<open>the array, \<open>n\<close> and what \<open>sendmsg\<close> returns; the state is the messages under way\<close>
  "send_fd fds n sendmsg_ret msgs =
     (if length fds < n then Inl Out_of_bounds
      else let buf = take n fds in Inr (if sendmsg_ret < 0 then msgs else msgs @ [buf]))"

definition recv_fd :: "nat \<Rightarrow> int \<Rightarrow> int list list \<Rightarrow> (int list \<times> int list list) res" where
  \<comment> \<open>\<open>n\<close> and what \<open>recvmsg\<close> returns; the control buffer is zero until \<open>recvmsg\<close> fills it\<close>
  "recv_fd n recvmsg_ret msgs =
     (let buf = replicate n 0 in
      if recvmsg_ret < 0 then Inr (buf, msgs) else Inl No_return)"

subsection \<open>Properties\<close>

lemma c_string_no_zero: "0 \<notin> set bs \<Longrightarrow> c_string bs = bs"
  unfolding c_string_def by (intro takeWhile_eq_all_conv[THEN iffD2]) metis

lemma c_string_padded: "0 \<notin> set bs \<Longrightarrow> 0 < k \<Longrightarrow> c_string (bs @ replicate k 0) = bs"
proof -
  assume "0 \<notin> set bs" and "0 < k"
  then obtain j where "k = Suc j" by (cases k) auto
  then show ?thesis using c_string_no_zero[OF \<open>0 \<notin> set bs\<close>] by simp
qed

lemma scan_word_found:
  assumes "\<forall>b \<in> set spaces. space_byte b" and "\<forall>b \<in> set word. \<not> space_byte b" and "word \<noteq> []" and "space_byte e"
  shows "scan_word (spaces @ word @ e # rest) = word"
proof -
  have "dropWhile space_byte (spaces @ word @ e # rest) = word @ e # rest"
    using assms(1,2,3) by (cases word) (simp_all add: dropWhile_append1 dropWhile_append2)
  then show ?thesis using assms(2,4) by (simp add: scan_word_def takeWhile_append2)
qed

text \<open>
  C40 A word through the pipe. When \<open>pipe\<close> and \<open>fork\<close> succeed and the first word of the input
  has no zero byte, the child writes the whole word, and the parent shows its length and text
  as they are up to 79 bytes, and cut to 79 otherwise; a word of 100 bytes or more, for which
  the array has no room, is a fault in both processes.
\<close>

theorem pipe_passes_word:
  assumes "\<forall>b \<in> set spaces. space_byte b" and "\<forall>b \<in> set word. \<not> space_byte b" and "word \<noteq> []" and "space_byte e"
    and "0 \<notin> set word" and "0 < pid"
  shows "if length word < 100 then
      test_pipe (spaces @ word @ e # rest) 0 0 = Inr \<lparr>ret = 0, written = word, printed = None\<rparr> \<and>
      test_pipe (spaces @ word @ e # rest) 0 pid =
        Inr \<lparr>ret = 0, written = [], printed = Some (min 79 (length word), take 79 word)\<rparr>
    else test_pipe (spaces @ word @ e # rest) 0 0 = Inl Out_of_bounds \<and>
      test_pipe (spaces @ word @ e # rest) 0 pid = Inl Out_of_bounds"
proof -
  note scan = scan_word_found[OF assms(1-4), of rest]
  have "0 \<notin> set (take 79 word)" using assms(5) in_set_takeD by metis
  then have "c_string (take 79 word @ replicate (80 - min (length word) 79) 0) = take 79 word"
    by (intro c_string_padded) simp_all
  then show ?thesis using assms(3,6) c_string_no_zero[OF assms(5)]
    by (simp add: test_pipe_def scan pipe_child_def pipe_parent_def received_def Let_def min.commute)
qed

theorem pipe_passes_word_witness:
  "test_pipe ([32] @ [104, 105] @ 10 # []) 0 42 = Inr \<lparr>ret = 0, written = [], printed = Some (2, [104, 105])\<rparr>"
  using pipe_passes_word[of "[32]" "[104, 105]" 10 42 "[]"] by (simp add: space_byte_def)

text \<open>
  What one process writes the other reads. If the segment can be attached in both, a
  reader that uses the key of the writer shows the writer's bytes, whatever the memory held
  before; so does a reader of the POSIX object. Neither writer changes what the readers of the
  other kind, or of another key, show.
\<close>

theorem shm_write_then_read:
  assumes "id1 \<noteq> -1" and "id2 \<noteq> -1" and "k \<noteq> key"
  shows "\<exists>st1 st2. test_shm_write key id1 st = Inr st1 \<and> test_shm_posix_write id1 st = Inr st2 \<and>
    rbind (test_shm_read key id2 st1) (\<lambda>(out, _). Inr out) = Inr [65, 32, 65, 32, 65, 32, 65, 10] \<and>
    rbind (test_shm_posix_read id2 st2) (\<lambda>(out, _). Inr out) = Inr [65, 32, 65, 32, 65, 32, 65, 10] \<and>
    rbind (test_shm_read k id2 st1) (\<lambda>(out, _). Inr out) = rbind (test_shm_read k id2 st) (\<lambda>(out, _). Inr out) \<and>
    rbind (test_shm_posix_read id2 st1) (\<lambda>(out, _). Inr out) = rbind (test_shm_posix_read id2 st) (\<lambda>(out, _). Inr out) \<and>
    rbind (test_shm_read k id2 st2) (\<lambda>(out, _). Inr out) = rbind (test_shm_read k id2 st) (\<lambda>(out, _). Inr out)"
  using assms
  by (simp add: test_shm_write_def test_shm_read_def test_shm_posix_write_def test_shm_posix_read_def Let_def
      the_segment_def memset_A_def show_four_def SHM_SIZE_def)

theorem shm_write_then_read_witness:
  "\<exists>st1. test_shm_write 7 0 \<lparr>sysv = Map.empty, posix = None\<rparr> = Inr st1 \<and>
    rbind (test_shm_read 7 0 st1) (\<lambda>(out, _). Inr out) = Inr [65, 32, 65, 32, 65, 32, 65, 10]"
  using shm_write_then_read[of 0 0 8 7 "\<lparr>sysv = Map.empty, posix = None\<rparr>"] by auto

text \<open>
  Descriptors do not arrive. After \<open>send_fd\<close> has put descriptors on their way, \<open>recv_fd\<close>
  either runs off its end without a value, or returns zeros after a failure.
\<close>

theorem descriptors_do_not_arrive:
  "send_fd fds n 1 msgs = Inr msgs' \<Longrightarrow> recv_fd n r msgs' = Inl No_return \<or> recv_fd n r msgs' = Inr (replicate n 0, msgs')"
  by (simp add: recv_fd_def Let_def)

end
