(* ===== verification/Stress_Test.thy ===== *)
theory Stress_Test
  imports Posix
begin

section \<open>The stress tester (\<open>stress_test/stress.cpp\<close>)\<close>

text \<open>
  Opens a number of connections and then, for each, alternately writes a request and reads
  a part of the answer, as \<open>epoll\<close> reports it writable and readable. The program keeps no
  state of its own about its connections: what it does is the sequence of its system calls,
  and this log is the state here. The answers of \<open>send\<close>, \<open>recv\<close>, \<open>socket\<close> and \<open>connect\<close> come
  as arguments.
\<close>

subsection \<open>Writing and reading\<close>

fun write_nbytes :: "int list \<Rightarrow> nat list \<Rightarrow> int \<Rightarrow> nat list \<Rightarrow> (bool \<times> nat list) option" where
  \<comment> \<open>what \<open>send\<close> returns, \<open>buffer\<close>, \<open>len\<close> and the bytes sent so far; \<open>None\<close>: still writing\<close>
  "write_nbytes [] buffer len sent = None"
| "write_nbytes (n # ns) buffer len sent =
     (if n = -1 then Some (False, sent)
      else if n = 0 then Some (False, sent)
      else
        let sent' = sent @ take (nat n) buffer; len' = len - n; buffer' = drop (nat n) buffer in
        if len' \<le> 0 then Some (True, sent') else write_nbytes ns buffer' len' sent')"

definition read_once :: "recv_result \<Rightarrow> nat \<Rightarrow> (bool \<times> nat list) res" where
  \<comment> \<open>whether bytes were read and the string printed, which ends at the first zero of the
    buffer; without one it would be read on behind it\<close>
  "read_once r len =
     (case r of
        Recv_error _ \<Rightarrow> Inr (False, [])
      | Recv_data bs \<Rightarrow>
          let got = received len bs; buffer = got @ replicate (len - length got) 0 in
          if got = [] then Inr (False, [])
          else if 0 \<in> set buffer then Inr (True, c_string buffer) else Inl Out_of_bounds)"

subsection \<open>Connections\<close>

datatype interest = Epollout | Epollin

datatype stress_call =
    Socket int              \<comment> \<open>\<open>socket\<close> returned it\<close>
  | Ctl_add int interest
  | Ctl_mod int interest
  | Ctl_del int
  | Nonblocking int
  | Sent int "nat list"     \<comment> \<open>what the calls of \<open>send\<close> in one \<open>write_nbytes\<close> have taken\<close>
  | Received int bool       \<comment> \<open>whether \<open>recv\<close> returned bytes\<close>
  | Close_fd int

type_synonym stress = "stress_call list"

definition addfd :: "int \<Rightarrow> stress \<Rightarrow> stress" where
  "addfd fd s = s @ [Ctl_add fd Epollout, Nonblocking fd]"

definition close_conn :: "int \<Rightarrow> stress \<Rightarrow> stress" where
  "close_conn fd s = s @ [Ctl_del fd, Close_fd fd]"

fun conn_loop :: "(int \<times> int) list \<Rightarrow> stress \<Rightarrow> stress" where
  \<comment> \<open>what \<open>socket\<close> and \<open>connect\<close> return, for each of the \<open>num\<close> connections\<close>
  "conn_loop [] s = s"
| "conn_loop ((sockfd, conn) # cs) s =
     (if sockfd < 0 then conn_loop cs s
      else
        let s1 = s @ [Socket sockfd] in
        conn_loop cs (if conn = 0 then addfd sockfd s1 else s1))"

definition start_conn :: "int \<Rightarrow> string \<Rightarrow> int \<Rightarrow> (string \<Rightarrow> 16 word \<Rightarrow> nat \<Rightarrow> int \<times> int) \<Rightarrow> stress \<Rightarrow> stress" where
  \<comment> \<open>the last argument is the network: what \<open>socket\<close> and \<open>connect\<close> to this address and port (in
    network order) return in each iteration\<close>
  "start_conn num ip port net s = conn_loop (map (net ip (htons (word_of_int port))) [0..<nat num]) s"

record stress_event =
  ev_fd :: int
  ev_in :: bool
  ev_out :: bool
  ev_err :: bool
  recv_ret :: recv_result
  send_rets :: "int list"

definition request :: "nat list" where
  "request = map of_char (''Get http://localhost/index.html HTTP/1.1'' @ [CHR 0x0D, CHR 0x0A] @
     ''Connection: keep-alive'' @ [CHR 0x0D, CHR 0x0A, CHR 0x0D, CHR 0x0A] @ ''xxxxxxxxxxxxx'')"

definition stress_handle :: "stress_event \<Rightarrow> stress \<Rightarrow> stress option res" where
  \<comment> \<open>the body of the loop over the events; \<open>None\<close>: still in \<open>write_nbytes\<close>\<close>
  "stress_handle e s =
     (if ev_in e then
        rbind (read_once (recv_ret e) 2048) (\<lambda>(ok, text).
          let s1 = s @ [Received (ev_fd e) ok];
              s2 = (if ok then s1 else close_conn (ev_fd e) s1) in
          Inr (Some (s2 @ [Ctl_mod (ev_fd e) Epollout])))
      else if ev_out e then
        (case write_nbytes (send_rets e) request (int (length request)) [] of
           None \<Rightarrow> Inr None
         | Some (ok, sent) \<Rightarrow>
             let s1 = s @ [Sent (ev_fd e) sent];
                 s2 = (if ok then s1 else close_conn (ev_fd e) s1) in
             Inr (Some (s2 @ [Ctl_mod (ev_fd e) Epollin])))
      else if ev_err e then Inr (Some (close_conn (ev_fd e) s))
      else Inr (Some s))"

fun stress_events :: "stress_event list \<Rightarrow> stress \<Rightarrow> stress option res" where
  \<comment> \<open>the events of one \<open>epoll_wait\<close>\<close>
  "stress_events [] s = Inr (Some s)"
| "stress_events (e # es) s =
     rbind (stress_handle e s) (\<lambda>r. case r of None \<Rightarrow> Inr None | Some t \<Rightarrow> stress_events es t)"

fun stress_loop :: "stress_event list list \<Rightarrow> stress \<Rightarrow> stress option res" where
  \<comment> \<open>so many rounds of the loop of \<open>main\<close>, which never ends\<close>
  "stress_loop [] s = Inr (Some s)"
| "stress_loop (es # ws) s =
     rbind (stress_events es s) (\<lambda>r. case r of None \<Rightarrow> Inr None | Some t \<Rightarrow> stress_loop ws t)"

definition stress_main :: "string list \<Rightarrow> (string \<Rightarrow> 16 word \<Rightarrow> nat \<Rightarrow> int \<times> int) \<Rightarrow> stress_event list list
    \<Rightarrow> stress option res" where
  \<comment> \<open>\<open>argv\<close>, which the code uses without declaring it, the network and so many rounds of the loop\<close>
  "stress_main argv net ws =
     (if length argv \<noteq> 4 then Inl Assert_failed
      else stress_loop ws (start_conn (atoi (argv ! 3)) (argv ! 1) (atoi (argv ! 2)) net []))"

subsection \<open>Writing is complete or fails\<close>

text \<open>The kernel's contract: \<open>send\<close> takes between one and the given number of bytes, or fails.\<close>

fun send_ok :: "int list \<Rightarrow> int \<Rightarrow> bool" where
  "send_ok [] len \<longleftrightarrow> True"
| "send_ok (n # ns) len \<longleftrightarrow> n = -1 \<or> n = 0 \<or> (0 < n \<and> n \<le> len \<and> send_ok ns (len - n))"

lemma write_prefix:
  assumes "send_ok ns (int (length buffer))"
  shows "case write_nbytes ns buffer (int (length buffer)) sent of
      None \<Rightarrow> True
    | Some (ok, out) \<Rightarrow> if ok then out = sent @ buffer
        else \<exists>rest. rest \<noteq> [] \<and> sent @ buffer = out @ rest \<or> buffer = []"
  using assms
proof (induction ns arbitrary: buffer sent)
  case (Cons n ns)
  show ?case
  proof (cases "n = -1 \<or> n = 0")
    case True
    then show ?thesis by (cases "buffer = []") auto
  next
    case False
    then have n: "0 < n" "n \<le> int (length buffer)" "send_ok ns (int (length buffer) - n)"
      using Cons.prems by auto
    then have len: "int (length buffer) - n = int (length (drop (nat n) buffer))" by simp
    show ?thesis
    proof (cases "int (length buffer) - n \<le> 0")
      case True
      then have "length buffer \<le> nat n" by linarith
      then show ?thesis using n True by simp
    next
      case more: False
      have IH: "case write_nbytes ns (drop (nat n) buffer) (int (length (drop (nat n) buffer))) (sent @ take (nat n) buffer) of
          None \<Rightarrow> True
        | Some (ok, out) \<Rightarrow> if ok then out = (sent @ take (nat n) buffer) @ drop (nat n) buffer
            else \<exists>rest. rest \<noteq> [] \<and> (sent @ take (nat n) buffer) @ drop (nat n) buffer = out @ rest \<or> drop (nat n) buffer = []"
        using n(3) unfolding len by (rule Cons.IH)
      have "drop (nat n) buffer \<noteq> []" using more n(1) by auto
      moreover have "write_nbytes (n # ns) buffer (int (length buffer)) sent =
          write_nbytes ns (drop (nat n) buffer) (int (length (drop (nat n) buffer))) (sent @ take (nat n) buffer)"
        using False more len by (simp add: Let_def)
      ultimately show ?thesis using IH by (auto split: option.splits prod.splits)
    qed
  qed
qed simp

lemma write_returns:
  assumes "buffer \<noteq> []" and "length buffer \<le> length ns" and "send_ok ns (int (length buffer))"
  shows "\<exists>ok out. write_nbytes ns buffer (int (length buffer)) sent = Some (ok, out)"
  using assms
proof (induction ns arbitrary: buffer sent)
  case (Cons n ns)
  show ?case
  proof (cases "n = -1 \<or> n = 0 \<or> int (length buffer) - n \<le> 0")
    case True
    then show ?thesis by (auto simp: Let_def)
  next
    case False
    then have n: "0 < n" "n < int (length buffer)" "send_ok ns (int (length buffer) - n)"
      using Cons.prems(3) by auto
    then have len: "int (length buffer) - n = int (length (drop (nat n) buffer))" by simp
    have "\<exists>ok out. write_nbytes ns (drop (nat n) buffer) (int (length (drop (nat n) buffer))) (sent @ take (nat n) buffer) = Some (ok, out)"
    proof (rule Cons.IH)
      show "drop (nat n) buffer \<noteq> []" using n by auto
      show "length (drop (nat n) buffer) \<le> length ns" using Cons.prems(2) n(1) by auto
      show "send_ok ns (int (length (drop (nat n) buffer)))" using n(3) unfolding len .
    qed
    then show ?thesis using False len by (simp add: Let_def)
  qed
qed simp

subsection \<open>Properties\<close>

text \<open>
  C26 All or nothing, in order. For a buffer that is not empty and any answers of \<open>send\<close>
  that the kernel may give, \<open>write_nbytes\<close> returns after at most \<open>len\<close> calls; when it
  returns \<open>true\<close> exactly the buffer has been sent, and when it returns \<open>false\<close> a proper
  prefix of it.
\<close>

theorem write_nbytes_complete_or_fails:
  assumes "buffer \<noteq> []" and "length buffer \<le> length ns" and "send_ok ns (int (length buffer))"
  shows "\<exists>ok out. write_nbytes ns buffer (int (length buffer)) [] = Some (ok, out) \<and>
    (if ok then out = buffer else \<exists>rest. rest \<noteq> [] \<and> buffer = out @ rest)"
proof -
  obtain ok out where w: "write_nbytes ns buffer (int (length buffer)) [] = Some (ok, out)"
    using write_returns[OF assms] by blast
  with write_prefix[OF assms(3), of "[]"] assms(1) show ?thesis by (auto split: if_splits)
qed

theorem write_nbytes_complete_or_fails_witness:
  "write_nbytes [2, 1, 0] [7, 8, 9] (int (length [7, 8, 9 :: nat])) [] = Some (True, [7, 8, 9])"
  using write_nbytes_complete_or_fails[of "[7, 8, 9]" "[2, 1, 0]"] by (auto simp: Let_def)

lemma padded_buffer:
  "0 \<in> set (take len bs @ replicate (len - length (take len bs)) 0) \<longleftrightarrow>
   0 \<in> set (take len bs) \<or> length bs < len"
  by (auto simp: min_def)

text \<open>
  When the answer fills the buffer. \<open>read_once\<close> prints the buffer as a string: it reads
  behind the buffer exactly when the bytes received fill it and none of them is zero.
\<close>

theorem read_once_overruns:
  "read_once (Recv_data bs) len = Inl Out_of_bounds \<longleftrightarrow>
     0 < len \<and> bs \<noteq> [] \<and> len \<le> length bs \<and> 0 \<notin> set (take len bs)"
  using padded_buffer[of len bs] by (auto simp: read_once_def received_def Let_def not_less)

lemma conn_loop_opens:
  "{fd. Socket fd \<in> set (conn_loop cs s)} = {fd. Socket fd \<in> set s} \<union> {fd. 0 \<le> fd \<and> fd \<in> fst ` set cs} \<and>
   {fd. \<exists>m. Ctl_add fd m \<in> set (conn_loop cs s)} =
     {fd. \<exists>m. Ctl_add fd m \<in> set s} \<union> {fd. 0 \<le> fd \<and> (fd, 0) \<in> set cs} \<and>
   {fd. Close_fd fd \<in> set (conn_loop cs s)} = {fd. Close_fd fd \<in> set s}"
proof (induction cs arbitrary: s)
  case (Cons c cs)
  obtain fd conn where c: "c = (fd, conn)" by fastforce
  have sets: "{x. 0 \<le> x \<and> x \<in> fst ` set (c # cs)} = {x. x = fd \<and> 0 \<le> fd} \<union> {x. 0 \<le> x \<and> x \<in> fst ` set cs}"
    "{x. 0 \<le> x \<and> (x, 0) \<in> set (c # cs)} = {x. x = fd \<and> 0 \<le> fd \<and> conn = 0} \<union> {x. 0 \<le> x \<and> (x, 0) \<in> set cs}"
    by (auto simp: c)
  show ?case unfolding sets using Cons.IH by (auto simp: c addfd_def Let_def)
qed simp

text \<open>
  Failed connections stay open. \<open>start_conn\<close> creates the sockets it can and registers with
  \<open>epoll\<close> those that \<open>connect\<close> accepted; it closes none, so those it failed for stay open.
\<close>

theorem start_conn_keeps_failed_open:
  "{fd. Socket fd \<in> set (start_conn num ip port net [])} =
     {fd. 0 \<le> fd \<and> (\<exists>i < nat num. fst (net ip (htons (word_of_int port)) i) = fd)} \<and>
   {fd. \<exists>m. Ctl_add fd m \<in> set (start_conn num ip port net [])} =
     {fd. 0 \<le> fd \<and> (\<exists>i < nat num. net ip (htons (word_of_int port)) i = (fd, 0))} \<and>
   {fd. Close_fd fd \<in> set (start_conn num ip port net [])} = {}"
proof -
  let ?net = "net ip (htons (word_of_int port))"
  have "fst ` set (map ?net [0..<nat num]) = {fd. \<exists>i < nat num. fst (?net i) = fd}"
    "set (map ?net [0..<nat num]) = {c. \<exists>i < nat num. ?net i = c}"
    by (force simp: image_iff)+
  then show ?thesis
    unfolding start_conn_def conn_loop_opens[THEN conjunct1]
      conn_loop_opens[THEN conjunct2, THEN conjunct1] conn_loop_opens[THEN conjunct2, THEN conjunct2] by simp
qed

subsection \<open>The protocol of a connection\<close>

text \<open>
  What the calls on one descriptor must be, as an automaton that reads them: a socket that is
  connected is registered for writing and made non-blocking; then, in turn, the whole request
  is written and the connection waits to read, and an answer is read and it waits to write. A
  failed call, or an error \<open>epoll\<close> reports, takes it out of \<open>epoll\<close> and closes it. After a failed
  call one more \<open>EPOLL_CTL_MOD\<close> follows, on the closed descriptor, and then nothing.
\<close>

datatype phase =
    Absent | Created | Added | To_write | Written | To_read | Answered
  | Failed | Failed_deleted | Failed_closed | Deleted | Gone

fun phase_step :: "stress_call \<Rightarrow> phase \<Rightarrow> phase option" where
  "phase_step (Socket _) ph = (if ph = Absent then Some Created else None)"
| "phase_step (Ctl_add _ m) ph = (if ph = Created \<and> m = Epollout then Some Added else None)"
| "phase_step (Nonblocking _) ph = (if ph = Added then Some To_write else None)"
| "phase_step (Sent _ bs) ph =
     (if ph \<noteq> To_write then None
      else if bs = request then Some Written
      else if length bs < length request \<and> bs = take (length bs) request then Some Failed else None)"
| "phase_step (Received _ ok) ph = (if ph = To_read then Some (if ok then Answered else Failed) else None)"
| "phase_step (Ctl_mod _ m) ph =
     (if ph = Written \<and> m = Epollin then Some To_read
      else if ph = Answered \<and> m = Epollout then Some To_write
      else if ph = Failed_closed then Some Gone else None)"
| "phase_step (Ctl_del _) ph =
     (if ph = Failed then Some Failed_deleted
      else if ph = To_write \<or> ph = To_read then Some Deleted else None)"
| "phase_step (Close_fd _) ph =
     (if ph = Failed_deleted then Some Failed_closed else if ph = Deleted then Some Gone else None)"

fun call_fd :: "stress_call \<Rightarrow> int" where
  "call_fd (Socket fd) = fd" | "call_fd (Ctl_add fd _) = fd" | "call_fd (Ctl_mod fd _) = fd"
| "call_fd (Ctl_del fd) = fd" | "call_fd (Nonblocking fd) = fd" | "call_fd (Sent fd _) = fd"
| "call_fd (Received fd _) = fd" | "call_fd (Close_fd fd) = fd"

definition follow :: "int \<Rightarrow> stress_call \<Rightarrow> phase option \<Rightarrow> phase option" where
  "follow fd c ph = (if call_fd c = fd then Option.bind ph (phase_step c) else ph)"

definition phase_of :: "int \<Rightarrow> stress \<Rightarrow> phase option" where
  \<comment> \<open>\<open>None\<close>: the calls on the descriptor break the protocol\<close>
  "phase_of fd log = fold (follow fd) log (Some Absent)"

text \<open>
  The kernel's side: what \<open>epoll\<close> watches a descriptor for after the calls of a log
  (\<open>EPOLL_CTL_MOD\<close> fails for a descriptor that is not registered, \<open>close\<close> takes it out). It
  reports registered descriptors, and readable and writable only as asked for.
\<close>

fun watch :: "int \<Rightarrow> stress_call \<Rightarrow> interest option \<Rightarrow> interest option" where
  "watch fd (Ctl_add f m) w = (if f = fd then Some m else w)"
| "watch fd (Ctl_mod f m) w = (if f = fd \<and> w \<noteq> None then Some m else w)"
| "watch fd (Ctl_del f) w = (if f = fd then None else w)"
| "watch fd (Close_fd f) w = (if f = fd then None else w)"
| "watch fd _ w = w"

definition watched :: "int \<Rightarrow> stress \<Rightarrow> interest option" where
  "watched fd log = fold (watch fd) log None"

definition reported :: "stress_event \<Rightarrow> stress \<Rightarrow> bool" where
  "reported e log \<longleftrightarrow>
     (case watched (ev_fd e) log of None \<Rightarrow> False
      | Some m \<Rightarrow> (ev_in e \<longrightarrow> m = Epollin) \<and> (ev_out e \<longrightarrow> m = Epollout)) \<and>
     send_ok (send_rets e) (int (length request)) \<and> length request \<le> length (send_rets e)"

fun reported_events :: "stress_event list \<Rightarrow> stress \<Rightarrow> bool" where
  "reported_events [] s \<longleftrightarrow> True"
| "reported_events (e # es) s \<longleftrightarrow> reported e s \<and>
     (case stress_handle e s of Inr (Some t) \<Rightarrow> reported_events es t | _ \<Rightarrow> True)"

fun reported_rounds :: "stress_event list list \<Rightarrow> stress \<Rightarrow> bool" where
  "reported_rounds [] s \<longleftrightarrow> True"
| "reported_rounds (es # ws) s \<longleftrightarrow> reported_events es s \<and>
     (case stress_events es s of Inr (Some t) \<Rightarrow> reported_rounds ws t | _ \<Rightarrow> True)"

lemma log_append [simp]:
  "phase_of fd [] = Some Absent" "watched fd [] = None"
  "phase_of fd (log @ cs) = fold (follow fd) cs (phase_of fd log)"
  "watched fd (log @ cs) = fold (watch fd) cs (watched fd log)"
  by (simp_all add: phase_of_def watched_def)

definition armed :: "phase \<Rightarrow> interest option" where
  "armed ph = (case ph of To_write \<Rightarrow> Some Epollout | To_read \<Rightarrow> Some Epollin | _ \<Rightarrow> None)"

definition at_rest :: "phase \<Rightarrow> bool" where
  "at_rest ph \<longleftrightarrow> ph \<in> {Absent, Created, To_write, To_read, Gone}"

definition stress_inv :: "stress \<Rightarrow> bool" where
  \<comment> \<open>\<open>epoll\<close> waits for what is the next turn of the connection\<close>
  "stress_inv s \<longleftrightarrow> (\<forall>fd. \<exists>ph. phase_of fd s = Some ph \<and> at_rest ph \<and> watched fd s = armed ph)"

lemma stress_invI:
  assumes "stress_inv s" and "\<And>f. f \<noteq> fd \<Longrightarrow> phase_of f t = phase_of f s \<and> watched f t = watched f s"
    and "\<exists>ph. phase_of fd t = Some ph \<and> at_rest ph \<and> watched fd t = armed ph"
  shows "stress_inv t"
  using assms unfolding stress_inv_def by metis

lemma conn_loop_inv:
  "stress_inv s \<Longrightarrow> distinct (filter (\<lambda>fd. 0 \<le> fd) (map fst cs)) \<Longrightarrow>
   \<forall>fd \<in> fst ` set cs. 0 \<le> fd \<longrightarrow> phase_of fd s = Some Absent \<Longrightarrow> stress_inv (conn_loop cs s)"
proof (induction cs s rule: conn_loop.induct)
  case (2 fd conn cs s)
  show ?case
  proof (cases "fd < 0")
    case True
    then show ?thesis using 2 by auto
  next
    case False
    let ?t = "if conn = 0 then addfd fd (s @ [Socket fd]) else s @ [Socket fd]"
    have absent: "phase_of fd s = Some Absent" "watched fd s = None"
      using 2(3-5) False spec[OF 2(3)[unfolded stress_inv_def], of fd] by (auto simp: armed_def)
    have other: "phase_of f ?t = phase_of f s \<and> watched f ?t = watched f s" if "f \<noteq> fd" for f
      using that by (simp add: addfd_def follow_def)
    have "\<exists>ph. phase_of fd ?t = Some ph \<and> at_rest ph \<and> watched fd ?t = armed ph"
      using absent by (cases "conn = 0") (simp_all add: addfd_def follow_def armed_def at_rest_def)
    then have "stress_inv ?t" by (intro stress_invI[OF 2(3) other])
    moreover have "\<forall>f \<in> fst ` set cs. 0 \<le> f \<longrightarrow> phase_of f ?t = Some Absent"
    proof (intro ballI impI)
      fix f assume f: "f \<in> fst ` set cs" "0 \<le> f"
      then have "f \<noteq> fd" using 2(4) False by (auto simp: image_iff)
      then show "phase_of f ?t = Some Absent" using other 2(5) f by auto
    qed
    ultimately show ?thesis using 2(2)[OF False refl] 2(4) False by (simp add: Let_def)
  qed
qed simp

definition overrun :: "stress_event \<Rightarrow> bool" where
  \<comment> \<open>the answer fills the buffer of 2048 bytes and has no zero in it\<close>
  "overrun e \<longleftrightarrow> ev_in e \<and> (case recv_ret e of Recv_error _ \<Rightarrow> False
     | Recv_data bs \<Rightarrow> 2048 \<le> length bs \<and> 0 \<notin> set (take 2048 bs))"

lemma read_cases:
  "read_once r 2048 = Inl Out_of_bounds \<and> (\<exists>bs. r = Recv_data bs \<and> 2048 \<le> length bs \<and> 0 \<notin> set (take 2048 bs)) \<or>
   (\<exists>ok text. read_once r 2048 = Inr (ok, text))"
  by (cases r) (auto simp: read_once_def received_def Let_def not_less)

lemma read_turn:
  assumes "stress_inv s" and "reported e s" and "ev_in e"
  shows "stress_handle e s = Inl Out_of_bounds \<and> overrun e \<or>
    (\<exists>t. stress_handle e s = Inr (Some t) \<and> stress_inv t)"
proof -
  obtain ph where ph: "phase_of (ev_fd e) s = Some ph" "at_rest ph" "watched (ev_fd e) s = armed ph"
    using assms(1) unfolding stress_inv_def by blast
  with assms(2,3) have "ph = To_read"
    by (auto simp: reported_def armed_def split: option.splits phase.splits)
  with ph have fd: "phase_of (ev_fd e) s = Some To_read" "watched (ev_fd e) s = Some Epollin"
    by (simp_all add: armed_def)
  consider "read_once (recv_ret e) 2048 = Inl Out_of_bounds" "overrun e"
    | ok shown where "read_once (recv_ret e) 2048 = Inr (ok, shown)"
    using read_cases[of "recv_ret e"] assms(3) by (auto simp: overrun_def)
  then show ?thesis
  proof cases
    case 1
    then show ?thesis using assms(3) by (simp add: stress_handle_def)
  next
    case 2
    let ?t = "(if ok then s @ [Received (ev_fd e) ok] else close_conn (ev_fd e) (s @ [Received (ev_fd e) ok]))
      @ [Ctl_mod (ev_fd e) Epollout]"
    have "stress_inv ?t"
      by (rule stress_invI[OF assms(1)]) (auto simp: fd follow_def close_conn_def armed_def at_rest_def)
    then show ?thesis using 2 assms(3) by (simp add: stress_handle_def Let_def)
  qed
qed

lemma request_nonempty: "request \<noteq> []"
  by (simp add: request_def)

lemma write_turn:
  assumes "stress_inv s" and "reported e s" and "\<not> ev_in e" and "ev_out e"
  shows "\<exists>t. stress_handle e s = Inr (Some t) \<and> stress_inv t"
proof -
  obtain ph where ph: "phase_of (ev_fd e) s = Some ph" "at_rest ph" "watched (ev_fd e) s = armed ph"
    using assms(1) unfolding stress_inv_def by blast
  with assms(2,4) have "ph = To_write"
    by (auto simp: reported_def armed_def split: option.splits phase.splits)
  with ph have fd: "phase_of (ev_fd e) s = Some To_write" "watched (ev_fd e) s = Some Epollout"
    by (simp_all add: armed_def)
  have send: "send_ok (send_rets e) (int (length request))" "length request \<le> length (send_rets e)"
    using assms(2) by (simp_all add: reported_def)
  obtain ok sent where w: "write_nbytes (send_rets e) request (int (length request)) [] = Some (ok, sent)"
    using write_returns[OF request_nonempty send(2,1)] by blast
  then have sent: "if ok then sent = request else \<exists>rest. rest \<noteq> [] \<and> request = sent @ rest"
    using write_prefix[OF send(1), of "[]"] request_nonempty by (auto split: if_splits)
  then have step: "phase_step (Sent (ev_fd e) sent) To_write = Some (if ok then Written else Failed)"
  proof (cases ok)
    case False
    then obtain rest where "rest \<noteq> []" "request = sent @ rest" using sent by auto
    then have "length request = length (sent @ rest)" "take (length sent) request = take (length sent) (sent @ rest)"
      by simp_all
    then have "length sent < length request" "take (length sent) request = sent" "sent \<noteq> request"
      using \<open>rest \<noteq> []\<close> by auto
    then show ?thesis using False by simp
  qed (use sent in simp)
  let ?t = "(if ok then s @ [Sent (ev_fd e) sent] else close_conn (ev_fd e) (s @ [Sent (ev_fd e) sent]))
    @ [Ctl_mod (ev_fd e) Epollin]"
  have "stress_inv ?t"
    by (rule stress_invI[OF assms(1)])
       (auto simp: fd follow_def close_conn_def armed_def at_rest_def step simp del: phase_step.simps(4))
  then show ?thesis using w assms(3,4) by (simp add: stress_handle_def Let_def)
qed

lemma other_turn:
  assumes "stress_inv s" and "reported e s" and "\<not> ev_in e" and "\<not> ev_out e"
  shows "\<exists>t. stress_handle e s = Inr (Some t) \<and> stress_inv t"
proof (cases "ev_err e")
  case True
  obtain ph where ph: "phase_of (ev_fd e) s = Some ph" "at_rest ph" "watched (ev_fd e) s = armed ph"
    using assms(1) unfolding stress_inv_def by blast
  with assms(2) have "ph = To_write \<or> ph = To_read"
    by (auto simp: reported_def armed_def split: option.splits phase.splits)
  then have "stress_inv (close_conn (ev_fd e) s)"
    using ph by (intro stress_invI[OF assms(1)]) (auto simp: follow_def close_conn_def armed_def at_rest_def)
  then show ?thesis using True assms(3,4) by (simp add: stress_handle_def)
qed (use assms in \<open>simp add: stress_handle_def\<close>)

lemma stress_turn:
  assumes "stress_inv s" and "reported e s"
  shows "stress_handle e s = Inl Out_of_bounds \<and> overrun e \<or>
    (\<exists>t. stress_handle e s = Inr (Some t) \<and> stress_inv t)"
  using read_turn[OF assms] write_turn[OF assms] other_turn[OF assms] by blast

lemma events_turn:
  "stress_inv s \<Longrightarrow> reported_events es s \<Longrightarrow>
   stress_events es s = Inl Out_of_bounds \<and> (\<exists>e \<in> set es. overrun e) \<or>
   (\<exists>t. stress_events es s = Inr (Some t) \<and> stress_inv t)"
proof (induction es arbitrary: s)
  case (Cons e es)
  then have "reported e s" by simp
  from stress_turn[OF Cons.prems(1) this] show ?case
  proof (elim disjE exE conjE)
    fix t assume t: "stress_handle e s = Inr (Some t)" "stress_inv t"
    from Cons.IH[OF t(2)] Cons.prems(2) t(1) show ?thesis by auto
  qed auto
qed simp

lemma rounds_turn:
  "stress_inv s \<Longrightarrow> reported_rounds ws s \<Longrightarrow>
   stress_loop ws s = Inl Out_of_bounds \<and> (\<exists>es \<in> set ws. \<exists>e \<in> set es. overrun e) \<or>
   (\<exists>t. stress_loop ws s = Inr (Some t) \<and> stress_inv t)"
proof (induction ws arbitrary: s)
  case (Cons es ws)
  then have "reported_events es s" by simp
  from events_turn[OF Cons.prems(1) this] show ?case
  proof (elim disjE exE conjE)
    fix t assume t: "stress_events es s = Inr (Some t)" "stress_inv t"
    from Cons.IH[OF t(2)] Cons.prems(2) t(1) show ?thesis by auto
  qed auto
qed simp

definition opened_sockets :: "string list \<Rightarrow> (string \<Rightarrow> 16 word \<Rightarrow> nat \<Rightarrow> int \<times> int) \<Rightarrow> int list" where
  \<comment> \<open>the descriptors \<open>socket\<close> returns in the loop of \<open>start_conn\<close>\<close>
  "opened_sockets argv net = filter (\<lambda>fd. 0 \<le> fd)
     (map (\<lambda>i. fst (net (argv ! 1) (htons (word_of_int (atoi (argv ! 2)))) i)) [0..<nat (atoi (argv ! 3))])"

text \<open>
  C39 The protocol of every connection. For any network that does not hand out a descriptor twice
  and any events the kernel may report (\<open>epoll\<close> reports what is registered, as it is armed;
  \<open>send\<close> takes between one and the given number of bytes or fails), in any number of rounds and
  any interleaving of the connections, the calls on every descriptor follow the protocol
  above: it is registered once, whole requests and answers alternate, it is armed for exactly
  its next turn, and after a failure it is taken out of \<open>epoll\<close>, closed once and used no
  more, except by one \<open>EPOLL_CTL_MOD\<close> on the closed descriptor. After every round each
  connection is between two turns. The only other outcome is the overrun of the buffer by an
  answer of 2048 bytes without a zero.
\<close>

theorem connections_follow_protocol:
  assumes "length argv = 4" and "distinct (opened_sockets argv net)"
    and "reported_rounds ws (start_conn (atoi (argv ! 3)) (argv ! 1) (atoi (argv ! 2)) net [])"
  shows "stress_main argv net ws = Inl Out_of_bounds \<and> (\<exists>es \<in> set ws. \<exists>e \<in> set es. overrun e) \<or>
    (\<exists>log. stress_main argv net ws = Inr (Some log) \<and>
      (\<forall>fd. phase_of fd log \<in> {Some Absent, Some Created, Some To_write, Some To_read, Some Gone}))"
proof -
  let ?cs = "map (net (argv ! 1) (htons (word_of_int (atoi (argv ! 2))))) [0..<nat (atoi (argv ! 3))]"
  have "stress_inv []" by (simp add: stress_inv_def at_rest_def armed_def)
  moreover have "distinct (filter (\<lambda>fd. 0 \<le> fd) (map fst ?cs))"
    using assms(2) by (simp add: opened_sockets_def comp_def)
  ultimately have "stress_inv (start_conn (atoi (argv ! 3)) (argv ! 1) (atoi (argv ! 2)) net [])"
    unfolding start_conn_def by (intro conn_loop_inv) simp_all
  from rounds_turn[OF this assms(3)] show ?thesis
  proof (elim disjE exE conjE)
    fix t assume t: "stress_loop ws (start_conn (atoi (argv ! 3)) (argv ! 1) (atoi (argv ! 2)) net []) = Inr (Some t)"
      "stress_inv t"
    then have "phase_of fd t \<in> {Some Absent, Some Created, Some To_write, Some To_read, Some Gone}" for fd
      unfolding stress_inv_def at_rest_def by fastforce
    then show ?thesis using t(1) assms(1) by (auto simp: stress_main_def)
  qed (use assms(1) in \<open>simp add: stress_main_def\<close>)
qed

definition sample_read :: "int \<Rightarrow> recv_result \<Rightarrow> stress_event" where
  "sample_read fd r = \<lparr>ev_fd = fd, ev_in = True, ev_out = False, ev_err = False, recv_ret = r,
     send_rets = replicate 81 0\<rparr>"

definition sample_write :: "int \<Rightarrow> int list \<Rightarrow> stress_event" where
  "sample_write fd ns = \<lparr>ev_fd = fd, ev_in = False, ev_out = True, ev_err = False, recv_ret = Recv_data [],
     send_rets = ns\<rparr>"

lemma send_ok_zeros [simp]: "send_ok (replicate n 0) len"
  by (cases n) simp_all

lemma length_request [simp]: "length request = 81"
  by (simp add: request_def)

theorem connections_follow_protocol_witness:
  \<comment> \<open>two connections: the first writes its request in two parts and reads an end of stream\<close>
  "\<exists>log. stress_main [''stress'', ''127.0.0.1'', ''80'', ''2''] (\<lambda>ip port i. (7 + int i, 0))
      [[sample_write 7 (40 # 41 # replicate 79 0), sample_write 8 (81 # replicate 80 0)], [sample_read 7 (Recv_data [])]] = Inr (Some log) \<and>
    phase_of 7 log \<in> {Some Absent, Some Created, Some To_write, Some To_read, Some Gone}"
proof -
  let ?argv = "[''stress'', ''127.0.0.1'', ''80'', ''2'']" and ?net = "\<lambda>ip port i. (7 + int i, 0)"
    and ?ws = "[[sample_write 7 (40 # 41 # replicate 79 0), sample_write 8 (81 # replicate 80 0)], [sample_read 7 (Recv_data [])]]"
  have two: "atoi ''2'' = 2" by (simp add: atoi_def is_space_def is_digit_def decimal_def)
  then have start: "start_conn (atoi (?argv ! 3)) (?argv ! 1) (atoi (?argv ! 2)) ?net [] = conn_loop [(7, 0), (8, 0)] []"
    by (simp add: start_conn_def numeral_2_eq_2)
  have "distinct (opened_sockets ?argv ?net)" using two by (simp add: opened_sockets_def numeral_2_eq_2)
  moreover have "reported_rounds ?ws (start_conn (atoi (?argv ! 3)) (?argv ! 1) (atoi (?argv ! 2)) ?net [])"
    unfolding start
    by (simp add: reported_def watched_def sample_read_def sample_write_def addfd_def stress_handle_def read_once_def
        received_def close_conn_def Let_def)
  moreover have "\<not> (\<exists>es \<in> set ?ws. \<exists>e \<in> set es. overrun e)"
    by (simp add: overrun_def sample_read_def sample_write_def)
  ultimately show ?thesis using connections_follow_protocol[of ?argv ?net ?ws] by auto
qed

end
