(* ===== verification/Epoll_Reactor.thy ===== *)
theory Epoll_Reactor
  imports Net_Prelude
begin

section \<open>The reactor (\<open>epoll_reactor.h\<close>, \<open>epoll_reactor.cc\<close>)\<close>

text \<open>
  \<open>CEpollReactor\<close> keeps a map from handlers to descriptors and calls the handlers of the
  events that \<open>epoll_wait\<close> reports. A handler is named by its address. \<open>HandleInput\<close> and
  \<open>HandleOutput\<close> are declared but not defined in the repository: they are arguments, any
  functions of the reactor and of the rest of the world. \<open>GetIds\<close> is defined in the base
  class, is not virtual and has an empty body.
\<close>

unbundle bit_operations_syntax

definition EPOLLIN :: "32 word" where "EPOLLIN = 1"
definition EPOLLOUT :: "32 word" where "EPOLLOUT = 4"

datatype ctl_call = Ctl_add int addr | Ctl_del int | Ctl_mod int addr "32 word"

record 'w reactor =
  m_fdEpoll :: int
  m_mapEvents :: "addr \<rightharpoonup> int"
  ctl_log :: "ctl_call list"   \<comment> \<open>calls of \<open>epoll_ctl\<close>\<close>
  closed_fds :: "int list"
  world :: 'w

definition new_reactor :: "int \<Rightarrow> 'w \<Rightarrow> 'w reactor" where
  "new_reactor fd w = \<lparr>m_fdEpoll = fd, m_mapEvents = Map.empty, ctl_log = [], closed_fds = [], world = w\<rparr>"

definition destroy_reactor :: "'w reactor \<Rightarrow> 'w reactor" where
  "destroy_reactor s = s\<lparr>closed_fds := closed_fds s @ [m_fdEpoll s]\<rparr>"

definition ctl :: "ctl_call \<Rightarrow> 'w reactor \<Rightarrow> 'w reactor" where
  "ctl c s = s\<lparr>ctl_log := ctl_log s @ [c]\<rparr>"

definition GetIds :: "addr \<Rightarrow> int \<times> int \<Rightarrow> int \<times> int" where
  \<comment> \<open>an empty body: what the two pointers point to stays as it is\<close>
  "GetIds h ids = ids"

subsection \<open>Operations\<close>

definition RegisterIO :: "addr \<Rightarrow> 'w reactor \<Rightarrow> 'w reactor" where
  "RegisterIO h s =
     (let (nReadID, nWriteID) = GetIds h (0, 0);
          nReadID = (if nWriteID \<noteq> 0 \<and> nReadID = 0 then nWriteID else nReadID) in
      if nReadID \<noteq> 0 then ctl (Ctl_add nReadID h) (s\<lparr>m_mapEvents := (m_mapEvents s)(h \<mapsto> nReadID)\<rparr>) else s)"

definition RemoveIO :: "addr \<Rightarrow> 'w reactor \<Rightarrow> 'w reactor" where
  "RemoveIO h s =
     (case m_mapEvents s h of
        None \<Rightarrow> s
      | Some fd \<Rightarrow> (ctl (Ctl_del fd) s)\<lparr>m_mapEvents := (m_mapEvents s)(h := None)\<rparr>)"

definition refresh :: "addr \<Rightarrow> 'w reactor \<Rightarrow> 'w reactor" where
  \<comment> \<open>the first loop of \<open>DispatchIOs\<close>, for one entry of the map; \<open>0\<close> is \<open>nullptr\<close>\<close>
  "refresh h s =
     (if h = 0 then s
      else
        let (nReadID, nWriteID) = GetIds h (0, 0);
            ev = (if nReadID > 0 then EPOLLIN else 0) OR (if nWriteID > 0 then EPOLLOUT else 0) in
        (case m_mapEvents s h of None \<Rightarrow> s | Some fd \<Rightarrow> ctl (Ctl_mod fd h ev) s))"

definition dispatch_event :: "(addr \<Rightarrow> 'w reactor \<Rightarrow> 'w reactor) \<Rightarrow> (addr \<Rightarrow> 'w reactor \<Rightarrow> 'w reactor)
    \<Rightarrow> 32 word \<times> addr \<Rightarrow> 'w reactor \<Rightarrow> 'w reactor" where
  "dispatch_event input output ev s =
     (case ev of (events, h) \<Rightarrow>
        let s1 = (if (events OR EPOLLIN) \<noteq> 0 \<and> m_mapEvents s h \<noteq> None then input h s else s) in
        if (events OR EPOLLOUT) \<noteq> 0 \<and> m_mapEvents s1 h \<noteq> None then output h s1 else s1)"

definition DispatchIOs :: "(addr \<Rightarrow> 'w reactor \<Rightarrow> 'w reactor) \<Rightarrow> (addr \<Rightarrow> 'w reactor \<Rightarrow> 'w reactor)
    \<Rightarrow> addr list \<Rightarrow> (32 word \<times> addr) list \<Rightarrow> 'w reactor \<Rightarrow> 'w reactor" where
  \<comment> \<open>\<open>order\<close>: the keys of the map in the order of its iterator\<close>
  "DispatchIOs input output order evs s = fold (dispatch_event input output) evs (fold refresh order s)"

datatype reactor_op = Register addr | Remove addr | Dispatch "addr list" "(32 word \<times> addr) list"

fun reactor_step :: "(addr \<Rightarrow> 'w reactor \<Rightarrow> 'w reactor) \<Rightarrow> (addr \<Rightarrow> 'w reactor \<Rightarrow> 'w reactor)
    \<Rightarrow> reactor_op \<Rightarrow> 'w reactor \<Rightarrow> 'w reactor" where
  "reactor_step input output (Register h) s = RegisterIO h s"
| "reactor_step input output (Remove h) s = RemoveIO h s"
| "reactor_step input output (Dispatch order evs) s = DispatchIOs input output order evs s"

subsection \<open>Properties\<close>

lemma RegisterIO_nothing: "RegisterIO h s = s"
  by (simp add: RegisterIO_def GetIds_def)

lemma fold_id: "(\<And>x. x \<in> set xs \<Longrightarrow> f x s = s) \<Longrightarrow> fold f xs s = s"
  by (induction xs) auto

lemma reactor_step_inert:
  assumes "m_mapEvents s = Map.empty"
  shows "reactor_step input output c s = s"
proof (cases c)
  case (Dispatch order evs)
  have "fold refresh order s = s"
    using assms by (intro fold_id) (simp add: refresh_def Let_def split: prod.split)
  moreover have "fold (dispatch_event input output) evs s = s"
    using assms by (intro fold_id) (auto simp: dispatch_event_def Let_def)
  ultimately show ?thesis using Dispatch by (simp add: DispatchIOs_def)
qed (use assms in \<open>simp_all add: RegisterIO_nothing RemoveIO_def\<close>)

text \<open>
  The reactor does nothing. Whatever handlers are registered and removed and whatever
  events are dispatched, in any order, a new reactor registers no descriptor with \<open>epoll\<close>
  and calls no handler until it is destroyed, and then closes its descriptor: \<open>GetIds\<close> leaves both identifiers at \<open>0\<close>, and no derived class can
  change that.
\<close>

theorem reactor_is_inert:
  "destroy_reactor (fold (reactor_step input output) ops (new_reactor fd w)) = (new_reactor fd w)\<lparr>closed_fds := [fd]\<rparr>"
proof -
  have "fold (reactor_step input output) ops (new_reactor fd w) = new_reactor fd w"
    by (rule fold_id) (simp add: reactor_step_inert new_reactor_def)
  then show ?thesis by (simp add: destroy_reactor_def new_reactor_def)
qed

lemma or_not_zero: "w OR EPOLLIN \<noteq> 0" "w OR EPOLLOUT \<noteq> 0"
  by (simp_all add: EPOLLIN_def EPOLLOUT_def or_eq_0_iff)

text \<open>
  The events are not looked at. For a registered handler that stays registered, every
  reported event, also one without \<open>EPOLLIN\<close> and \<open>EPOLLOUT\<close>, calls \<open>HandleInput\<close> and then
  \<open>HandleOutput\<close>: the code combines the mask with \<open>|\<close> where it means \<open>&\<close>.
\<close>

theorem dispatch_ignores_event_mask:
  assumes "m_mapEvents s h \<noteq> None" and "m_mapEvents (input h s) h \<noteq> None"
  shows "dispatch_event input output (events, h) s = output h (input h s)"
  using assms by (simp add: dispatch_event_def Let_def or_not_zero)

theorem dispatch_ignores_event_mask_witness:
  "world (dispatch_event (\<lambda>h s. s\<lparr>world := world s @ [''in'']\<rparr>) (\<lambda>h s. s\<lparr>world := world s @ [''out'']\<rparr>)
     (0, 9) ((new_reactor 3 [])\<lparr>m_mapEvents := [9 \<mapsto> 5]\<rparr>)) = [''in'', ''out'']"
  by (subst dispatch_ignores_event_mask) (simp_all add: new_reactor_def)

text \<open>
  Removal. \<open>RemoveIO\<close> deregisters the descriptor of a handler once: the handler is not
  called by later events, the other handlers keep their descriptors, and a second removal
  has no effect.
\<close>

theorem remove_deregisters_once:
  "m_mapEvents (RemoveIO h s) = (m_mapEvents s)(h := None) \<and>
   RemoveIO h (RemoveIO h s) = RemoveIO h s \<and>
   dispatch_event input output (events, h) (RemoveIO h s) = RemoveIO h s \<and>
   ctl_log (RemoveIO h s) = ctl_log s @ (case m_mapEvents s h of None \<Rightarrow> [] | Some fd \<Rightarrow> [Ctl_del fd])"
  by (auto simp: RemoveIO_def dispatch_event_def ctl_def Let_def fun_eq_iff split: option.split)

end
