(* ===== verification/Client.thy ===== *)
theory Client
  imports Tcp_Listen
begin

section \<open>The clients (\<open>linux_client/main.cpp\<close>, \<open>sock_timer.h\<close>)\<close>

text \<open>
  A client that sends one request and prints one reply, and a connection with a timeout. The
  answers of the kernel come as a record; the log holds the descriptors closed, and the
  bytes sent and printed on the standard output (the error messages are left out).
\<close>

record client_env =
  socket_ret :: int
  pton :: "string \<Rightarrow> int"
  connect_ret :: "string \<Rightarrow> 16 word \<Rightarrow> int"
  send_ret :: int
  recv_ret :: recv_result

record client_log =
  closed_fds :: "int list"
  sent :: "nat list"
  printed :: "nat list"

definition crlf :: "nat list" where "crlf = [13, 10]"

definition payload :: "nat list \<Rightarrow> nat list" where
  "payload message = message @ crlf"

definition close_fd :: "int \<Rightarrow> client_log \<Rightarrow> client_log" where
  "close_fd fd l = l\<lparr>closed_fds := closed_fds l @ [fd]\<rparr>"

definition received_prefix :: "nat list" where
  "received_prefix = bytes_of ''Received: ''"

definition client_main :: "string list \<Rightarrow> client_env \<Rightarrow> outcome \<times> client_log" where
  "client_main argv env =
     (let l = \<lparr>closed_fds = [], sent = [], printed = []\<rparr> in
      if length argv \<noteq> 4 then (Exit 1, l)
      else
        (case stoi (argv ! 2) of
           Inl x \<Rightarrow> (Uncaught x, l)
         | Inr p \<Rightarrow>
             let server_ip = argv ! 1; server_port = (word_of_int p :: 16 word); message = bytes_of (argv ! 3);
                 sockfd = socket_ret env in
             if sockfd < 0 then (Exit 1, l)
             else if pton env server_ip \<noteq> 1 then (Exit 1, close_fd sockfd l)
             else if connect_ret env server_ip (htons server_port) < 0 then (Exit 1, close_fd sockfd l)
             else if send_ret env < 0 then (Exit 1, close_fd sockfd l)
             else
               let l1 = l\<lparr>sent := take (nat (send_ret env)) (payload message)\<rparr> in
               (case recv_ret env of
                  Recv_error _ \<Rightarrow> (Exit 0, close_fd sockfd l1)
                | Recv_data bs \<Rightarrow>
                    let got = received 1023 bs in
                    if got = [] then
                      (Exit 0, close_fd sockfd (l1\<lparr>printed :=
                         bytes_of (''Server closed connection before sending a response.'' @ [CHR 0x0A])\<rparr>))
                    else (Exit 0, close_fd sockfd (l1\<lparr>printed := received_prefix @ c_string (got @ [0])\<rparr>)))))"

subsection \<open>A connection with a timeout\<close>

definition EINPROGRESS :: int where "EINPROGRESS = 115"

record connect_log =
  opened :: "int list"
  shut :: "int list"

definition timeout_connect :: "int \<Rightarrow> int \<Rightarrow> int \<Rightarrow> int \<Rightarrow> (int \<times> connect_log) res" where
  \<comment> \<open>what \<open>socket\<close>, \<open>setsockopt\<close> and \<open>connect\<close> return, and \<open>errno\<close>\<close>
  "timeout_connect sockfd opt_ret conn_ret err =
     (if \<not> sockfd > 0 then Inl Assert_failed
      else
        let l = \<lparr>opened = [sockfd], shut = []\<rparr> in
        if opt_ret = -1 then Inl Assert_failed
        else if conn_ret = -1 then (if err = EINPROGRESS then Inr (-1, l) else Inr (-1, l))
        else Inr (sockfd, l))"

definition test_sock_timer :: "int \<Rightarrow> int \<Rightarrow> int \<Rightarrow> int \<Rightarrow> int \<Rightarrow> (int \<times> connect_log) res" where
  "test_sock_timer argc sockfd opt_ret conn_ret err =
     (if argc \<le> 2 then Inr (1, \<lparr>opened = [], shut = []\<rparr>)
      else rbind (timeout_connect sockfd opt_ret conn_ret err) (\<lambda>(fd, l).
             if fd < 0 then Inr (1, l) else Inr (0, l)))"

subsection \<open>Properties\<close>

text \<open>
  The client closes its socket once. On every path through \<open>main\<close>, whatever the kernel
  answers, a descriptor that \<open>socket\<close> returned is closed exactly once, and the client exits
  with \<open>0\<close> only if its request was sent.
\<close>

theorem client_closes_socket_once:
  "case client_main argv env of (out, l) \<Rightarrow>
     (closed_fds l = [] \<or> closed_fds l = [socket_ret env]) \<and>
     (out = Exit 0 \<longrightarrow> closed_fds l = [socket_ret env] \<and> sent l = take (nat (send_ret env)) (payload (bytes_of (argv ! 3)))) \<and>
     (closed_fds l = [] \<longrightarrow> length argv \<noteq> 4 \<or> (\<exists>x. stoi (argv ! 2) = Inl x) \<or> socket_ret env < 0)"
  by (auto simp: client_main_def close_fd_def Let_def split: sum.split recv_result.split)

end
