(* ===== verification/Spec2Isabelle.thy ===== *)
theory Spec2Isabelle
  imports Sort_Timer_List Time_Wheel Timer_Server Cgi_Conn Process_Pool Pool_Cgi Thread_Pool Tcp_Server Tcp_Listen
    Timer_Equivalence Pool_Main Pool_Signals Pool_Liveness Pool_Spec Pool_Server Server_Liveness Server_Sockets Io_Epoll Epoll_Demo Communicator Stress_Test Epoll_Reactor Client
begin

text \<open>
  A model of the network programs of the repository and the theorems that make them correct.

  \<^bold>\<open>The program.\<close> The repository holds several servers and what they are built from.
  (1) \<open>linux_server/cpt_11_2_2.h\<close> is a server for one thread that closes idle connections: its
  events come from \<open>epoll\<close>, signals come through a socket pair, and a timer for each connection
  stands in the ascending list of \<open>cpt_11_2_1.h\<close>. \<open>time_wheel.h\<close> and \<open>cpt_11_4_1.h\<close> are another
  container of timers, twice. (2) \<open>main.cpp\<close> runs the process pool of \<open>cpt_15_3.h\<close>: a parent
  that hands connections to child processes, which serve CGI requests. (3)
  \<open>thread_pool_main.cpp\<close> runs \<open>thread_pool_server.h\<close> and \<open>.cpp\<close>: a thread that accepts clients
  and a pool of threads that echo their requests; \<open>linux_client/main.cpp\<close> is its client and
  \<open>stress_test/stress.cpp\<close> loads a server with connections. (4) \<open>io_epoll.h\<close>, \<open>demo.h\<close>,
  \<open>epoll_reactor.h\<close> and \<open>.cc\<close> are studies of \<open>epoll\<close>; \<open>linux_communicator\<close> and \<open>sock_timer.h\<close>
  are studies of pipes, shared memory and timeouts.

  \<^bold>\<open>The theories.\<close>
  \<^item> \<open>Net_Prelude\<close>: results with faults (a dangling or null pointer, an index out of bounds, a
    failed \<open>assert\<close>, the end of the fuel), memory as a map from addresses, arrays, and the
    interfaces: \<open>event_handler\<close> (a handler that keeps an invariant, over any events),
    \<open>transition_system\<close> (interleaved steps that keep an invariant, over any run), which
    \<open>terminating_system\<close> extends by a weight that every step lowers and \<open>step_refinement\<close> by
    a simpler system that the steps follow, and \<open>simulation\<close> (operations that follow an
    abstract specification, over any history).
  \<^item> \<open>Dlist_Heap\<close>: doubly linked lists in memory, shared by the list and the wheel.
    \<open>Timer_Store\<close>: the contract of a container of timers, which both fulfil. \<open>Posix\<close>: the
    constants and the behaviour of the kernel's sockets that the code uses.
  \<^item> \<open>Sort_Timer_List\<close> (\<open>Sort_timer_list\<close>, \<open>Util_timer\<close>): \<open>add_timer\<close>, \<open>adjust_timer\<close>,
    \<open>del_timer\<close>, \<open>tick\<close> and the destructor, pointer by pointer; they refine a list of timers
    sorted by their time.
  \<^item> \<open>Time_Wheel\<close> (\<open>time_wheel\<close>, \<open>tw_timer\<close>, both copies): the sixty slots; the operations
    refine a map from timers to the number of ticks until they fire. \<open>Timer_Equivalence\<close>: the
    list and the wheel, ticked once per second, fire the same timers at the same time.
  \<^item> \<open>Timer_Server\<close> (\<open>n_timer_server\<close>): set-up, the three kinds of events, the signals and the
    loop; the server refines a map from connections to deadlines.
  \<^item> \<open>Cgi_Conn\<close> (\<open>cgi_conn\<close>): a connection that collects a request over several reads and
    starts a program. \<open>Process_Pool\<close> (\<open>processpool<T>\<close>): construction with \<open>fork\<close>, the
    loops of child and parent. \<open>Pool_Signals\<close>: from \<open>sig_handler\<close> through the socket pair to
    the loop. \<open>Pool_Cgi\<close>: the pool with these connections. \<open>Pool_Main\<close>: \<open>main.cpp\<close>.
  \<^item> \<open>Thread_Pool\<close> (\<open>ThreadPool\<close>): workers, callers of
    \<open>enqueue\<close> and the destructor as threads with program points over a mutex, a
    condition variable (with spurious wake-ups), a queue and a flag. \<open>Pool_Spec\<close>:
    every run of it is a history of a queue with servers. \<open>Pool_Liveness\<close>: its runs
    end, with all work done, and when its destructor returns. \<open>Tcp_Server\<close>
    (\<open>SocketHandle\<close>, \<open>TcpConnection\<close>): ownership of descriptors and
    the echo. \<open>Tcp_Listen\<close> (\<open>ThreadPoolTcpServer\<close>,
    \<open>thread_pool_main.cpp\<close>): the listening socket, the accepting loop,
    \<open>main\<close>. \<open>Pool_Server\<close>: the loop and the pool together, interleaved, with the
    execution of a connection as one step; \<open>Server_Liveness\<close>: every client they accept is
    served in the end, where its connection's loop ends. \<open>Server_Sockets\<close> refines them: the
    iterations of \<open>processRequest\<close> interleave with everything else, and each step performs
    the operations on \<open>SocketHandle\<close> objects that the code has there.
  \<^item> \<open>Client\<close> (\<open>linux_client/main.cpp\<close>, \<open>sock_timer.h\<close>), \<open>Stress_Test\<close>, \<open>Io_Epoll\<close>,
    \<open>Epoll_Demo\<close> (\<open>demo.h\<close>), \<open>Epoll_Reactor\<close>, \<open>Communicator\<close> (\<open>io_pipe.h\<close>,
    \<open>io_shared_memory.h\<close>). This theory holds what spans the client and the server.

  \<^bold>\<open>State and operations.\<close> A class is a record with the members of the source under their names,
  and one definition for each operation, with its early returns as branches. Objects that the
  code shares by pointers live in a memory. System calls are arguments: the answers of the
  kernel come with each event or as a record of the environment, and calls whose effect the
  theorems speak of are logged. Exceptions of the thread-pool server are values. The template
  parameter and the handlers of the reactor, which the repository does not define, are
  arguments of the definitions that use them. So are the kernel and the terminal of
  \<open>demo.h\<close>, with what is relied on as locales; the stress tester's state is the log of its
  system calls, and what the kernel watches after a log is in the hypotheses on its events.

  \<^bold>\<open>What is shown.\<close> The containers of timers refine their specifications
  over whole histories, fire exactly what is due, agree with each other and free everything;
  the timer server keeps a timer for each open connection and closes an idle one at the first
  alarm that comes \<open>3 * TIMESLOT\<close> seconds after its last activity;
  a CGI request is handled in the same way however the network cuts it, inside its buffer;
  the thread pool follows a queue with servers, loses no task, executes each once and comes
  to rest only when all are executed, and its destructor returns if it sets its flag while
  the mutex is free and may hang otherwise; the accepting loop and the pool serve each
  client once, after a number of steps bounded by the number of events; no interleaving
  closes a descriptor twice, uses a closed one or leaves one open, and a silent client keeps
  its worker from being joined; a signal to terminate ends a child in the round in which it is
  reported; a child serves each connection with its own object unless \<open>accept\<close> returns a
  descriptor beyond its array; descriptors have one owner; the parent of the process pool, in
  contrast, dispatches nothing, because its loop over the events stands behind its waiting
  loop. Every connection of the stress tester follows its protocol, and the studies of
  \<open>epoll\<close> show what their comments say on every system with the behaviour that they describe.

  \<^bold>\<open>Bounds.\<close> The loops over a list in memory take a fuel, a number of steps; the theorems hold
  for every fuel above the number of timers, which is how often the code goes round.
  \<open>pick_child\<close> gets the number of children, \<open>et_read\<close> the number of unread bytes and two: the
  theorems show that the fuel never ends. A loop that the code leaves only by the kernel's
  answers runs over a script of them, and the end of the script is a result of its own.
  Ports are words of 16 bits and masks words of 32; other numbers are integers, since no
  theorem depends on a larger number than an \<open>int\<close> holds, which \<open>main_binds_given_port\<close> and
  \<open>stoi\<close> check where input enters.

  \<^bold>\<open>Not modelled.\<close> The messages on the error stream; the flags of descriptors outside
  \<open>setnonblocking\<close>, whose effect on a server is that every socket is read without blocking (a
  failing \<open>fcntl\<close> is modelled where the code checks it); the futures that \<open>enqueue\<close> returns,
  which no caller keeps, and exceptions of a task, which they hold; the fairness of the
  scheduler, which the bounds on the number of steps make unnecessary; \<open>main\<close> of \<open>stress.cpp\<close>
  does not compile (it uses \<open>argc\<close> and \<open>argv\<close> without declaring them) and is modelled with
  these as arguments; the empty \<open>io_epoll.cc\<close> and \<open>epoll_server.h\<close>; the includes of
  \<open>common.h\<close> and the build files.
\<close>

section \<open>Across components: a client and the echo server\<close>

lemma payload_string: "0 \<notin> set message \<Longrightarrow> c_string ((echo_prefix @ payload message) @ [0]) = echo_prefix @ payload message"
proof -
  assume "0 \<notin> set message"
  then have "\<forall>b \<in> set (echo_prefix @ payload message). b \<noteq> 0"
    by (auto simp: payload_def crlf_def echo_prefix_def intro!: gr0I)
  then have "c_string (echo_prefix @ payload message) = echo_prefix @ payload message"
    unfolding c_string_def by (rule takeWhile_eq_all_conv[THEN iffD2])
  then show ?thesis by (simp only: c_string_upto_zero)
qed

text \<open>
  C24 The echo arrives. A client whose calls succeed and whose request, of at most 1017 bytes
  with the line end, is read by the server's connection in one portion prints \<open>Received: \<close>,
  \<open>Echo: \<close>, its message and the line end, and exits with \<open>0\<close> having closed its socket.
\<close>

theorem client_prints_echo:
  assumes "message = bytes_of text" and "0 \<notin> set message" and "length (payload message) \<le> 1017" and "p \<le> 2147483647"
    and "socket_ret env = fd" and "0 \<le> fd" and "Client.pton env ip = 1" and "\<forall>port. 0 \<le> connect_ret env ip port"
    and "send_ret env = int (length (payload message))"
    and "processRequest [(Recv_data (payload message), int (length (payload message)) + 6), (Recv_data [], 0)] [] = (True, replies)"
    and "Client.recv_ret env = Recv_data (concat replies)"
  shows "client_main [prog, ip, to_string p, text] env =
    (Exit 0, \<lparr>closed_fds = [fd], sent = payload message, printed = received_prefix @ echo_prefix @ message @ [13, 10]\<rparr>)"
proof -
  have "payload message \<noteq> []" by (simp add: payload_def crlf_def)
  then have "complete (Recv_data (payload message), int (length (payload message)) + 6)"
    using assms(3) by (simp add: complete_def kBufferSize_def)
  then have "replies = [echo_prefix @ payload message]"
    using processRequest_complete[of "[(Recv_data (payload message), int (length (payload message)) + 6)]" "[(Recv_data [], 0)]" "[]"] assms(10)
    by (simp add: received_def Let_def)
  then have recv: "Client.recv_ret env = Recv_data (echo_prefix @ payload message)" using assms(11) by simp
  have got: "received 1023 (echo_prefix @ payload message) = echo_prefix @ payload message"
    using assms(3) by (simp add: received_def echo_prefix_def)
  have "connect_ret env ip x \<ge> 0" for x using assms(8) by simp
  then show ?thesis
    using assms(5-7,9) recv got payload_string[OF assms(2)] assms(1)[symmetric]
    by (simp add: client_main_def stoi_to_string[OF assms(4)] Let_def Client.close_fd_def not_less payload_def crlf_def echo_prefix_def)
qed

definition sample_client_env :: client_env where
  "sample_client_env = \<lparr>socket_ret = 3, pton = \<lambda>_. 1, connect_ret = \<lambda>_ _. 0, send_ret = 4,
     recv_ret = Recv_data [69, 99, 104, 111, 58, 32, 104, 105, 13, 10]\<rparr>"

theorem client_prints_echo_witness:
  "client_main [''client'', ''127.0.0.1'', to_string 8080, ''hi''] sample_client_env =
    (Exit 0, \<lparr>closed_fds = [3], sent = [104, 105, 13, 10], printed = received_prefix @ [69, 99, 104, 111, 58, 32, 104, 105, 13, 10]\<rparr>)"
  using client_prints_echo[of "[104, 105]" "''hi''" 8080 sample_client_env 3 "''127.0.0.1''" "[[69, 99, 104, 111, 58, 32, 104, 105, 13, 10]]"
      "''client''"]
  by (simp add: sample_client_env_def payload_def crlf_def echo_prefix_def received_def kBufferSize_def Let_def bytes_of_def)

end
